(* ===== verification/Prelude.thy ===== *)
theory Prelude
  imports Complex_Main "HOL-Library.Word" "HOL-Library.Multiset"
begin

text \<open>
  Shared vocabulary of the development: the error monad of Go's \<open>(value, error)\<close> results,
  64-bit wrap-around, IEEE double values with exact arithmetic on the finite ones, Go maps,
  and the generic lemmas on lists, maps and strings that the component theories use.

  Times and durations are integers (the unit is named by each definition), Go strings and byte
  slices are \<^typ>\<open>string\<close>, and a Go map of strings is a partial function: a nil map and an
  empty map read alike, and every write of the source first allocates a nil map.
\<close>

section \<open>Collections of rewrite rules\<close>

named_theorems api_simps \<open>accessors and constructors of the api package\<close>
named_theorems redis_simps \<open>observer equations of the Redis commands\<close>
named_theorems claim_defs \<open>the claim scripts of the sorted-set transport\<close>
named_theorems sql_defs \<open>the statements of the sql store\<close>

type_synonym strmap = "string \<rightharpoonup> string"

section \<open>Results with errors\<close>

fun bindE :: "'e + 'a \<Rightarrow> ('a \<Rightarrow> 'e + 'b) \<Rightarrow> 'e + 'b" where
  "bindE (Inl e) f = Inl e"
| "bindE (Inr x) f = f x"

lemma bindE_Inr_iff [simp]: "bindE m f = Inr y \<longleftrightarrow> (\<exists>x. m = Inr x \<and> f x = Inr y)"
  by (cases m) auto

lemma bindE_Inl_iff: "bindE m f = Inl e \<longleftrightarrow> m = Inl e \<or> (\<exists>x. m = Inr x \<and> f x = Inl e)"
  by (cases m) auto

section \<open>Signed 64-bit integers\<close>

definition wrap64 :: "int \<Rightarrow> int" where
  "wrap64 x = (x + 2 ^ 63) mod 2 ^ 64 - 2 ^ 63"

lemma wrap64_id: "- (2 ^ 63) \<le> x \<Longrightarrow> x < 2 ^ 63 \<Longrightarrow> wrap64 x = x"
  by (simp add: wrap64_def)

lemma wrap64_range: "- (2 ^ 63) \<le> wrap64 x \<and> wrap64 x < 2 ^ 63"
  using pos_mod_bound [of "2 ^ 64" "x + 2 ^ 63"] pos_mod_sign [of "2 ^ 64" "x + 2 ^ 63"]
  by (simp add: wrap64_def)

section \<open>IEEE doubles\<close>

text \<open>
  A \<open>float64\<close> is a finite value, an infinity or NaN. The rounding of finite results is not
  modelled; the comparisons and the special values are, because the gates branch on them.
\<close>

datatype float64 = NaN | PInf | NInf | Fin real

fun f_lt :: "float64 \<Rightarrow> float64 \<Rightarrow> bool" where
  "f_lt NaN _ = False"
| "f_lt _ NaN = False"
| "f_lt (Fin x) (Fin y) = (x < y)"
| "f_lt (Fin x) y = (y = PInf)"
| "f_lt NInf y = (y \<noteq> NInf)"
| "f_lt PInf _ = False"

fun f_le :: "float64 \<Rightarrow> float64 \<Rightarrow> bool" where
  "f_le NaN _ = False"
| "f_le _ NaN = False"
| "f_le (Fin x) (Fin y) = (x \<le> y)"
| "f_le (Fin x) y = (y = PInf)"
| "f_le NInf _ = True"
| "f_le PInf y = (y = PInf)"

fun f_is_finite :: "float64 \<Rightarrow> bool" where
  "f_is_finite (Fin _) = True"
| "f_is_finite _ = False"

text \<open>\<open>math.Min\<close> and \<open>math.Max\<close>: NaN if either argument is.\<close>

definition f_min :: "float64 \<Rightarrow> float64 \<Rightarrow> float64" where
  "f_min x y = (if x = NaN \<or> y = NaN then NaN else if f_le x y then x else y)"

definition f_max :: "float64 \<Rightarrow> float64 \<Rightarrow> float64" where
  "f_max x y = (if x = NaN \<or> y = NaN then NaN else if f_le x y then y else x)"

fun f_neg :: "float64 \<Rightarrow> float64" where
  "f_neg NaN = NaN"
| "f_neg PInf = NInf"
| "f_neg NInf = PInf"
| "f_neg (Fin x) = Fin (- x)"

fun f_add :: "float64 \<Rightarrow> float64 \<Rightarrow> float64" where
  "f_add (Fin x) (Fin y) = Fin (x + y)"
| "f_add NaN _ = NaN"
| "f_add _ NaN = NaN"
| "f_add PInf NInf = NaN"
| "f_add NInf PInf = NaN"
| "f_add PInf _ = PInf"
| "f_add _ PInf = PInf"
| "f_add NInf _ = NInf"
| "f_add _ NInf = NInf"

definition f_sub :: "float64 \<Rightarrow> float64 \<Rightarrow> float64" where
  "f_sub x y = f_add x (f_neg y)"

definition f_inf :: "bool \<Rightarrow> float64" where
  "f_inf pos = (if pos then PInf else NInf)"

fun f_mul :: "float64 \<Rightarrow> float64 \<Rightarrow> float64" where
  "f_mul (Fin x) (Fin y) = Fin (x * y)"
| "f_mul NaN _ = NaN"
| "f_mul _ NaN = NaN"
| "f_mul (Fin x) y = (if x = 0 then NaN else f_inf ((0 < x) = (y = PInf)))"
| "f_mul x (Fin y) = (if y = 0 then NaN else f_inf ((0 < y) = (x = PInf)))"
| "f_mul x y = f_inf (x = y)"

text \<open>Division by a positive divisor, the only case the source divides in.\<close>

fun f_div_pos :: "float64 \<Rightarrow> float64 \<Rightarrow> float64" where
  "f_div_pos NaN _ = NaN"
| "f_div_pos _ NaN = NaN"
| "f_div_pos (Fin x) (Fin y) = Fin (x / y)"
| "f_div_pos (Fin _) _ = Fin 0"
| "f_div_pos x (Fin _) = x"
| "f_div_pos _ _ = NaN"

definition f_unit :: "float64 \<Rightarrow> bool" where
  "f_unit b \<longleftrightarrow> (\<exists>x. b = Fin x \<and> 0 \<le> x \<and> x \<le> 1)"

lemma f_unit_Fin [simp]: "f_unit (Fin x) \<longleftrightarrow> 0 \<le> x \<and> x \<le> 1"
  by (simp add: f_unit_def)

lemma f_le_Fin_right: "f_le x (Fin y) \<longleftrightarrow> (x = NInf \<or> (\<exists>z. x = Fin z \<and> z \<le> y))"
  by (cases x) auto

lemma f_clamp_unit: "x \<noteq> NaN \<Longrightarrow> f_unit (f_max (Fin 0) (f_min (Fin 1) x))"
  by (cases x) (auto simp: f_max_def f_min_def)

section \<open>Lists and maps\<close>

lemma filter_map_of_distinct:
  "distinct (map f xs) \<Longrightarrow> x \<in> set xs \<Longrightarrow> filter (\<lambda>y. f y = f x) xs = [x]"
proof (induction xs)
  case Nil
  then show ?case by simp
next
  case (Cons a xs)
  show ?case
  proof (cases "x = a")
    case True
    then have "filter (\<lambda>y. f y = f x) xs = []"
      using Cons.prems by (auto simp: filter_empty_conv image_iff)
    with True show ?thesis by simp
  next
    case False
    with Cons show ?thesis by auto
  qed
qed

lemma sum_list_filter_split:
  fixes f :: "'a \<Rightarrow> 'b::comm_monoid_add"
  shows "(\<Sum>x\<leftarrow>xs. f x) = (\<Sum>x\<leftarrow>filter P xs. f x) + (\<Sum>x\<leftarrow>filter (\<lambda>x. \<not> P x) xs. f x)"
  by (induction xs) (auto simp: ac_simps)

lemma mset_filter_partition:
  "mset xs = mset (filter P xs) + mset (filter (\<lambda>x. \<not> P x) xs)"
  by (induction xs) auto

section \<open>Texts of integers\<close>

text \<open>A sign and as many digits: a reversible text of an integer, for instances.\<close>

definition unary :: "int \<Rightarrow> string" where
  "unary n = (if 0 \<le> n then CHR ''+'' else CHR ''-'') # replicate (nat \<bar>n\<bar>) CHR ''1''"

fun of_unary :: "string \<Rightarrow> int option" where
  "of_unary [] = None"
| "of_unary (c # cs) = Some (if c = CHR ''+'' then int (length cs) else - int (length cs))"

lemma of_unary_unary [simp]: "of_unary (unary n) = Some n"
  by (simp add: unary_def)

lemma inj_unary: "inj unary"
  by (rule injI) (metis of_unary_unary option.inject)

end
