(* ===== verification/Api.thy ===== *)
theory Api
  imports Prelude "HOL-Library.Monad_Syntax"
begin

text \<open>
  The wire types of the \<open>api\<close> package (\<open>src/api\<close>): requests, results, routing, error
  categories, the sorted-set score, the tagged JSON envelope and the out-of-line payload.

  The concrete request types of the Go interface \<open>Request\<close> are the constructors of one datatype;
  a request type the package does not know is \<open>OtherRequest\<close>. Pointers to them are never nil in the
  model, a nil interface value is \<^const>\<open>None\<close>. JSON documents are trees; a \<open>json.RawMessage\<close> is a
  leaf holding its text. The text layer of \<open>encoding/json\<close> is an argument: how a raw message is
  compacted when it is embedded (\<^const>\<open>None\<close> for text that is not JSON), and how a subtree prints.
\<close>

section \<open>Requests and routing\<close>

record request_message =
  rm_ID :: string
  rm_Created :: int
  rm_Deadline :: int
  rm_Payload :: "string option"
  rm_Metadata :: strmap
  rm_Headers :: strmap
  rm_Endpoint :: string
  rm_Model :: string

definition empty_request_message :: request_message where
  "empty_request_message = \<lparr> rm_ID = '''', rm_Created = 0, rm_Deadline = 0, rm_Payload = None,
     rm_Metadata = Map.empty, rm_Headers = Map.empty, rm_Endpoint = '''', rm_Model = '''' \<rparr>"

datatype Request =
    RequestMessage request_message
  | RedisRequest request_message string string
  | PubSubRequest request_message string string
  | OtherRequest request_message

primrec message_of :: "Request \<Rightarrow> request_message" where
  "message_of (RequestMessage m) = m"
| "message_of (RedisRequest m _ _) = m"
| "message_of (PubSubRequest m _ _) = m"
| "message_of (OtherRequest m) = m"

primrec with_message :: "Request \<Rightarrow> request_message \<Rightarrow> Request" where
  "with_message (RequestMessage _) m = RequestMessage m"
| "with_message (RedisRequest _ a b) m = RedisRequest m a b"
| "with_message (PubSubRequest _ a b) m = PubSubRequest m a b"
| "with_message (OtherRequest _) m = OtherRequest m"

lemma message_of_with_message [simp]: "message_of (with_message r m) = m"
  by (cases r) simp_all

lemma with_message_message_of [simp]: "with_message r (message_of r) = r"
  by (cases r) simp_all

lemma with_message_twice [simp]: "with_message (with_message r m) m' = with_message r m'"
  by (cases r) simp_all

definition ReqID :: "Request \<Rightarrow> string" where "ReqID r = rm_ID (message_of r)"
definition ReqCreated :: "Request \<Rightarrow> int" where "ReqCreated r = rm_Created (message_of r)"
definition ReqDeadline :: "Request \<Rightarrow> int" where "ReqDeadline r = rm_Deadline (message_of r)"
definition ReqPayload :: "Request \<Rightarrow> string option" where "ReqPayload r = rm_Payload (message_of r)"
definition ReqMetadata :: "Request \<Rightarrow> strmap" where "ReqMetadata r = rm_Metadata (message_of r)"
definition ReqHeaders :: "Request \<Rightarrow> strmap" where "ReqHeaders r = rm_Headers (message_of r)"
definition ReqEndpoint :: "Request \<Rightarrow> string" where "ReqEndpoint r = rm_Endpoint (message_of r)"
definition ReqModel :: "Request \<Rightarrow> string" where "ReqModel r = rm_Model (message_of r)"

lemmas Req_defs = ReqID_def ReqCreated_def ReqDeadline_def ReqPayload_def ReqMetadata_def
  ReqHeaders_def ReqEndpoint_def ReqModel_def

record internal_routing =
  RetryCount :: int
  QueueID :: string
  RequestToken :: string
  DispatchAttempt :: int
  RequestQueueName :: string
  ResultQueueName :: string
  ResultTTLSeconds :: int
  ResultRoutingResolved :: bool
  TransportCorrelationID :: string
  EnqueueSeq :: int
  PayloadRef :: string
  Labels :: strmap

definition empty_routing :: internal_routing where
  "empty_routing = \<lparr> RetryCount = 0, QueueID = '''', RequestToken = '''', DispatchAttempt = 0,
     RequestQueueName = '''', ResultQueueName = '''', ResultTTLSeconds = 0,
     ResultRoutingResolved = False, TransportCorrelationID = '''', EnqueueSeq = 0,
     PayloadRef = '''', Labels = Map.empty \<rparr>"

type_synonym QuotaClassification = string

abbreviation (input) ClassificationNone :: QuotaClassification where "ClassificationNone \<equiv> ''''"
abbreviation (input) ClassificationReserved :: QuotaClassification where
  "ClassificationReserved \<equiv> ''reserved''"
abbreviation (input) ClassificationOverflow :: QuotaClassification where
  "ClassificationOverflow \<equiv> ''overflow''"

abbreviation (input) LabelClassification :: string where
  "LabelClassification \<equiv> ''classification''"

type_synonym PriorityTier = string

abbreviation (input) TierInteractive :: PriorityTier where "TierInteractive \<equiv> ''interactive''"
abbreviation (input) TierAsync :: PriorityTier where "TierAsync \<equiv> ''async''"
abbreviation (input) TierBatch :: PriorityTier where "TierBatch \<equiv> ''batch''"

definition SetClassification :: "QuotaClassification \<Rightarrow> internal_routing \<Rightarrow> internal_routing" where
  "SetClassification c ir =
     ir \<lparr> Labels := (if c = ClassificationNone then (Labels ir)(LabelClassification := None)
                     else (Labels ir)(LabelClassification \<mapsto> c)) \<rparr>"

definition GetClassification :: "internal_routing \<Rightarrow> QuotaClassification" where
  "GetClassification ir =
     (case Labels ir LabelClassification of None \<Rightarrow> ClassificationNone | Some c \<Rightarrow> c)"

lemma GetClassification_SetClassification [simp]:
  "GetClassification (SetClassification c ir) = c"
  by (simp add: GetClassification_def SetClassification_def)

record internal_request =
  Routing :: internal_routing
  PublicRequest :: "Request option"
  IngestionTime :: "int option"

definition NewInternalRequest :: "internal_routing \<Rightarrow> Request \<Rightarrow> internal_request" where
  "NewInternalRequest routing typedReq =
     \<lparr> Routing = routing, PublicRequest = Some typedReq, IngestionTime = None \<rparr>"

section \<open>Results\<close>

record result_message =
  res_ID :: string
  res_StatusCode :: int
  res_Payload :: string
  res_ErrorCode :: string
  res_ErrorMessage :: string
  res_Routing :: internal_routing
  res_Metadata :: strmap

record internal_result =
  ires_Message :: result_message
  ires_RequestToken :: string

abbreviation (input) ErrCodeDeadlineExceeded :: string where
  "ErrCodeDeadlineExceeded \<equiv> ''DEADLINE_EXCEEDED''"
abbreviation (input) ErrCodeCancelled :: string where "ErrCodeCancelled \<equiv> ''CANCELLED''"
abbreviation (input) ErrCodeGateDropped :: string where "ErrCodeGateDropped \<equiv> ''GATE_DROPPED''"
abbreviation (input) ErrCodeGateError :: string where "ErrCodeGateError \<equiv> ''GATE_ERROR''"
abbreviation (input) ErrCodeInferenceError :: string where "ErrCodeInferenceError \<equiv> ''INFERENCE_ERROR''"
abbreviation (input) ErrCodeInvalidRequest :: string where "ErrCodeInvalidRequest \<equiv> ''INVALID_REQUEST''"
abbreviation (input) ErrCodePayloadUnavailable :: string where
  "ErrCodePayloadUnavailable \<equiv> ''PAYLOAD_UNAVAILABLE''"

definition RequestCancellationKey :: "string \<Rightarrow> string" where
  "RequestCancellationKey requestID = ''request-cancel:'' @ requestID"

definition RequestActiveTokenKey :: "string \<Rightarrow> string" where
  "RequestActiveTokenKey requestID = ''request-active:'' @ requestID"

definition RequestPayloadKey :: "string \<Rightarrow> string \<Rightarrow> string" where
  "RequestPayloadKey requestID requestToken = ''request-payload:'' @ requestID @ '':'' @ requestToken"

text \<open>
  The string literal \<open>encoding/json\<close> writes for a Go string: quotes, backslashes, control
  characters and the HTML-sensitive characters are escaped. Bytes from 128 on are copied, as for
  valid UTF-8 outside U+2028 and U+2029.
\<close>

definition hex_digit :: "nat \<Rightarrow> char" where
  "hex_digit n = (if n < 10 then char_of (48 + n) else char_of (87 + n))"

definition json_escape_char :: "char \<Rightarrow> string" where
  "json_escape_char c = (let n = (of_char c :: nat) in
     if n = 34 \<or> n = 92 then [CHR 0x5C, c]
     else if n = 8 then [CHR 0x5C, CHR ''b'']
     else if n = 12 then [CHR 0x5C, CHR ''f'']
     else if n = 10 then [CHR 0x5C, CHR ''n'']
     else if n = 13 then [CHR 0x5C, CHR ''r'']
     else if n = 9 then [CHR 0x5C, CHR ''t'']
     else if n < 32 \<or> n = 60 \<or> n = 62 \<or> n = 38
       then [CHR 0x5C, CHR ''u'', CHR ''0'', CHR ''0'', hex_digit (n div 16), hex_digit (n mod 16)]
     else [c])"

definition json_quote :: "string \<Rightarrow> string" where
  "json_quote s = [CHR 0x22] @ concat (map json_escape_char s) @ [CHR 0x22]"

definition NewErrorResult :: "Request \<Rightarrow> internal_routing \<Rightarrow> string \<Rightarrow> string \<Rightarrow> result_message" where
  "NewErrorResult req routing errorCode errMsg =
     \<lparr> res_ID = ReqID req, res_StatusCode = 0,
       res_Payload = [CHR 0x7B] @ json_quote ''error'' @ '':'' @ json_quote errMsg @ [CHR 0x7D],
       res_ErrorCode = errorCode, res_ErrorMessage = errMsg,
       res_Routing = routing, res_Metadata = ReqMetadata req \<rparr>"

definition NewHTTPResult :: "Request \<Rightarrow> internal_routing \<Rightarrow> int \<Rightarrow> string \<Rightarrow> result_message" where
  "NewHTTPResult req routing statusCode responseBody =
     \<lparr> res_ID = ReqID req, res_StatusCode = statusCode, res_Payload = responseBody,
       res_ErrorCode = '''', res_ErrorMessage = '''',
       res_Routing = routing, res_Metadata = ReqMetadata req \<rparr>"

definition NewGateDroppedResult :: "Request \<Rightarrow> internal_routing \<Rightarrow> result_message" where
  "NewGateDroppedResult req routing =
     NewErrorResult req routing ErrCodeGateDropped ''Pool gating dropped request''"

definition NewDeadlineExceededResult :: "Request \<Rightarrow> internal_routing \<Rightarrow> result_message" where
  "NewDeadlineExceededResult req routing =
     NewErrorResult req routing ErrCodeDeadlineExceeded ''deadline exceeded''"

definition NewCancelledResult :: "Request \<Rightarrow> internal_routing \<Rightarrow> result_message" where
  "NewCancelledResult req routing = NewErrorResult req routing ErrCodeCancelled ''cancelled''"

text \<open>The contract of \<open>ResultMessage\<close>: an HTTP response, or an error code and message.\<close>

definition result_described :: "result_message \<Rightarrow> bool" where
  "result_described r \<longleftrightarrow>
     0 < res_StatusCode r \<or>
     res_StatusCode r = 0 \<and> res_ErrorCode r \<noteq> '''' \<and> res_ErrorMessage r \<noteq> ''''"

lemma result_described_simps [api_simps]:
  "result_described (NewErrorResult q ro code msg) \<longleftrightarrow> code \<noteq> '''' \<and> msg \<noteq> ''''"
  "result_described (NewHTTPResult q ro st body) \<longleftrightarrow> 0 < st"
  "result_described (NewGateDroppedResult q ro)"
  "result_described (NewDeadlineExceededResult q ro)"
  "result_described (NewCancelledResult q ro)"
  by (simp_all add: result_described_def NewErrorResult_def NewHTTPResult_def
      NewGateDroppedResult_def NewDeadlineExceededResult_def NewCancelledResult_def)

lemma result_identity [api_simps]:
  "res_ID (NewErrorResult q ro code msg) = ReqID q"
  "res_ID (NewHTTPResult q ro st body) = ReqID q"
  "res_ID (NewGateDroppedResult q ro) = ReqID q"
  "res_ID (NewDeadlineExceededResult q ro) = ReqID q"
  "res_ID (NewCancelledResult q ro) = ReqID q"
  "res_Routing (NewErrorResult q ro code msg) = ro"
  "res_Routing (NewHTTPResult q ro st body) = ro"
  "res_Routing (NewGateDroppedResult q ro) = ro"
  "res_Routing (NewDeadlineExceededResult q ro) = ro"
  "res_Routing (NewCancelledResult q ro) = ro"
  by (simp_all add: NewErrorResult_def NewHTTPResult_def
      NewGateDroppedResult_def NewDeadlineExceededResult_def NewCancelledResult_def)

section \<open>Inference errors\<close>

datatype ErrorCategory = ErrCategoryRateLimit | ErrCategoryServer | ErrCategoryInvalidReq
  | ErrCategoryAuth | ErrCategoryParse | ErrCategoryUnknown

definition Fatal :: "ErrorCategory \<Rightarrow> bool" where
  "Fatal c \<longleftrightarrow> c \<noteq> ErrCategoryRateLimit \<and> c \<noteq> ErrCategoryServer"

definition Sheddable :: "ErrorCategory \<Rightarrow> bool" where
  "Sheddable c \<longleftrightarrow> c = ErrCategoryRateLimit"

fun category_string :: "ErrorCategory \<Rightarrow> string" where
  "category_string ErrCategoryRateLimit = ''RATE_LIMIT''"
| "category_string ErrCategoryServer = ''SERVER_ERROR''"
| "category_string ErrCategoryInvalidReq = ''INVALID_REQ''"
| "category_string ErrCategoryAuth = ''AUTH_ERROR''"
| "category_string ErrCategoryParse = ''PARSE_ERROR''"
| "category_string ErrCategoryUnknown = ''UNKNOWN''"

record client_error =
  ce_Category :: ErrorCategory
  ce_Message :: string
  ce_RawError :: "string option"
  ce_RetryAfter :: int
  ce_StatusCode :: int
  ce_DroppedReason :: string

definition ClientError_Error :: "client_error \<Rightarrow> string" where
  "ClientError_Error e =
     (let msg = (if ce_DroppedReason e = '''' then ce_Message e
                 else ce_Message e @ '' (dropped: '' @ ce_DroppedReason e @ '')'')
      in case ce_RawError e of
           Some raw \<Rightarrow> category_string (ce_Category e) @ '': '' @ msg @ '' (caused by: '' @ raw @ '')''
         | None \<Rightarrow> category_string (ce_Category e) @ '': '' @ msg)"

record inference_response =
  StatusCode :: int
  Body :: string

section \<open>The sorted-set score\<close>

abbreviation queueScoreFractionBits :: nat where "queueScoreFractionBits \<equiv> 21"

definition maxQueueScoreSeq :: int where
  "maxQueueScoreSeq = 2 ^ queueScoreFractionBits - 1"

definition clampSeq :: "int \<Rightarrow> int" where
  "clampSeq seq = min (max seq 0) maxQueueScoreSeq"

definition queueScore :: "int \<Rightarrow> int \<Rightarrow> real" where
  "queueScore deadline seq =
     real_of_int deadline + real_of_int (min (max seq 0) maxQueueScoreSeq) / 2 ^ queueScoreFractionBits"

definition QueueScore :: "internal_request \<Rightarrow> real" where
  "QueueScore ir = (case PublicRequest ir of None \<Rightarrow> 0
     | Some r \<Rightarrow> queueScore (ReqDeadline r) (EnqueueSeq (Routing ir)))"

definition score_units :: "int \<Rightarrow> int \<Rightarrow> int" where
  "score_units deadline seq = deadline * 2 ^ 21 + clampSeq seq"

lemma clampSeq_range: "0 \<le> clampSeq s" "clampSeq s < 2 ^ 21"
  by (auto simp: clampSeq_def maxQueueScoreSeq_def)

lemma clampSeq_id [simp]: "0 \<le> s \<Longrightarrow> s < 2 ^ 21 \<Longrightarrow> clampSeq s = s"
  by (simp add: clampSeq_def maxQueueScoreSeq_def)

lemma queueScore_units: "queueScore d s = real_of_int (score_units d s) / 2 ^ 21"
  by (simp add: queueScore_def score_units_def clampSeq_def [symmetric] add_divide_distrib)

lemma score_units_less_iff:
  "score_units d s < score_units d' s' \<longleftrightarrow> d < d' \<or> d = d' \<and> clampSeq s < clampSeq s'"
  using clampSeq_range [of s] clampSeq_range [of s'] unfolding score_units_def by auto

lemma queueScore_less_iff:
  "queueScore d s < queueScore d' s' \<longleftrightarrow> d < d' \<or> d = d' \<and> clampSeq s < clampSeq s'"
  by (simp add: queueScore_units divide_strict_right_mono_neg score_units_less_iff
      divide_less_cancel)

lemma queueScore_eq_iff:
  "queueScore d s = queueScore d' s' \<longleftrightarrow> d = d' \<and> clampSeq s = clampSeq s'"
proof
  assume "queueScore d s = queueScore d' s'"
  then have "\<not> queueScore d s < queueScore d' s'" "\<not> queueScore d' s' < queueScore d s" by simp_all
  then show "d = d' \<and> clampSeq s = clampSeq s'" unfolding queueScore_less_iff by auto
next
  assume "d = d' \<and> clampSeq s = clampSeq s'"
  then show "queueScore d s = queueScore d' s'" by (simp add: queueScore_units score_units_def)
qed

lemma queueScore_floor: "\<lfloor>queueScore d s\<rfloor> = d"
proof -
  have "0 \<le> real_of_int (clampSeq s) / 2 ^ 21" "real_of_int (clampSeq s) / 2 ^ 21 < 1"
    using clampSeq_range [of s] by simp_all
  then show ?thesis
    by (simp add: queueScore_def clampSeq_def [symmetric] floor_eq_iff)
qed

section \<open>The JSON envelope\<close>

datatype json = JNull | JBool bool | JInt int | JStr string | JRaw string | JMap strmap
  | JObj "(string \<times> json) list"

record jsonlib =
  json_compact :: "string \<Rightarrow> string option"
  json_text :: "json \<Rightarrow> string"

datatype wire_error = NilPublicRequest | UnsupportedType | JsonError | MissingRequestKind
  | EmptyData | UnknownKind string | NilRequest

definition omit_str :: "string \<Rightarrow> string \<Rightarrow> (string \<times> json) list" where
  "omit_str k v = (if v = '''' then [] else [(k, JStr v)])"

definition omit_int :: "string \<Rightarrow> int \<Rightarrow> (string \<times> json) list" where
  "omit_int k v = (if v = 0 then [] else [(k, JInt v)])"

definition omit_bool :: "string \<Rightarrow> bool \<Rightarrow> (string \<times> json) list" where
  "omit_bool k v = (if v then [(k, JBool v)] else [])"

definition omit_map :: "string \<Rightarrow> strmap \<Rightarrow> (string \<times> json) list" where
  "omit_map k v = (if v = Map.empty then [] else [(k, JMap v)])"

definition marshal_routing :: "internal_routing \<Rightarrow> json" where
  "marshal_routing r = JObj
     (omit_int ''retry_count'' (RetryCount r) @ omit_str ''queue_id'' (QueueID r) @
      omit_str ''request_token'' (RequestToken r) @ omit_int ''dispatch_attempt'' (DispatchAttempt r) @
      omit_str ''request_queue_name'' (RequestQueueName r) @
      omit_str ''result_queue_name'' (ResultQueueName r) @
      omit_int ''result_ttl_seconds'' (ResultTTLSeconds r) @
      omit_bool ''result_routing_resolved'' (ResultRoutingResolved r) @
      omit_str ''transport_correlation_id'' (TransportCorrelationID r) @
      omit_int ''enqueue_seq'' (EnqueueSeq r) @ omit_str ''payload_ref'' (PayloadRef r) @
      omit_map ''labels'' (Labels r))"

text \<open>A nil raw message is written as null, other text is compacted, or refused if it is not JSON.\<close>

definition marshal_raw :: "jsonlib \<Rightarrow> string option \<Rightarrow> json option" where
  "marshal_raw J p = (case p of None \<Rightarrow> Some JNull | Some t \<Rightarrow> map_option JRaw (json_compact J t))"

definition marshal_message :: "jsonlib \<Rightarrow> request_message \<Rightarrow> (string \<times> json) list option" where
  "marshal_message J m = do {
     p \<leftarrow> marshal_raw J (rm_Payload m);
     Some ([(''id'', JStr (rm_ID m)), (''created'', JInt (rm_Created m)),
            (''deadline'', JInt (rm_Deadline m)), (''payload'', p)] @
           omit_map ''metadata'' (rm_Metadata m) @ omit_map ''headers'' (rm_Headers m) @
           omit_str ''endpoint'' (rm_Endpoint m) @ omit_str ''model'' (rm_Model m)) }"

fun marshal_data :: "jsonlib \<Rightarrow> Request \<Rightarrow> wire_error + string \<times> json" where
  "marshal_data J (RequestMessage m) = (case marshal_message J m of None \<Rightarrow> Inl JsonError
     | Some fs \<Rightarrow> Inr (''plain'', JObj fs))"
| "marshal_data J (RedisRequest m q r) = (case marshal_message J m of None \<Rightarrow> Inl JsonError
     | Some fs \<Rightarrow> Inr (''redis'', JObj (fs @ omit_str ''request_queue_name'' q @
                                          omit_str ''result_queue_name'' r)))"
| "marshal_data J (PubSubRequest m i r) = (case marshal_message J m of None \<Rightarrow> Inl JsonError
     | Some fs \<Rightarrow> Inr (''pubsub'', JObj (fs @ omit_str ''pubsub_id'' i @
                                           omit_str ''result_queue_name'' r)))"
| "marshal_data J (OtherRequest m) = Inl UnsupportedType"

definition MarshalJSON :: "jsonlib \<Rightarrow> internal_request \<Rightarrow> wire_error + json" where
  "MarshalJSON J r =
     (case PublicRequest r of
        None \<Rightarrow> Inl NilPublicRequest
      | Some q \<Rightarrow> bindE (marshal_data J q) (\<lambda>(kind, data).
          Inr (JObj [(''internal'', marshal_routing (Routing r)), (''request_kind'', JStr kind),
                     (''data'', data)])))"

text \<open>
  Decoding into a zero struct: an absent or null field keeps the zero value, a field of another
  type is an error. A raw message takes the text of whatever the field holds, null included.
\<close>

definition get_str :: "(string \<times> json) list \<Rightarrow> string \<Rightarrow> string option" where
  "get_str fs k = (case map_of fs k of None \<Rightarrow> Some '''' | Some JNull \<Rightarrow> Some ''''
     | Some (JStr s) \<Rightarrow> Some s | _ \<Rightarrow> None)"

definition get_int :: "(string \<times> json) list \<Rightarrow> string \<Rightarrow> int option" where
  "get_int fs k = (case map_of fs k of None \<Rightarrow> Some 0 | Some JNull \<Rightarrow> Some 0
     | Some (JInt n) \<Rightarrow> Some n | _ \<Rightarrow> None)"

definition get_bool :: "(string \<times> json) list \<Rightarrow> string \<Rightarrow> bool option" where
  "get_bool fs k = (case map_of fs k of None \<Rightarrow> Some False | Some JNull \<Rightarrow> Some False
     | Some (JBool b) \<Rightarrow> Some b | _ \<Rightarrow> None)"

definition get_map :: "(string \<times> json) list \<Rightarrow> string \<Rightarrow> strmap option" where
  "get_map fs k = (case map_of fs k of None \<Rightarrow> Some Map.empty | Some JNull \<Rightarrow> Some Map.empty
     | Some (JMap m) \<Rightarrow> Some m | _ \<Rightarrow> None)"

definition get_raw :: "jsonlib \<Rightarrow> (string \<times> json) list \<Rightarrow> string \<Rightarrow> string option" where
  "get_raw J fs k = (case map_of fs k of None \<Rightarrow> None | Some JNull \<Rightarrow> Some ''null''
     | Some (JRaw t) \<Rightarrow> Some t | Some v \<Rightarrow> Some (json_text J v))"

fun fields_of :: "json \<Rightarrow> (string \<times> json) list option" where
  "fields_of (JObj fs) = Some fs"
| "fields_of JNull = Some []"
| "fields_of _ = None"

definition unmarshal_routing :: "json \<Rightarrow> internal_routing option" where
  "unmarshal_routing v = do {
     fs \<leftarrow> fields_of v;
     retry \<leftarrow> get_int fs ''retry_count'';
     qid \<leftarrow> get_str fs ''queue_id'';
     tok \<leftarrow> get_str fs ''request_token'';
     att \<leftarrow> get_int fs ''dispatch_attempt'';
     reqq \<leftarrow> get_str fs ''request_queue_name'';
     resq \<leftarrow> get_str fs ''result_queue_name'';
     ttl \<leftarrow> get_int fs ''result_ttl_seconds'';
     resolved \<leftarrow> get_bool fs ''result_routing_resolved'';
     cid \<leftarrow> get_str fs ''transport_correlation_id'';
     enq \<leftarrow> get_int fs ''enqueue_seq'';
     pref \<leftarrow> get_str fs ''payload_ref'';
     lbl \<leftarrow> get_map fs ''labels'';
     Some \<lparr> RetryCount = retry, QueueID = qid, RequestToken = tok, DispatchAttempt = att,
            RequestQueueName = reqq, ResultQueueName = resq, ResultTTLSeconds = ttl,
            ResultRoutingResolved = resolved, TransportCorrelationID = cid, EnqueueSeq = enq,
            PayloadRef = pref, Labels = lbl \<rparr> }"

definition unmarshal_message :: "jsonlib \<Rightarrow> (string \<times> json) list \<Rightarrow> request_message option" where
  "unmarshal_message J fs = do {
     i \<leftarrow> get_str fs ''id'';
     cr \<leftarrow> get_int fs ''created'';
     dl \<leftarrow> get_int fs ''deadline'';
     md \<leftarrow> get_map fs ''metadata'';
     hd \<leftarrow> get_map fs ''headers'';
     ep \<leftarrow> get_str fs ''endpoint'';
     mo \<leftarrow> get_str fs ''model'';
     Some \<lparr> rm_ID = i, rm_Created = cr, rm_Deadline = dl, rm_Payload = get_raw J fs ''payload'',
            rm_Metadata = md, rm_Headers = hd, rm_Endpoint = ep, rm_Model = mo \<rparr> }"

definition unmarshal_data :: "jsonlib \<Rightarrow> string \<Rightarrow> json \<Rightarrow> wire_error + Request" where
  "unmarshal_data J kind v =
     (if kind = ''plain'' then
        (case do { fs \<leftarrow> fields_of v; m \<leftarrow> unmarshal_message J fs; Some (RequestMessage m) } of
           None \<Rightarrow> Inl JsonError | Some r \<Rightarrow> Inr r)
      else if kind = ''redis'' then
        (case do { fs \<leftarrow> fields_of v; m \<leftarrow> unmarshal_message J fs;
                   q \<leftarrow> get_str fs ''request_queue_name''; r \<leftarrow> get_str fs ''result_queue_name'';
                   Some (RedisRequest m q r) } of None \<Rightarrow> Inl JsonError | Some r \<Rightarrow> Inr r)
      else if kind = ''pubsub'' then
        (case do { fs \<leftarrow> fields_of v; m \<leftarrow> unmarshal_message J fs;
                   i \<leftarrow> get_str fs ''pubsub_id''; r \<leftarrow> get_str fs ''result_queue_name'';
                   Some (PubSubRequest m i r) } of None \<Rightarrow> Inl JsonError | Some r \<Rightarrow> Inr r)
      else Inl (UnknownKind kind))"

text \<open>The receiver is a zero \<open>InternalRequest\<close>, as at every call of the source.\<close>

definition UnmarshalJSON :: "jsonlib \<Rightarrow> json \<Rightarrow> wire_error + internal_request" where
  "UnmarshalJSON J b =
     (if b = JNull then Inr \<lparr> Routing = empty_routing, PublicRequest = None, IngestionTime = None \<rparr>
      else case do { fs \<leftarrow> fields_of b;
                     rt \<leftarrow> (case map_of fs ''internal'' of None \<Rightarrow> Some empty_routing
                            | Some v \<Rightarrow> unmarshal_routing v);
                     kind \<leftarrow> get_str fs ''request_kind'';
                     Some (fs, rt, kind) } of
        None \<Rightarrow> Inl JsonError
      | Some (fs, rt, kind) \<Rightarrow>
          if kind = '''' then Inl MissingRequestKind
          else case map_of fs ''data'' of
            None \<Rightarrow> Inl EmptyData
          | Some v \<Rightarrow> bindE (unmarshal_data J kind v) (\<lambda>r.
              Inr \<lparr> Routing = rt, PublicRequest = Some r, IngestionTime = None \<rparr>))"

section \<open>Payload by reference\<close>

fun requestMessageOf :: "Request option \<Rightarrow> wire_error + request_message" where
  "requestMessageOf None = Inl NilPublicRequest"
| "requestMessageOf (Some (OtherRequest _)) = Inl UnsupportedType"
| "requestMessageOf (Some r) = Inr (message_of r)"

definition set_payload :: "string option \<Rightarrow> internal_request \<Rightarrow> internal_request" where
  "set_payload p ir = ir \<lparr> PublicRequest :=
     map_option (\<lambda>r. with_message r (message_of r \<lparr> rm_Payload := p \<rparr>)) (PublicRequest ir) \<rparr>"

text \<open>
  The source clears the payload through the pointer, marshals, and puts it back: the request is
  unchanged on return, so only the envelope and the payload are results.
\<close>

definition SplitPayload :: "jsonlib \<Rightarrow> internal_request option \<Rightarrow> wire_error + json \<times> string option" where
  "SplitPayload J oir = (case oir of None \<Rightarrow> Inl NilRequest
     | Some ir \<Rightarrow> bindE (requestMessageOf (PublicRequest ir)) (\<lambda>msg.
         bindE (MarshalJSON J (set_payload None ir)) (\<lambda>envelope.
           Inr (envelope, rm_Payload msg))))"

definition AttachPayload :: "internal_request option \<Rightarrow> string option \<Rightarrow> wire_error + internal_request" where
  "AttachPayload oir p = (case oir of None \<Rightarrow> Inl NilRequest
     | Some ir \<Rightarrow> bindE (requestMessageOf (PublicRequest ir)) (\<lambda>_. Inr (set_payload p ir)))"

text \<open>The text layer used by the concrete instances: raw messages are embedded as they are.\<close>

definition plain_json :: jsonlib where
  "plain_json = \<lparr> json_compact = Some, json_text = (\<lambda>_. ''null'') \<rparr>"

section \<open>Round trips\<close>

lemma map_of_omit [simp]:
  "map_of (omit_str k v) j = (if j = k \<and> v \<noteq> '''' then Some (JStr v) else None)"
  "map_of (omit_int k i) j = (if j = k \<and> i \<noteq> 0 then Some (JInt i) else None)"
  "map_of (omit_bool k b) j = (if j = k \<and> b then Some (JBool b) else None)"
  "map_of (omit_map k m) j = (if j = k \<and> m \<noteq> Map.empty then Some (JMap m) else None)"
  by (simp_all add: omit_str_def omit_int_def omit_bool_def omit_map_def)

lemmas get_defs = get_str_def get_int_def get_bool_def get_map_def get_raw_def

lemma get_skip [simp]:
  "j \<noteq> k \<Longrightarrow> get_str (omit_str k v @ fs) j = get_str fs j"
  "j \<noteq> k \<Longrightarrow> get_str (omit_int k i @ fs) j = get_str fs j"
  "j \<noteq> k \<Longrightarrow> get_str (omit_bool k b @ fs) j = get_str fs j"
  "j \<noteq> k \<Longrightarrow> get_str (omit_map k m @ fs) j = get_str fs j"
  "j \<noteq> k \<Longrightarrow> get_int (omit_str k v @ fs) j = get_int fs j"
  "j \<noteq> k \<Longrightarrow> get_int (omit_int k i @ fs) j = get_int fs j"
  "j \<noteq> k \<Longrightarrow> get_int (omit_bool k b @ fs) j = get_int fs j"
  "j \<noteq> k \<Longrightarrow> get_int (omit_map k m @ fs) j = get_int fs j"
  "j \<noteq> k \<Longrightarrow> get_bool (omit_str k v @ fs) j = get_bool fs j"
  "j \<noteq> k \<Longrightarrow> get_bool (omit_int k i @ fs) j = get_bool fs j"
  "j \<noteq> k \<Longrightarrow> get_bool (omit_bool k b @ fs) j = get_bool fs j"
  "j \<noteq> k \<Longrightarrow> get_bool (omit_map k m @ fs) j = get_bool fs j"
  "j \<noteq> k \<Longrightarrow> get_map (omit_str k v @ fs) j = get_map fs j"
  "j \<noteq> k \<Longrightarrow> get_map (omit_int k i @ fs) j = get_map fs j"
  "j \<noteq> k \<Longrightarrow> get_map (omit_bool k b @ fs) j = get_map fs j"
  "j \<noteq> k \<Longrightarrow> get_map (omit_map k m @ fs) j = get_map fs j"
  by (simp_all add: omit_str_def omit_int_def omit_bool_def omit_map_def get_defs)

lemma get_hit [simp]:
  "get_str fs k = Some '''' \<Longrightarrow> get_str (omit_str k v @ fs) k = Some v"
  "get_int fs k = Some 0 \<Longrightarrow> get_int (omit_int k i @ fs) k = Some i"
  "get_bool fs k = Some False \<Longrightarrow> get_bool (omit_bool k b @ fs) k = Some b"
  "get_map fs k = Some Map.empty \<Longrightarrow> get_map (omit_map k m @ fs) k = Some m"
  by (simp_all add: omit_str_def omit_int_def omit_bool_def omit_map_def get_defs)

lemma get_nil [simp]:
  "get_str [] k = Some ''''" "get_int [] k = Some 0" "get_bool [] k = Some False"
  "get_map [] k = Some Map.empty"
  by (simp_all add: get_defs)

lemma get_Cons_hit [simp]:
  "get_str ((k, JStr s) # fs) k = Some s"
  "get_int ((k, JInt i) # fs) k = Some i"
  by (simp_all add: get_defs)

lemma get_Cons_skip [simp]:
  "j \<noteq> k \<Longrightarrow> get_str ((k, v) # fs) j = get_str fs j"
  "j \<noteq> k \<Longrightarrow> get_int ((k, v) # fs) j = get_int fs j"
  "j \<noteq> k \<Longrightarrow> get_map ((k, v) # fs) j = get_map fs j"
  "j \<noteq> k \<Longrightarrow> get_raw J ((k, v) # fs) j = get_raw J fs j"
  by (simp_all add: get_defs)

lemma unmarshal_marshal_routing [simp]: "unmarshal_routing (marshal_routing r) = Some r"
proof -
  have nil: "omit_map ''labels'' (Labels r) = omit_map ''labels'' (Labels r) @ []" by simp
  show ?thesis
    unfolding unmarshal_routing_def marshal_routing_def by (subst nil) (simp del: append_Nil2)
qed

text \<open>What the envelope keeps of a payload: compacted text, and the text null for a nil payload.\<close>

definition wire_payload :: "jsonlib \<Rightarrow> string option \<Rightarrow> string option" where
  "wire_payload J p = (case p of None \<Rightarrow> Some ''null'' | Some t \<Rightarrow> json_compact J t)"


lemma marshal_message_Some:
  assumes "marshal_message J m = Some fs"
  obtains p where "marshal_raw J (rm_Payload m) = Some p"
    "fs = (''id'', JStr (rm_ID m)) # (''created'', JInt (rm_Created m)) #
          (''deadline'', JInt (rm_Deadline m)) # (''payload'', p) #
          omit_map ''metadata'' (rm_Metadata m) @ omit_map ''headers'' (rm_Headers m) @
          omit_str ''endpoint'' (rm_Endpoint m) @ omit_str ''model'' (rm_Model m)"
  using assms by (auto simp: marshal_message_def bind_eq_Some_conv)

lemma get_raw_marshal_raw:
  "marshal_raw J q = Some p \<Longrightarrow> get_raw J ((k, p) # fs) k = wire_payload J q"
  by (auto simp: marshal_raw_def wire_payload_def get_raw_def split: option.splits)

lemma unmarshal_marshal_message:
  assumes "marshal_message J m = Some fs"
    and "get_map gs ''metadata'' = Some Map.empty" "get_map gs ''headers'' = Some Map.empty"
    and "get_str gs ''endpoint'' = Some ''''" "get_str gs ''model'' = Some ''''"
  shows "unmarshal_message J (fs @ gs) = Some (m \<lparr> rm_Payload := wire_payload J (rm_Payload m) \<rparr>)"
  using assms(2-)
  by (rule_tac marshal_message_Some [OF assms(1)])
    (simp add: unmarshal_message_def get_raw_marshal_raw)

lemma get_str_after_message:
  assumes "marshal_message J m = Some fs"
    and "k \<notin> {''id'', ''created'', ''deadline'', ''payload'', ''metadata'', ''headers'', ''endpoint'', ''model''}"
  shows "get_str (fs @ gs) k = get_str gs k"
  using assms(2) by (rule_tac marshal_message_Some [OF assms(1)]) simp

lemma unmarshal_marshal_data:
  assumes "marshal_data J r = Inr (kind, v)"
  shows "unmarshal_data J kind v = Inr (with_message r
           (message_of r \<lparr> rm_Payload := wire_payload J (ReqPayload r) \<rparr>))
         \<and> kind \<noteq> ''''"
proof (cases r)
  case (RequestMessage m)
  with assms obtain fs where fs: "marshal_message J m = Some fs" "v = JObj fs" "kind = ''plain''"
    by (auto split: option.splits)
  then show ?thesis
    using unmarshal_marshal_message [OF fs(1), of "[]"] RequestMessage
    by (simp add: unmarshal_data_def ReqPayload_def)
next
  case (RedisRequest m q a)
  let ?g = "omit_str ''request_queue_name'' q @ omit_str ''result_queue_name'' a @ []"
  from RedisRequest assms obtain fs where fs: "marshal_message J m = Some fs" "kind = ''redis''"
    "v = JObj (fs @ ?g)" by (auto split: option.splits)
  then show ?thesis
    using unmarshal_marshal_message [OF fs(1), of ?g] get_str_after_message [OF fs(1), of _ ?g]
      RedisRequest
    by (simp add: unmarshal_data_def ReqPayload_def del: append_Nil2)
next
  case (PubSubRequest m i a)
  let ?g = "omit_str ''pubsub_id'' i @ omit_str ''result_queue_name'' a @ []"
  from PubSubRequest assms obtain fs where fs: "marshal_message J m = Some fs" "kind = ''pubsub''"
    "v = JObj (fs @ ?g)" by (auto split: option.splits)
  then show ?thesis
    using unmarshal_marshal_message [OF fs(1), of ?g] get_str_after_message [OF fs(1), of _ ?g]
      PubSubRequest
    by (simp add: unmarshal_data_def ReqPayload_def del: append_Nil2)
next
  case (OtherRequest m)
  with assms show ?thesis by simp
qed

lemma unmarshal_marshal:
  assumes "MarshalJSON J ir = Inr b" and "PublicRequest ir = Some r"
  shows "UnmarshalJSON J b =
           Inr (set_payload (wire_payload J (ReqPayload r)) (ir \<lparr> IngestionTime := None \<rparr>))"
proof -
  obtain kind v where kv: "marshal_data J r = Inr (kind, v)"
    and b: "b = JObj [(''internal'', marshal_routing (Routing ir)), (''request_kind'', JStr kind),
                      (''data'', v)]"
    using assms by (auto simp: MarshalJSON_def)
  show ?thesis
    using unmarshal_marshal_data [OF kv] b assms(2)
    by (cases ir) (simp add: UnmarshalJSON_def set_payload_def)
qed

lemma marshal_needs_message:
  "MarshalJSON J ir = Inr b \<Longrightarrow> \<exists>m. requestMessageOf (PublicRequest ir) = Inr m"
  by (cases "PublicRequest ir"; cases "the (PublicRequest ir)") (auto simp: MarshalJSON_def)

lemma set_payload_twice [simp]: "set_payload p (set_payload q ir) = set_payload p ir"
  by (simp add: set_payload_def option.map_comp o_def)

lemma set_payload_ingestion [simp]:
  "(set_payload p ir) \<lparr> IngestionTime := t \<rparr> = set_payload p (ir \<lparr> IngestionTime := t \<rparr>)"
  by (simp add: set_payload_def)

lemma set_payload_same:
  "PublicRequest ir = Some r \<Longrightarrow> ReqPayload r = p \<Longrightarrow> set_payload p ir = ir"
  by (cases ir) (auto simp: set_payload_def ReqPayload_def)

section \<open>Properties\<close>

text \<open>
  C22: The sorted-set score of a request orders the queue first by deadline and then by the
  producer's sequence number clamped to \<open>[0, 2^21-1]\<close>, two scores agree only when both agree, and for
  deadlines in \<open>[0, 2^32)\<close> the score is a multiple of \<open>2^-21\<close> with a numerator below \<open>2^53\<close>, hence
  exactly a double.
\<close>

theorem QueueScore_lexicographic_and_exact:
  assumes "PublicRequest a = Some r" "PublicRequest b = Some r'"
    and "0 \<le> ReqDeadline r" "ReqDeadline r < 2 ^ 32"
  shows "(QueueScore a < QueueScore b \<longleftrightarrow>
            ReqDeadline r < ReqDeadline r' \<or>
            ReqDeadline r = ReqDeadline r' \<and>
              clampSeq (EnqueueSeq (Routing a)) < clampSeq (EnqueueSeq (Routing b)))
       \<and> (QueueScore a = QueueScore b \<longleftrightarrow>
            ReqDeadline r = ReqDeadline r' \<and>
              clampSeq (EnqueueSeq (Routing a)) = clampSeq (EnqueueSeq (Routing b)))
       \<and> (\<exists>n::int. 0 \<le> n \<and> n < 2 ^ 53 \<and> QueueScore a = real_of_int n / 2 ^ 21)"
proof -
  have "0 \<le> score_units (ReqDeadline r) s \<and> score_units (ReqDeadline r) s < 2 ^ 53" for s
    using assms(3,4) clampSeq_range [of s] unfolding score_units_def by simp
  then have "\<exists>n::int. 0 \<le> n \<and> n < 2 ^ 53 \<and> queueScore (ReqDeadline r) s = real_of_int n / 2 ^ 21" for s
    unfolding queueScore_units by blast
  then show ?thesis
    using assms(1,2) by (simp add: QueueScore_def queueScore_less_iff queueScore_eq_iff)
qed

theorem QueueScore_lexicographic_and_exact_witness:
  "QueueScore (NewInternalRequest (empty_routing \<lparr> EnqueueSeq := 7 \<rparr>)
      (RequestMessage (empty_request_message \<lparr> rm_Deadline := 100 \<rparr>)))
   < QueueScore (NewInternalRequest (empty_routing \<lparr> EnqueueSeq := 8 \<rparr>)
      (RequestMessage (empty_request_message \<lparr> rm_Deadline := 100 \<rparr>)))"
  using QueueScore_lexicographic_and_exact
    [of "NewInternalRequest (empty_routing \<lparr> EnqueueSeq := 7 \<rparr>)
           (RequestMessage (empty_request_message \<lparr> rm_Deadline := 100 \<rparr>))"
        "RequestMessage (empty_request_message \<lparr> rm_Deadline := 100 \<rparr>)"
        "NewInternalRequest (empty_routing \<lparr> EnqueueSeq := 8 \<rparr>)
           (RequestMessage (empty_request_message \<lparr> rm_Deadline := 100 \<rparr>))"
        "RequestMessage (empty_request_message \<lparr> rm_Deadline := 100 \<rparr>)"]
  by (simp add: NewInternalRequest_def ReqDeadline_def empty_routing_def empty_request_message_def)




end
