(* ===== verification/Gate.thy ===== *)
theory Gate
  imports Api
begin

text \<open>
  The admission-gate interface of \<open>src/pipeline/gate.go\<close> and the gates that combine other gates:
  \<open>ApplyChain\<close>, the composite gate, the wait-on-refuse gate and the tier-priority admission gate of
  \<open>src/pkg/async/inference/flowcontrol\<close>.

  A gate acts on a world \<open>'s\<close>. Its \<open>Apply\<close> returns the verdict, the error, the request (whose labels
  a gate may write), the list of release closures (\<^const>\<open>None\<close> for a nil pointer) and the new world;
  \<^const>\<open>None\<close> instead of a reply means the call is parked on a channel in this world. The contract
  every gate keeps is the locale \<open>gate_contract\<close>, over an observation of what the gate reserves.
\<close>

section \<open>Verdicts and releases\<close>

datatype VerdictAction = ActionContinue | ActionDrop | ActionRefuse | ActionWait

record verdict =
  Action :: VerdictAction
  Result :: "result_message option"
  Reason :: string

definition WithReason :: "verdict \<Rightarrow> string \<Rightarrow> verdict" where
  "WithReason v reason = v \<lparr> Reason := reason \<rparr>"

definition Continue :: verdict where
  "Continue = \<lparr> Action = ActionContinue, Result = None, Reason = '''' \<rparr>"

definition Drop :: "result_message \<Rightarrow> verdict" where
  "Drop result = \<lparr> Action = ActionDrop, Result = Some result, Reason = '''' \<rparr>"

definition Refuse :: verdict where
  "Refuse = \<lparr> Action = ActionRefuse, Result = None, Reason = '''' \<rparr>"

definition Wait :: verdict where
  "Wait = \<lparr> Action = ActionWait, Result = None, Reason = '''' \<rparr>"

lemma verdict_simps [simp]:
  "Action Continue = ActionContinue" "Action (Drop r) = ActionDrop" "Action Refuse = ActionRefuse"
  "Action Wait = ActionWait" "Action (WithReason v x) = Action v"
  "Result Continue = None" "Result (Drop r) = Some r" "Result Refuse = None" "Result Wait = None"
  "Reason Continue = ''''" "Reason Refuse = ''''" "Reason Wait = ''''" "Reason (Drop r) = ''''"
  "Result (WithReason v x) = Result v" "Reason (WithReason v x) = x"
  by (simp_all add: Continue_def Drop_def Refuse_def Wait_def WithReason_def)

text \<open>The zero verdict, returned beside an error, is a Continue.\<close>

abbreviation zero_verdict :: verdict where "zero_verdict \<equiv> Continue"

type_synonym 's release = "('s \<Rightarrow> 's) option"

definition run_release :: "'s release \<Rightarrow> 's \<Rightarrow> 's" where
  "run_release r s = (case r of None \<Rightarrow> s | Some f \<Rightarrow> f s)"

definition ReleaseGateReleases :: "'s release list \<Rightarrow> 's \<Rightarrow> 's" where
  "ReleaseGateReleases releases s = fold run_release (rev releases) s"

lemma ReleaseGateReleases_Nil [simp]: "ReleaseGateReleases [] s = s"
  by (simp add: ReleaseGateReleases_def)

lemma ReleaseGateReleases_append:
  "ReleaseGateReleases (xs @ ys) s = ReleaseGateReleases xs (ReleaseGateReleases ys s)"
  by (simp add: ReleaseGateReleases_def)

lemma ReleaseGateReleases_single [simp]: "ReleaseGateReleases [Some f] s = f s"
  by (simp add: ReleaseGateReleases_def run_release_def)

section \<open>The interface\<close>

text \<open>
  The context of a call: whether it is done, which ready case a \<open>select\<close> takes when the context is
  done too, and whether a call to a remote store fails before it executes.
\<close>

record gctx =
  ctx_done :: bool
  ctx_pick_done :: bool
  ctx_fail :: bool

definition background :: gctx where
  "background = \<lparr> ctx_done = False, ctx_pick_done = False, ctx_fail = False \<rparr>"

datatype gate_error = ContextCanceled | DeadlineExceeded | UnknownQuotaMode string | StoreError string
  | Wrapped string gate_error

record 's gate_reply =
  gr_verdict :: verdict
  gr_err :: "gate_error option"
  gr_msg :: internal_request
  gr_releases :: "'s release list option"
  gr_state :: 's

record 's Gate =
  Budget :: "gctx \<Rightarrow> 's \<Rightarrow> float64 \<times> 's"
  Apply :: "gctx \<Rightarrow> internal_request \<Rightarrow> 's release list option \<Rightarrow> 's \<Rightarrow> 's gate_reply option"

definition reply :: "verdict \<Rightarrow> gate_error option \<Rightarrow> internal_request \<Rightarrow> 's release list option \<Rightarrow> 's
    \<Rightarrow> 's gate_reply option" where
  "reply v e m rel s =
     Some \<lparr> gr_verdict = v, gr_err = e, gr_msg = m, gr_releases = rel, gr_state = s \<rparr>"

definition passed :: "'s gate_reply \<Rightarrow> bool" where
  "passed r \<longleftrightarrow> gr_err r = None \<and> Action (gr_verdict r) = ActionContinue"

definition DispatchGateFunc :: "(gctx \<Rightarrow> 's \<Rightarrow> float64 \<times> 's) \<Rightarrow> 's Gate" where
  "DispatchGateFunc f =
     \<lparr> Budget = f,
       Apply = (\<lambda>ctx msg releases s. let (b, s') = f ctx s in
         if f_le b (Fin 0) then reply Refuse None msg releases s'
         else reply Continue None msg releases s') \<rparr>"

definition ConstOpenGate :: "'s Gate" where
  "ConstOpenGate = DispatchGateFunc (\<lambda>ctx s. (Fin 1, s))"

section \<open>Chains of gates\<close>

definition rollback :: "nat \<Rightarrow> 's gate_reply \<Rightarrow> 's gate_reply" where
  "rollback snapshot r = (case gr_releases r of None \<Rightarrow> r
     | Some rels \<Rightarrow> r \<lparr> gr_releases := Some (take snapshot rels),
                         gr_state := ReleaseGateReleases (drop snapshot rels) (gr_state r) \<rparr>)"

fun applyGates :: "gctx \<Rightarrow> nat \<Rightarrow> 's Gate list \<Rightarrow> internal_request \<Rightarrow> 's release list option \<Rightarrow> 's
    \<Rightarrow> 's gate_reply option" where
  "applyGates ctx snapshot [] msg releases s = reply Continue None msg releases s"
| "applyGates ctx snapshot (gate # gates) msg releases s =
     (case Apply gate ctx msg releases s of
        None \<Rightarrow> None
      | Some r \<Rightarrow> if gr_err r \<noteq> None \<or> Action (gr_verdict r) \<noteq> ActionContinue
                  then Some (rollback snapshot r)
                  else applyGates ctx snapshot gates (gr_msg r) (gr_releases r) (gr_state r))"

definition ApplyChain :: "gctx \<Rightarrow> internal_request \<Rightarrow> 's Gate list \<Rightarrow> 's release list option \<Rightarrow> 's
    \<Rightarrow> 's gate_reply option" where
  "ApplyChain ctx msg gates releases s =
     applyGates ctx (case releases of None \<Rightarrow> 0 | Some rels \<Rightarrow> length rels) gates msg releases s"

fun minBudget :: "gctx \<Rightarrow> 's Gate list \<Rightarrow> float64 \<Rightarrow> 's \<Rightarrow> float64 \<times> 's" where
  "minBudget ctx [] m s = (m, s)"
| "minBudget ctx (gate # gates) m s =
     (let (budget, s') = Budget gate ctx s
      in minBudget ctx gates (if f_lt budget m then budget else m) s')"

definition CompositeGate :: "'s Gate list \<Rightarrow> 's Gate" where
  "CompositeGate gates =
     \<lparr> Budget = (\<lambda>ctx s. if gates = [] then (Fin 1, s) else minBudget ctx gates (Fin 1) s),
       Apply = (\<lambda>ctx msg releases s. ApplyChain ctx msg gates releases s) \<rparr>"

section \<open>Wrapping gates\<close>

definition WaitOnRefuseGate :: "'s Gate \<Rightarrow> 's Gate" where
  "WaitOnRefuseGate inner =
     \<lparr> Budget = Budget inner,
       Apply = (\<lambda>ctx msg releases s. map_option (\<lambda>r.
         case gr_err r of
           Some e \<Rightarrow> r \<lparr> gr_err := Some (Wrapped ''inner gate apply failed'' e) \<rparr>
         | None \<Rightarrow> if Action (gr_verdict r) = ActionRefuse
                   then r \<lparr> gr_verdict := (gr_verdict r) \<lparr> Action := ActionWait \<rparr> \<rparr> else r)
         (Apply inner ctx msg releases s)) \<rparr>"

text \<open>The request must carry its public part: a Drop of the tier gate reads the identifier from it.\<close>

definition tooManyRequests :: "internal_request \<Rightarrow> result_message" where
  "tooManyRequests msg =
     \<lparr> res_ID = (case PublicRequest msg of None \<Rightarrow> '''' | Some r \<Rightarrow> ReqID r), res_StatusCode = 0,
       res_Payload = [CHR 0x7B] @ json_quote ''error'' @ '': '' @ json_quote ''Too Many Requests'' @
         '', '' @ json_quote ''code'' @ '': 429'' @ [CHR 0x7D],
       res_ErrorCode = '''', res_ErrorMessage = '''', res_Routing = Routing msg,
       res_Metadata = Map.empty \<rparr>"

definition tier_verdict :: "string \<Rightarrow> internal_request \<Rightarrow> verdict" where
  "tier_verdict tierLabel msg =
     (let classification = GetClassification (Routing msg);
          tier = (case Labels (Routing msg) tierLabel of None \<Rightarrow> '''' | Some t \<Rightarrow> t)
      in if classification = ClassificationReserved then Wait
         else if tier = TierInteractive \<and> classification = ClassificationOverflow
           then Drop (tooManyRequests msg)
         else Refuse)"

definition TierPriorityAdmissionGate :: "'s Gate \<Rightarrow> string \<Rightarrow> 's Gate" where
  "TierPriorityAdmissionGate saturationGate tierLabel0 =
     (let tierLabel = (if tierLabel0 = '''' then ''tier'' else tierLabel0) in
     \<lparr> Budget = Budget saturationGate,
       Apply = (\<lambda>ctx msg releases s. map_option (\<lambda>r.
         case gr_err r of
           Some e \<Rightarrow> r \<lparr> gr_verdict := zero_verdict,
                         gr_err := Some (Wrapped ''saturation gate failed'' e) \<rparr>
         | None \<Rightarrow> if Action (gr_verdict r) \<noteq> ActionRefuse then r \<lparr> gr_verdict := Continue \<rparr>
                   else r \<lparr> gr_verdict := tier_verdict tierLabel (gr_msg r) \<rparr>)
         (Apply saturationGate ctx msg releases s)) \<rparr>)"

section \<open>The contract of a gate\<close>

text \<open>
  A release closure acts on the observation alone and keeps the invariant; running the closures a
  call appended, last first, undoes what the call reserved; a call that does not let the request
  pass reserves nothing; reading a budget reserves nothing. That the budget is a fraction of capacity
  is a contract of its own, under the invariant of the gate's state.
\<close>

definition release_ok :: "('s \<Rightarrow> 'o) \<Rightarrow> ('s \<Rightarrow> bool) \<Rightarrow> 's release \<Rightarrow> bool" where
  "release_ok obs I r \<longleftrightarrow> (\<forall>s. I s \<longrightarrow> I (run_release r s)) \<and>
     (\<forall>s t. I s \<longrightarrow> I t \<longrightarrow> obs s = obs t \<longrightarrow> obs (run_release r s) = obs (run_release r t))"

locale gate_contract =
  fixes G :: "'s Gate" and obs :: "'s \<Rightarrow> 'o" and I :: "'s \<Rightarrow> bool"
  assumes apply_inv: "I s \<Longrightarrow> Apply G c m rel s = Some r \<Longrightarrow> I (gr_state r)"
    and apply_request: "I s \<Longrightarrow> Apply G c m rel s = Some r \<Longrightarrow> PublicRequest (gr_msg r) = PublicRequest m"
    and apply_nil: "I s \<Longrightarrow> Apply G c m None s = Some r \<Longrightarrow> gr_releases r = None"
    and apply_grows: "I s \<Longrightarrow> Apply G c m (Some rels) s = Some r \<Longrightarrow>
          \<exists>new. gr_releases r = Some (rels @ new) \<and> (\<forall>f \<in> set new. release_ok obs I f) \<and>
                obs (ReleaseGateReleases new (gr_state r)) = obs s"
    and apply_keeps: "I s \<Longrightarrow> Apply G c m (Some rels) s = Some r \<Longrightarrow> \<not> passed r \<Longrightarrow>
          gr_releases r = Some rels \<and> obs (gr_state r) = obs s"
    and budget_pure: "I s \<Longrightarrow> I (snd (Budget G c s)) \<and> obs (snd (Budget G c s)) = obs s"
locale gate_budget =
  fixes G :: "'s Gate" and B :: "'s \<Rightarrow> bool"
  assumes budget_unit: "B s \<Longrightarrow> f_unit (fst (Budget G c s))"
    and budget_inv: "B s \<Longrightarrow> B (snd (Budget G c s))"

lemma ReleaseGateReleases_snoc [simp]:
  "ReleaseGateReleases (rels @ [f]) s = ReleaseGateReleases rels (run_release f s)"
  by (simp add: ReleaseGateReleases_def)

lemma releases_inv:
  "\<forall>f \<in> set rels. release_ok obs I f \<Longrightarrow> I s \<Longrightarrow> I (ReleaseGateReleases rels s)"
proof (induction rels arbitrary: s rule: rev_induct)
  case (snoc f rels)
  then have "release_ok obs I f" and rels: "\<forall>f \<in> set rels. release_ok obs I f" by simp_all
  then have "I (run_release f s)" using snoc.prems(2) unfolding release_ok_def by blast
  from snoc.IH [OF rels this] show ?case by simp
qed simp

lemma releases_cong:
  "\<forall>f \<in> set rels. release_ok obs I f \<Longrightarrow> I s \<Longrightarrow> I t \<Longrightarrow> obs s = obs t \<Longrightarrow>
   obs (ReleaseGateReleases rels s) = obs (ReleaseGateReleases rels t)"
proof (induction rels arbitrary: s t rule: rev_induct)
  case (snoc f rels)
  from snoc.prems(1) have f: "release_ok obs I f" and rels: "\<forall>f \<in> set rels. release_ok obs I f"
    by simp_all
  have inv: "I (run_release f s)" "I (run_release f t)"
    using f snoc.prems(2,3) unfolding release_ok_def by blast+
  have "obs (run_release f s) = obs (run_release f t)"
    using f snoc.prems(2-4) unfolding release_ok_def by blast
  then show ?case using snoc.IH [OF rels inv] by simp
qed simp

lemma passed_reply [simp]:
  "reply v e m rel s = Some r \<Longrightarrow> passed r \<longleftrightarrow> e = None \<and> Action v = ActionContinue"
  by (auto simp: reply_def passed_def)

lemma applyGates_contract:
  assumes "\<forall>g \<in> set gs. gate_contract g obs I"
    and "I s" "\<forall>f \<in> set acc. release_ok obs I f" "obs (ReleaseGateReleases acc s) = obs s0"
    and "applyGates c (length rels) gs m (Some (rels @ acc)) s = Some r"
  shows "I (gr_state r) \<and> PublicRequest (gr_msg r) = PublicRequest m \<and>
    (if passed r then \<exists>new. gr_releases r = Some (rels @ new) \<and> (\<forall>f \<in> set new. release_ok obs I f) \<and>
                           obs (ReleaseGateReleases new (gr_state r)) = obs s0
     else gr_releases r = Some rels \<and> obs (gr_state r) = obs s0)"
  using assms
proof (induction gs arbitrary: acc s m)
  case Nil
  then have "passed r" by simp
  with Nil show ?case by (auto simp: reply_def)
next
  case (Cons g gs)
  then obtain r1 where r1: "Apply g c m (Some (rels @ acc)) s = Some r1"
    by (auto split: option.splits)
  have g: "gate_contract g obs I" using Cons.prems(1) by simp
  have inv: "I (gr_state r1)" by (rule gate_contract.apply_inv [OF g Cons.prems(2) r1])
  have req: "PublicRequest (gr_msg r1) = PublicRequest m" by (rule gate_contract.apply_request [OF g Cons.prems(2) r1])
  show ?case
  proof (cases "passed r1")
    case True
    obtain new where new: "gr_releases r1 = Some (rels @ (acc @ new))"
      "\<forall>f \<in> set new. release_ok obs I f" "obs (ReleaseGateReleases new (gr_state r1)) = obs s"
      using gate_contract.apply_grows [OF g Cons.prems(2) r1] by auto
    have "obs (ReleaseGateReleases (acc @ new) (gr_state r1)) = obs s0"
      using releases_cong [OF Cons.prems(3) releases_inv [OF new(2) inv] Cons.prems(2) new(3)]
        Cons.prems(4) by (simp add: ReleaseGateReleases_append)
    then show ?thesis
      using Cons.IH [of "gr_state r1" "acc @ new" "gr_msg r1"] Cons.prems r1 new True inv req
      by (simp add: passed_def ball_Un)
  next
    case False
    have keep: "gr_releases r1 = Some (rels @ acc)" "obs (gr_state r1) = obs s"
      using gate_contract.apply_keeps [OF g Cons.prems(2) r1 False] by simp_all
    have r: "r = rollback (length rels) r1"
      using Cons.prems(5) r1 False by (auto simp: passed_def)
    have "obs (ReleaseGateReleases acc (gr_state r1)) = obs s0"
      using releases_cong [OF Cons.prems(3) inv Cons.prems(2) keep(2)] Cons.prems(4) by simp
    moreover have "I (ReleaseGateReleases acc (gr_state r1))"
      by (rule releases_inv [OF Cons.prems(3) inv])
    moreover have "\<not> passed r" using False by (simp add: r passed_def rollback_def keep)
    ultimately show ?thesis using r keep req by (simp add: rollback_def)
  qed
qed

lemma applyGates_nil:
  assumes "\<forall>g \<in> set gs. gate_contract g obs I" "I s" "applyGates c n gs m None s = Some r"
  shows "I (gr_state r) \<and> gr_releases r = None \<and> PublicRequest (gr_msg r) = PublicRequest m"
  using assms
proof (induction gs arbitrary: s m)
  case Nil
  then show ?case by (auto simp: reply_def)
next
  case (Cons g gs)
  then obtain r1 where r1: "Apply g c m None s = Some r1" by (auto split: option.splits)
  have g: "gate_contract g obs I" using Cons.prems(1) by simp
  note facts = gate_contract.apply_inv [OF g Cons.prems(2) r1] gate_contract.apply_nil [OF g Cons.prems(2) r1]
    gate_contract.apply_request [OF g Cons.prems(2) r1]
  show ?case
    using Cons.IH [of "gr_state r1" "gr_msg r1"] Cons.prems r1 facts
    by (auto simp: rollback_def split: if_splits)
qed

lemma minBudget_contract:
  assumes "\<forall>g \<in> set gs. gate_contract g obs I" "I s"
  shows "I (snd (minBudget c gs b s)) \<and> obs (snd (minBudget c gs b s)) = obs s"
  using assms
proof (induction gs arbitrary: s b)
  case (Cons g gs)
  obtain b1 s1 where b1: "Budget g c s = (b1, s1)" by (cases "Budget g c s")
  have g: "gate_contract g obs I" using Cons.prems(1) by simp
  have "I s1 \<and> obs s1 = obs s" using gate_contract.budget_pure [OF g Cons.prems(2), of c] b1 by simp
  then show ?case using Cons.IH [of s1 "if f_lt b1 b then b1 else b"] Cons.prems b1 by simp
qed simp

lemma minBudget_unit:
  assumes "\<forall>g \<in> set gs. gate_budget g B" "B s" "f_unit b"
  shows "B (snd (minBudget c gs b s)) \<and> f_unit (fst (minBudget c gs b s))"
  using assms
proof (induction gs arbitrary: s b)
  case (Cons g gs)
  obtain b1 s1 where b1: "Budget g c s = (b1, s1)" by (cases "Budget g c s")
  have g: "gate_budget g B" using Cons.prems(1) by simp
  have "B s1 \<and> f_unit b1"
    using gate_budget.budget_unit [OF g Cons.prems(2), of c]
      gate_budget.budget_inv [OF g Cons.prems(2), of c] b1 by simp
  then show ?case using Cons.IH [of s1 "if f_lt b1 b then b1 else b"] Cons.prems b1 by simp
qed simp

lemma CompositeGate_budget:
  assumes "\<forall>g \<in> set gs. gate_budget g B"
  shows "gate_budget (CompositeGate gs) B"
  using minBudget_unit [OF assms, of _ "Fin 1"] by unfold_locales (simp_all add: CompositeGate_def)

lemma CompositeGate_contract:
  assumes gs: "\<forall>g \<in> set gs. gate_contract g obs I"
  shows "gate_contract (CompositeGate gs) obs I"
proof -
  have chain: "I (gr_state r) \<and> PublicRequest (gr_msg r) = PublicRequest m \<and>
      (if passed r then \<exists>new. gr_releases r = Some (rels @ new) \<and> (\<forall>f \<in> set new. release_ok obs I f) \<and>
                             obs (ReleaseGateReleases new (gr_state r)) = obs s
       else gr_releases r = Some rels \<and> obs (gr_state r) = obs s)"
    if "I s" "Apply (CompositeGate gs) c m (Some rels) s = Some r" for s c m rels r
    using applyGates_contract [OF gs that(1), of "[]" s c rels m r] that
    by (simp add: CompositeGate_def ApplyChain_def)
  have none: "I (gr_state r) \<and> gr_releases r = None \<and> PublicRequest (gr_msg r) = PublicRequest m"
    if "I s" "Apply (CompositeGate gs) c m None s = Some r" for s c m r
    using applyGates_nil [OF gs that(1)] that by (auto simp: CompositeGate_def ApplyChain_def)
  have budget: "I (snd (Budget (CompositeGate gs) c s)) \<and> obs (snd (Budget (CompositeGate gs) c s)) = obs s"
    if "I s" for s c
    using minBudget_contract [OF gs that, of c "Fin 1"] that by (simp add: CompositeGate_def)
  show ?thesis
  proof (unfold_locales, goal_cases)
    case (1 s c m rel r)
    then show ?case using chain none by (cases rel) blast+
  next
    case (2 s c m rel r)
    then show ?case using chain none by (cases rel) blast+
  next
    case (4 s c m rels r)
    then show ?case using chain [of s c m rels r] by (auto split: if_splits)
  next
    case (5 s c m rels r)
    then show ?case using chain [of s c m rels r] by simp
  qed (use none budget in blast)+
qed

lemma DispatchGateFunc_contract:
  assumes "\<And>c s. I s \<Longrightarrow> I (snd (f c s)) \<and> obs (snd (f c s)) = obs s"
  shows "gate_contract (DispatchGateFunc f) obs I"
proof -
  have "I (gr_state r) \<and> gr_msg r = m \<and> gr_releases r = rel \<and> obs (gr_state r) = obs s"
    if "I s" "Apply (DispatchGateFunc f) c m rel s = Some r" for s c m rel r
    using assms [OF that(1), of c] that(2)
    by (auto simp: DispatchGateFunc_def reply_def split_def Let_def split: if_splits)
  moreover have "Budget (DispatchGateFunc f) = f" by (simp add: DispatchGateFunc_def)
  ultimately show ?thesis
    using assms by unfold_locales (auto intro!: exI [of _ "[]"])
qed

lemma DispatchGateFunc_budget:
  assumes "\<And>c s. B s \<Longrightarrow> B (snd (f c s)) \<and> f_unit (fst (f c s))"
  shows "gate_budget (DispatchGateFunc f) B"
  using assms by unfold_locales (simp_all add: DispatchGateFunc_def)

lemma wrapped_budget:
  "gate_budget G B \<Longrightarrow> gate_budget (WaitOnRefuseGate G) B"
  "gate_budget G B \<Longrightarrow> gate_budget (TierPriorityAdmissionGate G l) B"
  by (simp_all add: gate_budget_def WaitOnRefuseGate_def TierPriorityAdmissionGate_def Let_def)

lemma ConstOpenGate_contract: "gate_contract ConstOpenGate obs I"
  unfolding ConstOpenGate_def by (rule DispatchGateFunc_contract) simp

text \<open>
  A wrapper that keeps the state, the request and the releases of the inner reply, and that lets a
  request pass only if the inner gate did or reserved nothing, keeps the contract.
\<close>

lemma wrapper_contract:
  assumes G: "gate_contract G obs I"
    and b: "Budget W = Budget G"
    and a: "\<And>c m rel s. Apply W c m rel s = map_option (w m) (Apply G c m rel s)"
    and w: "\<And>m r. gr_state (w m r) = gr_state r \<and> gr_releases (w m r) = gr_releases r
              \<and> PublicRequest (gr_msg (w m r)) = PublicRequest (gr_msg r)"
    and p: "\<And>m r. passed r \<Longrightarrow> passed (w m r)"
  shows "gate_contract W obs I"
proof (unfold_locales, goal_cases)
  case (1 s c m rel r)
  then show ?case using gate_contract.apply_inv [OF G] w by (auto simp: a)
next
  case (2 s c m rel r)
  then show ?case using gate_contract.apply_request [OF G] w by (auto simp: a)
next
  case (3 s c m r)
  then show ?case using gate_contract.apply_nil [OF G] w by (auto simp: a)
next
  case (4 s c m rels r)
  then obtain r0 where r0: "Apply G c m (Some rels) s = Some r0" "r = w m r0" by (auto simp: a)
  then show ?case using gate_contract.apply_grows [OF G 4(1) r0(1)] w by simp
next
  case (5 s c m rels r)
  then obtain r0 where r0: "Apply G c m (Some rels) s = Some r0" "r = w m r0" by (auto simp: a)
  then have "\<not> passed r0" using 5 p by auto
  then show ?case using gate_contract.apply_keeps [OF G 5(1) r0(1)] w r0 by simp
next
  case (6 s c)
  then show ?case using gate_contract.budget_pure [OF G] by (simp add: b)
qed

lemma WaitOnRefuseGate_contract:
  assumes "gate_contract G obs I"
  shows "gate_contract (WaitOnRefuseGate G) obs I"
proof (rule wrapper_contract [OF assms])
  show "Apply (WaitOnRefuseGate G) c m rel s = map_option (\<lambda>r.
         case gr_err r of
           Some e \<Rightarrow> r \<lparr> gr_err := Some (Wrapped ''inner gate apply failed'' e) \<rparr>
         | None \<Rightarrow> if Action (gr_verdict r) = ActionRefuse
                   then r \<lparr> gr_verdict := (gr_verdict r) \<lparr> Action := ActionWait \<rparr> \<rparr> else r)
         (Apply G c m rel s)" for c m rel s
    by (simp add: WaitOnRefuseGate_def)
qed (auto simp: WaitOnRefuseGate_def passed_def split: option.split)

lemma TierPriorityAdmissionGate_contract:
  assumes "gate_contract G obs I"
  shows "gate_contract (TierPriorityAdmissionGate G l) obs I"
proof (rule wrapper_contract [OF assms])
  show "Apply (TierPriorityAdmissionGate G l) c m rel s = map_option (\<lambda>r.
         case gr_err r of
           Some e \<Rightarrow> r \<lparr> gr_verdict := zero_verdict,
                         gr_err := Some (Wrapped ''saturation gate failed'' e) \<rparr>
         | None \<Rightarrow> if Action (gr_verdict r) \<noteq> ActionRefuse then r \<lparr> gr_verdict := Continue \<rparr>
                   else r \<lparr> gr_verdict := tier_verdict (if l = '''' then ''tier'' else l) (gr_msg r) \<rparr>)
         (Apply G c m rel s)" for c m rel s
    by (simp add: TierPriorityAdmissionGate_def Let_def)
qed (auto simp: TierPriorityAdmissionGate_def Let_def passed_def split: option.split)

section \<open>Gates in a larger world\<close>

text \<open>
  Every gate object owns its own state. \<open>gate_on\<close> places a gate in a world that holds the state of
  several gates, through a getter and a setter.
\<close>

definition lift_release :: "('w \<Rightarrow> 's) \<Rightarrow> ('s \<Rightarrow> 'w \<Rightarrow> 'w) \<Rightarrow> 's release \<Rightarrow> 'w release" where
  "lift_release get put r = map_option (\<lambda>f w. put (f (get w)) w) r"

definition gate_on :: "('w \<Rightarrow> 's) \<Rightarrow> ('s \<Rightarrow> 'w \<Rightarrow> 'w) \<Rightarrow> 's Gate \<Rightarrow> 'w Gate" where
  "gate_on get put G =
     \<lparr> Budget = (\<lambda>c w. let (b, s) = Budget G c (get w) in (b, put s w)),
       Apply = (\<lambda>c m rel w. map_option (\<lambda>r.
         \<lparr> gr_verdict = gr_verdict r, gr_err = gr_err r, gr_msg = gr_msg r,
           gr_releases = map_option (\<lambda>old. old @ map (lift_release get put) (the (gr_releases r))) rel,
           gr_state = put (gr_state r) w \<rparr>)
         (Apply G c m (map_option (\<lambda>_. []) rel) (get w))) \<rparr>"

lemma run_lift_release:
  assumes "\<And>x w. get (put x w) = x" "\<And>x w. rest (put x w) = rest w"
  shows "get (run_release (lift_release get put f) w) = run_release f (get w) \<and>
         rest (run_release (lift_release get put f) w) = rest w"
  using assms by (cases f) (simp_all add: run_release_def lift_release_def)

lemma releases_lift:
  assumes "\<And>x w. get (put x w) = x" "\<And>x w. rest (put x w) = rest w"
  shows "get (ReleaseGateReleases (map (lift_release get put) rels) w) = ReleaseGateReleases rels (get w)
       \<and> rest (ReleaseGateReleases (map (lift_release get put) rels) w) = rest w"
proof (induction rels arbitrary: w rule: rev_induct)
  case (snoc f rels)
  show ?case using snoc [of "run_release (lift_release get put f) w"] run_lift_release [of get put rest] assms
    by simp
qed simp

lemma release_ok_lift:
  assumes "\<And>x w. get (put x w) = x" "\<And>x w. rest (put x w) = rest w" and f: "release_ok obs I f"
  shows "release_ok (\<lambda>w. (obs (get w), rest w)) (\<lambda>w. I (get w)) (lift_release get put f)"
proof -
  note l = run_lift_release [of get put rest, OF assms(1,2)]
  from f have "I (run_release f (get s))" if "I (get s)" for s
    using that unfolding release_ok_def by blast
  moreover from f have "obs (run_release f (get s)) = obs (run_release f (get t))"
    if "I (get s)" "I (get t)" "obs (get s) = obs (get t)" for s t
    using that unfolding release_ok_def by blast
  ultimately show ?thesis unfolding release_ok_def using l by (metis (mono_tags, lifting) Pair_inject)
qed

lemma gate_on_contract:
  assumes gp: "\<And>x w. get (put x w) = x" and rp: "\<And>x w. rest (put x w) = rest w"
    and G: "gate_contract G obs I"
  shows "gate_contract (gate_on get put G) (\<lambda>w. (obs (get w), rest w)) (\<lambda>w. I (get w))"
proof -
  have inner: "\<exists>r0. Apply G c m (map_option (\<lambda>_. []) rel) (get w) = Some r0 \<and>
      gr_state r = put (gr_state r0) w \<and> gr_msg r = gr_msg r0 \<and> passed r = passed r0 \<and>
      gr_releases r = map_option (\<lambda>old. old @ map (lift_release get put) (the (gr_releases r0))) rel"
    if "Apply (gate_on get put G) c m rel w = Some r" for c m rel w r
    using that by (auto simp: gate_on_def passed_def)
  have budget: "fst (Budget (gate_on get put G) c w) = fst (Budget G c (get w)) \<and>
      snd (Budget (gate_on get put G) c w) = put (snd (Budget G c (get w))) w" for c w
    by (simp add: gate_on_def split_def Let_def)
  show ?thesis
  proof (unfold_locales, goal_cases)
    case (1 w c m rel r)
    then show ?case using inner [OF 1(2)] gate_contract.apply_inv [OF G 1(1)] gp by auto
  next
    case (2 w c m rel r)
    then show ?case using inner [OF 2(2)] gate_contract.apply_request [OF G 2(1)] by auto
  next
    case (3 w c m r)
    then show ?case using inner [OF 3(2)] by auto
  next
    case (4 w c m rels r)
    from inner [OF 4(2)] obtain r0 where r0: "Apply G c m (Some []) (get w) = Some r0"
      "gr_state r = put (gr_state r0) w"
      "gr_releases r = Some (rels @ map (lift_release get put) (the (gr_releases r0)))" by auto
    from gate_contract.apply_grows [OF G 4(1) r0(1)] obtain new where
      new: "gr_releases r0 = Some new" "\<forall>f \<in> set new. release_ok obs I f"
        "obs (ReleaseGateReleases new (gr_state r0)) = obs (get w)" by auto
    show ?case
      using r0 new releases_lift [of get put rest new "gr_state r", OF gp rp] gp rp
      by (auto intro!: exI [of _ "map (lift_release get put) new"] release_ok_lift)
  next
    case (5 w c m rels r)
    from inner [OF 5(2)] obtain r0 where r0: "Apply G c m (Some []) (get w) = Some r0"
      "gr_state r = put (gr_state r0) w" "passed r = passed r0"
      "gr_releases r = Some (rels @ map (lift_release get put) (the (gr_releases r0)))" by auto
    from gate_contract.apply_keeps [OF G 5(1) r0(1)] 5(3) r0 show ?case by (simp add: gp rp)
  next
    case (6 w c)
    then show ?case using gate_contract.budget_pure [OF G 6] by (simp add: budget gp rp)
  qed
qed

end
