(* ===== verification/Flow_Gates.thy ===== *)
theory Flow_Gates
  imports Gate
begin

text \<open>
  The gates of \<open>src/pkg/async/inference/flowcontrol\<close> that decide from local state or from a metric:
  the local concurrency gate, the metric gates, and the metric sources they query (cached, cascaded
  and scraped). The Prometheus client and the text parser are arguments of the sources.
\<close>

section \<open>Local concurrency\<close>

datatype GatingMode = GatingModeBlocking | GatingModeClassifying

text \<open>The semaphore channel is the number of tokens in it; it exists in blocking mode only.\<close>

record lcg =
  lc_limit :: int
  lc_inFlight :: int
  lc_gatingMode :: GatingMode
  lc_sem :: "int option"

definition NewLocalConcurrencyGate :: "int \<Rightarrow> lcg" where
  "NewLocalConcurrencyGate limit =
     \<lparr> lc_limit = limit, lc_inFlight = 0, lc_gatingMode = GatingModeClassifying, lc_sem = None \<rparr>"

definition WithGatingMode :: "GatingMode \<Rightarrow> lcg \<Rightarrow> lcg" where
  "WithGatingMode mode g = g \<lparr> lc_gatingMode := mode,
     lc_sem := (if mode = GatingModeBlocking \<and> 0 < lc_limit g then Some 0 else lc_sem g) \<rparr>"

definition lc_Budget :: "gctx \<Rightarrow> lcg \<Rightarrow> float64 \<times> lcg" where
  "lc_Budget ctx g =
     (if lc_limit g \<le> 0 then (Fin 0, g)
      else if lc_limit g \<le> lc_inFlight g then (Fin 0, g)
      else (Fin (real_of_int (lc_limit g - lc_inFlight g) / real_of_int (lc_limit g)), g))"

text \<open>
  The closure of blocking mode first takes its token back from the channel; it is run once for each
  token put in, so the receive finds one.
\<close>

definition lc_release :: "lcg \<Rightarrow> lcg" where
  "lc_release g = g \<lparr> lc_inFlight := lc_inFlight g - 1 \<rparr>"

definition lc_release_blocking :: "lcg \<Rightarrow> lcg" where
  "lc_release_blocking g =
     g \<lparr> lc_sem := map_option (\<lambda>n. n - 1) (lc_sem g), lc_inFlight := lc_inFlight g - 1 \<rparr>"

definition append_release :: "('s \<Rightarrow> 's) \<Rightarrow> 's release list option \<Rightarrow> 's release list option" where
  "append_release f releases = map_option (\<lambda>rels. rels @ [Some f]) releases"

definition lc_Apply :: "gctx \<Rightarrow> internal_request \<Rightarrow> lcg release list option \<Rightarrow> lcg \<Rightarrow> lcg gate_reply option" where
  "lc_Apply ctx msg releases g =
     (if lc_limit g \<le> 0 then reply Refuse None msg releases g
      else if lc_gatingMode g = GatingModeBlocking then
        (let room = (case lc_sem g of None \<Rightarrow> False | Some n \<Rightarrow> n < lc_limit g) in
         if room \<and> \<not> (ctx_done ctx \<and> ctx_pick_done ctx) then
           reply Continue None msg (append_release lc_release_blocking releases)
             (g \<lparr> lc_sem := map_option (\<lambda>n. n + 1) (lc_sem g), lc_inFlight := lc_inFlight g + 1 \<rparr>)
         else if ctx_done ctx then
           reply zero_verdict (Some (Wrapped ''context canceled'' ContextCanceled)) msg releases g
         else None)
      else if lc_limit g \<le> lc_inFlight g then reply Refuse None msg releases g
      else reply Continue None msg (append_release lc_release releases)
             (g \<lparr> lc_inFlight := lc_inFlight g + 1 \<rparr>))"

definition LocalConcurrencyGate :: "lcg Gate" where
  "LocalConcurrencyGate = \<lparr> Budget = lc_Budget, Apply = lc_Apply \<rparr>"

definition lc_inv :: "lcg \<Rightarrow> bool" where
  "lc_inv g \<longleftrightarrow> 0 \<le> lc_inFlight g \<and> (0 < lc_limit g \<longrightarrow> lc_inFlight g \<le> lc_limit g) \<and>
     (lc_limit g \<le> 0 \<longrightarrow> lc_inFlight g = 0) \<and>
     (lc_gatingMode g = GatingModeBlocking \<longrightarrow> 0 < lc_limit g \<longrightarrow> lc_sem g = Some (lc_inFlight g))"

section \<open>Metric sources\<close>

record sample =
  smp_Labels :: strmap
  smp_Value :: float64

type_synonym 's MetricSource = "gctx \<Rightarrow> 's \<Rightarrow> (gate_error + sample list) \<times> 's"

record metric_cache =
  cm_result :: "gate_error + sample list"
  cm_expiry :: int

definition CachedMetricSource_Query ::
    "'s MetricSource \<Rightarrow> int \<Rightarrow> ('s \<Rightarrow> int) \<Rightarrow> (metric_cache \<times> 's) MetricSource" where
  "CachedMetricSource_Query source ttl now ctx cs = (case cs of (c, s) \<Rightarrow>
     if ctx_done ctx \<and> ctx_pick_done ctx
     then (Inl (Wrapped ''waiting for metric refresh'' ContextCanceled), cs)
     else if now s < cm_expiry c then (cm_result c, cs)
     else let (r, s') = source ctx s in (r, \<lparr> cm_result = r, cm_expiry = now s + ttl \<rparr>, s'))"

fun cascade_query :: "'s MetricSource list \<Rightarrow> int \<Rightarrow> gctx \<Rightarrow> int \<times> 's \<Rightarrow> (gate_error + sample list) \<times> int \<times> 's" where
  "cascade_query [] i ctx (active, s) = (Inl (StoreError ''all metric sources unavailable''), active, s)"
| "cascade_query (source # sources) i ctx (active, s) =
     (case source ctx s of (r, s') \<Rightarrow>
        (case r of
           Inr samples \<Rightarrow> if samples \<noteq> [] then (Inr samples, i, s')
                          else cascade_query sources (i + 1) ctx (active, s')
         | Inl _ \<Rightarrow> cascade_query sources (i + 1) ctx (active, s')))"

definition CascadeMetricSource_Query :: "'s MetricSource list \<Rightarrow> (int \<times> 's) MetricSource" where
  "CascadeMetricSource_Query sources ctx s = cascade_query sources 0 ctx s"

record metric =
  m_labels :: strmap
  m_gauge :: "float64 option"
  m_counter :: "float64 option"
  m_untyped :: "float64 option"

definition matchLabels :: "strmap \<Rightarrow> (string \<times> string) list \<Rightarrow> bool" where
  "matchLabels actual filters \<longleftrightarrow>
     (\<forall>(k, v) \<in> set filters. (case actual k of None \<Rightarrow> '''' | Some a \<Rightarrow> a) = v)"

definition metric_value :: "metric \<Rightarrow> float64 option" where
  "metric_value m = (case m_gauge m of Some v \<Rightarrow> Some v | None \<Rightarrow>
     (case m_counter m of Some v \<Rightarrow> Some v | None \<Rightarrow> m_untyped m))"

definition parseSamples :: "(string \<rightharpoonup> metric list) \<Rightarrow> string \<Rightarrow> (string \<times> string) list \<Rightarrow> sample list" where
  "parseSamples families metricName labelFilters =
     (case families metricName of None \<Rightarrow> []
      | Some ms \<Rightarrow> List.map_filter (\<lambda>m. if matchLabels (m_labels m) labelFilters
          then map_option (\<lambda>v. \<lparr> smp_Labels = m_labels m, smp_Value = v \<rparr>) (metric_value m)
          else None) ms)"

definition clampFloat :: "float64 \<Rightarrow> float64 \<Rightarrow> float64 \<Rightarrow> float64" where
  "clampFloat v lo hi = (if f_lt v lo then lo else if f_lt hi v then hi else v)"

record scrape_config =
  sc_url :: string
  sc_metricName :: string
  sc_labels :: "(string \<times> string) list"
  sc_maxCountPerPod :: float64
  sc_directBudget :: bool
  sc_podsURL :: string
  sc_podsMetric :: string
  sc_podsLabels :: "(string \<times> string) list"

text \<open>\<open>fetch\<close> is the HTTP GET with its text parser: an error, a status, or the parsed families.\<close>

type_synonym 's fetch = "gctx \<Rightarrow> string \<Rightarrow> 's \<Rightarrow> (gate_error + int \<times> (gate_error + (string \<rightharpoonup> metric list))) \<times> 's"

definition scrapeMetric :: "'s fetch \<Rightarrow> gctx \<Rightarrow> string \<Rightarrow> string \<Rightarrow> (string \<times> string) list \<Rightarrow> 's
    \<Rightarrow> (gate_error + sample list) \<times> 's" where
  "scrapeMetric fetch ctx url metricName labelFilters s =
     (case fetch ctx url s of
        (Inl e, s') \<Rightarrow> (Inl (Wrapped ''scrape: fetch'' e), s')
      | (Inr (status, body), s') \<Rightarrow>
          if status \<noteq> 200 then (Inl (StoreError ''scrape: bad status''), s')
          else (case body of Inl e \<Rightarrow> (Inl (Wrapped ''scrape: parse metrics'' e), s')
                | Inr families \<Rightarrow> (Inr (parseSamples families metricName labelFilters), s')))"

definition scrape_budget :: "scrape_config \<Rightarrow> float64 \<Rightarrow> sample \<Rightarrow> sample" where
  "scrape_budget cfg maxCount smp =
     (let normalized = clampFloat (if f_lt (Fin 0) maxCount then f_div_pos (smp_Value smp) maxCount
                                   else smp_Value smp) (Fin 0) (Fin 1);
          budget = (if sc_directBudget cfg then normalized else f_sub (Fin 1) normalized)
      in \<lparr> smp_Labels = smp_Labels smp, smp_Value = budget \<rparr>)"

definition ScrapeMetricSource_Query :: "'s fetch \<Rightarrow> scrape_config \<Rightarrow> 's MetricSource" where
  "ScrapeMetricSource_Query fetch cfg ctx s =
     (case scrapeMetric fetch ctx (sc_url cfg) (sc_metricName cfg) (sc_labels cfg) s of
        (Inl e, s1) \<Rightarrow> (Inl e, s1)
      | (Inr samples, s1) \<Rightarrow>
          if sc_podsURL cfg \<noteq> '''' \<and> sc_podsMetric cfg \<noteq> '''' then
            (case scrapeMetric fetch ctx (sc_podsURL cfg) (sc_podsMetric cfg) (sc_podsLabels cfg) s1 of
               (Inl e, s2) \<Rightarrow> (Inl (Wrapped ''scrape pods metric'' e), s2)
             | (Inr [], s2) \<Rightarrow> (Inl (StoreError ''scrape: pods metric not found''), s2)
             | (Inr (p # _), s2) \<Rightarrow>
                 if f_le (smp_Value p) (Fin 0) then (Inl (StoreError ''scrape: ready pods''), s2)
                 else (Inr (map (scrape_budget cfg (f_mul (smp_Value p) (sc_maxCountPerPod cfg))) samples), s2))
          else (Inr (map (scrape_budget cfg (sc_maxCountPerPod cfg)) samples), s1))"

section \<open>Metric gates\<close>

record 's mdg =
  mg_source :: "'s MetricSource"
  mg_threshold :: float64
  mg_fallback :: float64

definition NewMetricDispatchGate :: "'s MetricSource \<Rightarrow> float64 \<Rightarrow> float64 \<Rightarrow> 's mdg" where
  "NewMetricDispatchGate source threshold fallback =
     \<lparr> mg_source = source, mg_threshold = threshold,
       mg_fallback = f_max (Fin 0) (f_min (Fin 1) fallback) \<rparr>"

definition NewSaturationDispatchGate :: "'s MetricSource \<Rightarrow> float64 \<Rightarrow> float64 \<Rightarrow> 's mdg" where
  "NewSaturationDispatchGate source threshold fallback =
     NewMetricDispatchGate source (f_sub (Fin 1) threshold) (f_sub (Fin 1) fallback)"

definition NewBudgetDispatchGate :: "'s MetricSource \<Rightarrow> float64 \<Rightarrow> float64 \<Rightarrow> 's mdg" where
  "NewBudgetDispatchGate source baseline fallback = NewMetricDispatchGate source baseline fallback"

definition mdg_Budget :: "'s mdg \<Rightarrow> gctx \<Rightarrow> 's \<Rightarrow> float64 \<times> 's" where
  "mdg_Budget g ctx s =
     (case mg_source g ctx s of
        (Inl _, s') \<Rightarrow> (mg_fallback g, s')
      | (Inr [], s') \<Rightarrow> (mg_fallback g, s')
      | (Inr (smp # _), s') \<Rightarrow>
          let value = smp_Value smp in
          if \<not> f_is_finite value then (mg_fallback g, s')
          else if f_le value (mg_threshold g) then (Fin 0, s')
          else (f_min (Fin 1) (f_max (Fin 0) (f_sub value (mg_threshold g))), s'))"

definition MetricDispatchGate :: "'s mdg \<Rightarrow> 's Gate" where
  "MetricDispatchGate g = DispatchGateFunc (mdg_Budget g)"

definition bmg_Budget :: "'s MetricSource \<Rightarrow> gctx \<Rightarrow> 's \<Rightarrow> float64 \<times> 's" where
  "bmg_Budget source ctx s =
     (case source ctx s of
        (Inl _, s') \<Rightarrow> (Fin 1, s')
      | (Inr [], s') \<Rightarrow> (Fin 1, s')
      | (Inr (smp # _), s') \<Rightarrow> if smp_Value smp = Fin 0 then (Fin 1, s') else (Fin 0, s'))"

definition BinaryMetricDispatchGate :: "'s MetricSource \<Rightarrow> 's Gate" where
  "BinaryMetricDispatchGate source = DispatchGateFunc (bmg_Budget source)"

section \<open>The contract of the concrete gates\<close>

lemma lc_Apply_cases:
  assumes "lc_Apply c m rel g = Some r"
  obtains (pass_block) n where "lc_sem g = Some n" "n < lc_limit g" "lc_gatingMode g = GatingModeBlocking"
      "0 < lc_limit g"
      "r = \<lparr> gr_verdict = Continue, gr_err = None, gr_msg = m,
             gr_releases = append_release lc_release_blocking rel,
             gr_state = g \<lparr> lc_sem := Some (n + 1), lc_inFlight := lc_inFlight g + 1 \<rparr> \<rparr>"
  | (pass) "lc_inFlight g < lc_limit g" "0 < lc_limit g" "lc_gatingMode g = GatingModeClassifying"
      "r = \<lparr> gr_verdict = Continue, gr_err = None, gr_msg = m,
             gr_releases = append_release lc_release rel,
             gr_state = g \<lparr> lc_inFlight := lc_inFlight g + 1 \<rparr> \<rparr>"
  | (stop) "\<not> passed r" "gr_state r = g" "gr_releases r = rel" "gr_msg r = m"
  using assms
  by (cases "lc_gatingMode g")
    (auto simp: lc_Apply_def reply_def Let_def passed_def split: if_splits option.splits)

lemma release_ok_lc: "release_ok lc_inFlight (\<lambda>_. True) (Some lc_release)"
  "release_ok lc_inFlight (\<lambda>_. True) (Some lc_release_blocking)"
  by (simp_all add: release_ok_def run_release_def lc_release_def lc_release_blocking_def)

interpretation lc: gate_contract LocalConcurrencyGate lc_inFlight "\<lambda>_. True"
proof (unfold_locales, goal_cases)
  case (4 g c m rels r)
  then have "lc_Apply c m (Some rels) g = Some r" by (simp add: LocalConcurrencyGate_def)
  then show ?case
  proof (cases rule: lc_Apply_cases)
    case pass_block
    then show ?thesis
      by (auto simp: append_release_def release_ok_lc lc_release_blocking_def
          intro!: exI [of _ "[Some lc_release_blocking]"])
  next
    case pass
    then show ?thesis
      by (auto simp: append_release_def release_ok_lc lc_release_def
          intro!: exI [of _ "[Some lc_release]"])
  next
    case stop
    then show ?thesis by (auto intro!: exI [of _ "[]"])
  qed
qed (auto simp: LocalConcurrencyGate_def lc_Budget_def append_release_def passed_def
    elim!: lc_Apply_cases)

interpretation lcb: gate_budget LocalConcurrencyGate lc_inv
  by unfold_locales (auto simp: LocalConcurrencyGate_def lc_Budget_def lc_inv_def)

lemma lc_Apply_inv:
  assumes "lc_inv g" "lc_Apply c m rel g = Some r"
  shows "lc_inv (gr_state r)"
  using assms(2)
proof (cases rule: lc_Apply_cases)
  case pass_block
  then show ?thesis using assms(1) by (auto simp: lc_inv_def)
next
  case pass
  then show ?thesis using assms(1) by (auto simp: lc_inv_def)
next
  case stop
  then show ?thesis using assms(1) by simp
qed

lemma f_unit_max_min: "x \<noteq> NaN \<Longrightarrow> f_unit (f_min (Fin 1) (f_max (Fin 0) x))"
  by (cases x) (auto simp: f_max_def f_min_def)

lemma f_sub_not_NaN: "f_is_finite x \<Longrightarrow> y \<noteq> NaN \<Longrightarrow> f_sub x y \<noteq> NaN"
  by (cases x; cases y) (auto simp: f_sub_def)

lemma mdg_Budget_unit:
  assumes "fallback \<noteq> NaN" "threshold \<noteq> NaN"
  shows "f_unit (fst (mdg_Budget (NewMetricDispatchGate source threshold fallback) c s))"
  using assms f_clamp_unit [of fallback]
  by (auto simp: mdg_Budget_def NewMetricDispatchGate_def Let_def f_unit_max_min f_sub_not_NaN
      split: prod.split sum.split list.split)

lemma clampFloat_unit: "clampFloat v (Fin 0) (Fin 1) = NaN \<or> f_unit (clampFloat v (Fin 0) (Fin 1))"
  by (cases v) (auto simp: clampFloat_def)

lemma scrape_budget_unit:
  "smp_Value (scrape_budget cfg mc smp) = NaN \<or> f_unit (smp_Value (scrape_budget cfg mc smp))"
proof -
  let ?n = "clampFloat (if f_lt (Fin 0) mc then f_div_pos (smp_Value smp) mc else smp_Value smp)
              (Fin 0) (Fin 1)"
  have "?n = NaN \<or> f_unit ?n" by (rule clampFloat_unit)
  then show ?thesis by (auto simp: scrape_budget_def Let_def f_unit_def f_sub_def)
qed

text \<open>
  Runs of a local concurrency gate: calls of \<open>Apply\<close>, and the closures handed out, run in any order
  and each once.
\<close>

inductive lc_step :: "lcg \<times> lcg release list \<Rightarrow> lcg \<times> lcg release list \<Rightarrow> bool" where
  lc_apply: "lc_Apply c m (Some rels) g = Some r \<Longrightarrow> lc_step (g, rels) (gr_state r, the (gr_releases r))"
| lc_free: "lc_step (g, xs @ f # ys) (run_release f g, xs @ ys)"

inductive lc_reach :: "lcg \<Rightarrow> lcg \<times> lcg release list \<Rightarrow> bool" for g0 where
  lc_init: "lc_reach g0 (g0, [])"
| lc_more: "lc_reach g0 s \<Longrightarrow> lc_step s t \<Longrightarrow> lc_reach g0 t"

definition lc_closure :: "lcg \<Rightarrow> lcg release" where
  "lc_closure g = Some (if lc_gatingMode g = GatingModeBlocking then lc_release_blocking else lc_release)"

definition lc_run_inv :: "lcg \<times> lcg release list \<Rightarrow> bool" where
  "lc_run_inv s \<longleftrightarrow> lc_inv (fst s) \<and> lc_inFlight (fst s) = int (length (snd s)) \<and>
     (\<forall>f \<in> set (snd s). f = lc_closure (fst s))"

lemma lc_step_inv: "lc_step s t \<Longrightarrow> lc_run_inv s \<Longrightarrow> lc_run_inv t \<and> lc_limit (fst t) = lc_limit (fst s)"
proof (induction rule: lc_step.induct)
  case (lc_apply c m rels g r)
  have inv: "lc_inv (gr_state r)" using lc_Apply_inv lc_apply by (auto simp: lc_run_inv_def)
  from lc_apply.hyps show ?case
  proof (cases rule: lc_Apply_cases)
    case pass_block
    then show ?thesis using lc_apply.prems inv
      by (auto simp: lc_run_inv_def append_release_def lc_closure_def)
  next
    case pass
    then show ?thesis using lc_apply.prems inv
      by (auto simp: lc_run_inv_def append_release_def lc_closure_def)
  next
    case stop
    then show ?thesis using lc_apply.prems by simp
  qed
next
  case (lc_free g xs f ys)
  then show ?case
    by (auto simp: lc_run_inv_def lc_closure_def lc_inv_def run_release_def lc_release_def
        lc_release_blocking_def)
qed

lemma lc_reach_inv:
  "lc_reach g0 s \<Longrightarrow> lc_run_inv (g0, []) \<Longrightarrow> lc_run_inv s \<and> lc_limit (fst s) = lc_limit g0"
  by (induction rule: lc_reach.induct) (auto dest: lc_step_inv)

lemma lc_initial_inv: "lc_run_inv (WithGatingMode mode (NewLocalConcurrencyGate limit), [])"
  "lc_run_inv (NewLocalConcurrencyGate limit, [])"
  by (auto simp: lc_run_inv_def lc_inv_def WithGatingMode_def NewLocalConcurrencyGate_def)

section \<open>Properties\<close>

text \<open>
  C8: A chain of gates is all or nothing. If the chain lets the request pass, it appended release
  closures that, run in reverse, give back everything its gates reserved; if any gate fails, refuses,
  waits or drops, everything reserved by the earlier gates of the chain has been given back and the
  caller's list of closures is exactly what it was.
\<close>

theorem ApplyChain_all_or_nothing:
  assumes "\<forall>g \<in> set gates. gate_contract g obs I" and "I s"
    and "ApplyChain ctx msg gates (Some rels) s = Some r"
  shows "if passed r
         then \<exists>new. gr_releases r = Some (rels @ new) \<and> obs (ReleaseGateReleases new (gr_state r)) = obs s
         else gr_releases r = Some rels \<and> obs (gr_state r) = obs s"
  using applyGates_contract [OF assms(1,2), of "[]" s ctx rels msg r] assms(3)
  by (auto simp: ApplyChain_def split: if_splits)

text \<open>Two local concurrency gates side by side, the second with one slot already in use.\<close>

definition two_gates :: "(lcg \<times> lcg) Gate list" where
  "two_gates = [gate_on fst (\<lambda>x w. (x, snd w)) LocalConcurrencyGate,
                gate_on snd (\<lambda>x w. (fst w, x)) LocalConcurrencyGate]"

definition two_state :: "lcg \<times> lcg" where
  "two_state = (NewLocalConcurrencyGate 2, (NewLocalConcurrencyGate 1) \<lparr> lc_inFlight := 1 \<rparr>)"

lemma two_gates_contract:
  "\<forall>g \<in> set two_gates. gate_contract g (\<lambda>w. (lc_inFlight (fst w), lc_inFlight (snd w))) (\<lambda>_. True)"
proof -
  have swap: "gate_contract g (\<lambda>w. (f w, h w)) I \<Longrightarrow> gate_contract g (\<lambda>w. (h w, f w)) I"
    for g :: "(lcg \<times> lcg) Gate" and f h :: "lcg \<times> lcg \<Rightarrow> int" and I
    by (simp add: gate_contract_def release_ok_def conj_commute)
  show ?thesis
    using gate_on_contract [of fst "\<lambda>x w. (x, snd w)" "\<lambda>w. lc_inFlight (snd w)",
        OF _ _ lc.gate_contract_axioms]
      swap [OF gate_on_contract [of snd "\<lambda>x w. (fst w, x)" "\<lambda>w. lc_inFlight (fst w)",
        OF _ _ lc.gate_contract_axioms]]
    by (simp add: two_gates_def)
qed

theorem ApplyChain_all_or_nothing_witness:
  "\<exists>r. ApplyChain background (NewInternalRequest empty_routing (RequestMessage empty_request_message))
         two_gates (Some []) two_state = Some r \<and> \<not> passed r \<and> gr_releases r = Some [] \<and>
       (lc_inFlight (fst (gr_state r)), lc_inFlight (snd (gr_state r))) = (0, 1)"
proof -
  let ?m = "NewInternalRequest empty_routing (RequestMessage empty_request_message)"
  obtain r where r: "ApplyChain background ?m two_gates (Some []) two_state = Some r" "\<not> passed r"
    by (auto simp: ApplyChain_def two_gates_def two_state_def gate_on_def LocalConcurrencyGate_def
        lc_Apply_def NewLocalConcurrencyGate_def reply_def append_release_def passed_def rollback_def)
  from ApplyChain_all_or_nothing [OF two_gates_contract _ r(1)] r show ?thesis
    by (auto simp: two_state_def NewLocalConcurrencyGate_def)
qed



text \<open>
  C26: The budget of a metric gate with a threshold and a fallback that are numbers is always a
  fraction in \<open>[0, 1]\<close>, whatever the source returns. Without a usable reading (an error, no sample, or
  a value that is not finite) it is the clamped fallback; with a reading it is zero exactly when the
  value is at or below the threshold, and then the gate refuses.
\<close>

theorem metric_gate_budget:
  assumes "fallback \<noteq> NaN"
    and g: "g = NewMetricDispatchGate source (Fin t) fallback"
    and q: "source ctx s = (reading, s')"
  shows "f_unit (fst (Budget (MetricDispatchGate g) ctx s)) \<and>
    (case reading of
       Inr (smp # _) \<Rightarrow> (case smp_Value smp of
           Fin v \<Rightarrow> fst (Budget (MetricDispatchGate g) ctx s) = Fin (min 1 (max 0 (v - t))) \<and>
             (v \<le> t \<longleftrightarrow> fst (Budget (MetricDispatchGate g) ctx s) = Fin 0) \<and>
             (\<exists>r. Apply (MetricDispatchGate g) ctx msg rel s = Some r \<and>
                  Action (gr_verdict r) = (if v \<le> t then ActionRefuse else ActionContinue))
         | _ \<Rightarrow> fst (Budget (MetricDispatchGate g) ctx s) = f_max (Fin 0) (f_min (Fin 1) fallback))
     | _ \<Rightarrow> fst (Budget (MetricDispatchGate g) ctx s) = f_max (Fin 0) (f_min (Fin 1) fallback))"
proof -
  have "f_unit (fst (Budget (MetricDispatchGate g) ctx s))"
    using mdg_Budget_unit [OF assms(1), of "Fin t" source ctx s] by (simp add: g MetricDispatchGate_def DispatchGateFunc_def)
  then show ?thesis
    by (auto simp: g MetricDispatchGate_def DispatchGateFunc_def mdg_Budget_def NewMetricDispatchGate_def
        q Let_def reply_def f_sub_def f_max_def f_min_def max_def min_def
        split: sum.split list.split float64.split)
qed

theorem metric_gate_budget_witness:
  "fst (Budget (MetricDispatchGate (NewMetricDispatchGate
      (\<lambda>_ (s::nat). (Inr [\<lparr> smp_Labels = Map.empty, smp_Value = Fin (3/4) \<rparr>], s)) (Fin (1/4)) (Fin 5)))
      background 0) = Fin (1/2)"
  using metric_gate_budget [OF _ refl, where fallback = "Fin 5" and t = "1/4" and ctx = background
      and source = "\<lambda>_ (s::nat). (Inr [\<lparr> smp_Labels = Map.empty, smp_Value = Fin (3/4) \<rparr>], s)"
      and reading = "Inr [\<lparr> smp_Labels = Map.empty, smp_Value = Fin (3/4) \<rparr>]" and s = 0 and s' = 0]
  by simp

end
