(* ===== verification/Keyslot.thy ===== *)
theory Keyslot
  imports Prelude
begin

unbundle bit_operations_syntax

text \<open>
  Redis Cluster key placement (\<open>src/pkg/redis/keyslot.go\<close>): the hash tag of a key, the CRC-16/XMODEM
  checksum at its 16-bit width, the slot, and the derived bookkeeping keys of a queue
  (\<open>newClaimKeys\<close> of \<open>claim.go\<close>).
\<close>

definition hashSlots :: nat where "hashSlots = 16384"

text \<open>\<open>strings.IndexByte\<close>, with \<^const>\<open>None\<close> for -1.\<close>

definition indexByte :: "string \<Rightarrow> char \<Rightarrow> nat option" where
  "indexByte s c = (if c \<in> set s then Some (length (takeWhile (\<lambda>x. x \<noteq> c) s)) else None)"

abbreviation (input) lbrace :: char where "lbrace \<equiv> CHR 0x7B"
abbreviation (input) rbrace :: char where "rbrace \<equiv> CHR 0x7D"

definition hashTag :: "string \<Rightarrow> string" where
  "hashTag key = (case indexByte key lbrace of None \<Rightarrow> key
     | Some start \<Rightarrow>
         (case indexByte (drop (start + 1) key) rbrace of None \<Rightarrow> key
          | Some e \<Rightarrow> if e = 0 then key else take e (drop (start + 1) key)))"

definition slotKey :: "string \<Rightarrow> bool \<Rightarrow> string" where
  "slotKey primary cluster =
     (if \<not> cluster \<or> hashTag primary \<noteq> primary then primary else [lbrace] @ primary @ [rbrace])"

definition crc16_bit :: "16 word \<Rightarrow> 16 word" where
  "crc16_bit crc = (if crc AND 0x8000 \<noteq> 0 then push_bit 1 crc XOR 0x1021 else push_bit 1 crc)"

definition crc16_byte :: "16 word \<Rightarrow> char \<Rightarrow> 16 word" where
  "crc16_byte crc b = (crc16_bit ^^ 8) (crc XOR push_bit 8 (word_of_nat (of_char b)))"

definition crc16 :: "string \<Rightarrow> 16 word" where
  "crc16 data = foldl crc16_byte 0 data"

definition keySlot :: "string \<Rightarrow> nat" where
  "keySlot key = unat (crc16 (hashTag key)) mod hashSlots"

definition sameHashSlot :: "string \<Rightarrow> string \<Rightarrow> bool" where
  "sameHashSlot a b \<longleftrightarrow> keySlot a = keySlot b"

record claimKeys =
  ck_pending :: string
  ck_claimed :: string
  ck_owners :: string
  ck_idx :: string

definition newClaimKeys :: "string \<Rightarrow> bool \<Rightarrow> claimKeys" where
  "newClaimKeys queueName cluster = (let base = slotKey queueName cluster in
     \<lparr> ck_pending = queueName, ck_claimed = base @ '':claimed'',
       ck_owners = base @ '':claim-owners'', ck_idx = base @ '':claims-idx'' \<rparr>)"

section \<open>Hash tags\<close>

lemma indexByte_append_Some: "indexByte s c = Some i \<Longrightarrow> indexByte (s @ t) c = Some i"
  by (auto simp: indexByte_def split: if_splits)

lemma indexByte_notin: "c \<notin> set s \<Longrightarrow> indexByte (s @ c # t) c = Some (length s)"
  by (auto simp: indexByte_def takeWhile_append)

lemma length_takeWhile_neq: "c \<in> set s \<Longrightarrow> length (takeWhile (\<lambda>x. x \<noteq> c) s) < length s"
  by (induction s) auto

lemma indexByte_less: "indexByte s c = Some i \<Longrightarrow> i < length s"
  by (auto simp: indexByte_def length_takeWhile_neq split: if_splits)

lemma hashTag_shorter_or_same: "hashTag key = key \<or> length (hashTag key) < length key"
  by (auto simp: hashTag_def split: option.split dest!: indexByte_less)

text \<open>A tag of a key is the tag of every key that extends it.\<close>

lemma hashTag_extend:
  assumes "hashTag p \<noteq> p"
  shows "hashTag (p @ suffix) = hashTag p"
proof -
  obtain i e where i: "indexByte p lbrace = Some i" and e: "indexByte (drop (i + 1) p) rbrace = Some e"
    and "e \<noteq> 0" and t: "hashTag p = take e (drop (i + 1) p)"
    using assms by (auto simp: hashTag_def split: option.splits if_splits)
  have "i + 1 \<le> length p" "e < length (drop (i + 1) p)"
    using indexByte_less [OF i] indexByte_less [OF e] by simp_all
  then show ?thesis
    using indexByte_append_Some [OF i] indexByte_append_Some [OF e, of suffix] \<open>e \<noteq> 0\<close> t
    by (simp add: hashTag_def)
qed

lemma hashTag_wrap:
  assumes "rbrace \<notin> set p" "p \<noteq> []"
  shows "hashTag ([lbrace] @ p @ [rbrace] @ suffix) = p"
  using indexByte_notin [OF assms(1), of suffix] assms(2)
  by (simp add: hashTag_def indexByte_def)

lemma hashTag_slotKey:
  assumes "rbrace \<notin> set p \<or> hashTag p \<noteq> p" "p \<noteq> []"
  shows "hashTag (slotKey p True @ suffix) = hashTag p"
  using assms hashTag_extend [of p suffix] hashTag_wrap [of p suffix] by (auto simp: slotKey_def)

text \<open>Evaluation of the checksum.\<close>

lemma funpow_8: "(f ^^ 8) x = f (f (f (f (f (f (f (f x)))))))"
  by (simp add: numeral_eq_Suc)

lemmas crc16_eval = crc16_def crc16_byte_def funpow_8 crc16_bit_def

lemma crc16_check: "crc16 ''123456789'' = 0x31C3"
  by (simp add: crc16_eval)

lemma crc16_a: "crc16 ''a'' = 0x7C87"
  by (simp add: crc16_eval)

lemma crc16_a_brace_b: "crc16 [CHR ''a'', rbrace, CHR ''b''] = 0x9EBA"
  by (simp add: crc16_eval)

section \<open>Properties\<close>

text \<open>
  C27: In cluster mode the claim hash, the owner hash and the lease index of a queue lie in the slot of
  the queue's pending set, so the claim scripts may address them together, for every non-empty queue
  name that carries a hash tag or has no closing brace.
\<close>

theorem claim_keys_share_slot:
  assumes "q \<noteq> []" and "rbrace \<notin> set q \<or> hashTag q \<noteq> q" and "keys = newClaimKeys q True"
  shows "sameHashSlot (ck_pending keys) (ck_claimed keys) \<and> sameHashSlot (ck_pending keys) (ck_owners keys)
       \<and> sameHashSlot (ck_pending keys) (ck_idx keys)"
  using hashTag_slotKey [OF assms(2,1)] assms(3)
  by (simp add: sameHashSlot_def keySlot_def newClaimKeys_def Let_def)

theorem claim_keys_share_slot_witness:
  "sameHashSlot ''requests'' (ck_claimed (newClaimKeys ''requests'' True))"
  using claim_keys_share_slot [of "''requests''", OF _ _ refl] by (simp add: newClaimKeys_def Let_def)

text \<open>
  C28: The proviso of the previous property is needed. For a queue name with a closing brace and no
  hash tag, such as \<open>a}b\<close>, wrapping the name in braces puts the bookkeeping keys in another slot than
  the pending set, and the claim script cannot run in cluster mode.
\<close>

theorem claim_keys_cross_slot:
  "\<not> sameHashSlot (ck_pending (newClaimKeys [CHR ''a'', rbrace, CHR ''b''] True))
                 (ck_claimed (newClaimKeys [CHR ''a'', rbrace, CHR ''b''] True))"
proof -
  have tag: "hashTag [CHR ''a'', rbrace, CHR ''b''] = [CHR ''a'', rbrace, CHR ''b'']"
    by (simp add: hashTag_def indexByte_def)
  moreover have "hashTag ([lbrace, CHR ''a'', rbrace, CHR ''b'', rbrace] @ '':claimed'') = ''a''"
    by (simp add: hashTag_def indexByte_def)
  ultimately show ?thesis
    by (simp add: sameHashSlot_def keySlot_def newClaimKeys_def slotKey_def Let_def hashSlots_def
        crc16_a crc16_a_brace_b)
qed

end
