(* ===== verification/Redis.thy ===== *)
theory Redis
  imports Prelude "HOL-Library.Char_ord" "HOL-Library.List_Lexorder" "HOL-Library.Product_Lexorder" "HOL-Library.AList"
begin

text \<open>
  The Redis server is not part of this repository: the transports use it through the commands below.
  A server is a record of command functions on a keyspace \<open>'r\<close>; the locale \<open>redis_server\<close> states what
  the command reference documents of them, each key holding values of one type. A script runs
  atomically, so a script is a function on the keyspace. Expiry times are settable but do not remove
  keys here; a lapse of a key is a step of its own where a component relies on it.

  \<open>mem_redis\<close> is an in-memory keyspace that satisfies the laws; instances of theorems use it.
\<close>

record 'r redis =
  zscore :: "'r \<Rightarrow> string \<Rightarrow> string \<Rightarrow> real option"
  zrange :: "'r \<Rightarrow> string \<Rightarrow> (real \<times> string) list"
  zadd :: "string \<Rightarrow> real \<Rightarrow> string \<Rightarrow> 'r \<Rightarrow> 'r"
  zrem :: "string \<Rightarrow> string \<Rightarrow> 'r \<Rightarrow> 'r"
  hget :: "'r \<Rightarrow> string \<Rightarrow> string \<Rightarrow> string option"
  hset :: "string \<Rightarrow> string \<Rightarrow> string \<Rightarrow> 'r \<Rightarrow> 'r"
  hdel :: "string \<Rightarrow> string \<Rightarrow> 'r \<Rightarrow> 'r"
  lrange :: "'r \<Rightarrow> string \<Rightarrow> string list"
  lset_all :: "string \<Rightarrow> string list \<Rightarrow> 'r \<Rightarrow> 'r"
  strget :: "'r \<Rightarrow> string \<Rightarrow> string option"
  strset :: "string \<Rightarrow> string \<Rightarrow> 'r \<Rightarrow> 'r"
  strdel :: "string \<Rightarrow> 'r \<Rightarrow> 'r"
  intget :: "'r \<Rightarrow> string \<Rightarrow> int option"
  incrby :: "string \<Rightarrow> int \<Rightarrow> 'r \<Rightarrow> 'r"
  expire :: "string \<Rightarrow> int \<Rightarrow> 'r \<Rightarrow> 'r"

text \<open>\<open>LPUSH\<close> and \<open>RPOP\<close> on the list of a key, head first.\<close>

definition lpush :: "'r redis \<Rightarrow> string \<Rightarrow> string \<Rightarrow> 'r \<Rightarrow> 'r" where
  "lpush R k v r = lset_all R k (v # lrange R r k) r"

definition zcard :: "'r redis \<Rightarrow> 'r \<Rightarrow> string \<Rightarrow> nat" where
  "zcard R r k = length (zrange R r k)"

text \<open>\<open>ZRANGEBYSCORE key -inf hi LIMIT 0 n\<close>: members in the order of scores.\<close>

definition zrangebyscore :: "'r redis \<Rightarrow> 'r \<Rightarrow> string \<Rightarrow> real \<Rightarrow> nat \<Rightarrow> string list" where
  "zrangebyscore R r k hi n = take n (map snd (filter (\<lambda>p. fst p \<le> hi) (zrange R r k)))"

locale redis_server =
  fixes R :: "'r redis"
  assumes zscore_zadd [redis_simps]:
      "zscore R (zadd R k s m r) k' m' = (if k' = k \<and> m' = m then Some s else zscore R r k' m')"
    and zscore_zrem [redis_simps]:
      "zscore R (zrem R k m r) k' m' = (if k' = k \<and> m' = m then None else zscore R r k' m')"
    and zscore_frame [redis_simps]:
      "zscore R (hset R k f v r) = zscore R r" "zscore R (hdel R k f r) = zscore R r"
      "zscore R (lset_all R k l r) = zscore R r" "zscore R (strset R k v r) = zscore R r"
      "zscore R (strdel R k r) = zscore R r" "zscore R (incrby R k i r) = zscore R r"
      "zscore R (expire R k t r) = zscore R r"
    and zrange_zscore: "(s, m) \<in> set (zrange R r k) \<longleftrightarrow> zscore R r k m = Some s"
    and zrange_sorted: "sorted (zrange R r k)" "distinct (zrange R r k)"
    and hget_hset [redis_simps]:
      "hget R (hset R k f v r) k' f' = (if k' = k \<and> f' = f then Some v else hget R r k' f')"
    and hget_hdel [redis_simps]:
      "hget R (hdel R k f r) k' f' = (if k' = k \<and> f' = f then None else hget R r k' f')"
    and hget_frame [redis_simps]:
      "hget R (zadd R k s m r) = hget R r" "hget R (zrem R k m r) = hget R r"
      "hget R (lset_all R k l r) = hget R r" "hget R (strset R k v r) = hget R r"
      "hget R (strdel R k r) = hget R r" "hget R (incrby R k i r) = hget R r"
      "hget R (expire R k t r) = hget R r"
    and lrange_lset_all [redis_simps]:
      "lrange R (lset_all R k l r) k' = (if k' = k then l else lrange R r k')"
    and lrange_frame [redis_simps]:
      "lrange R (zadd R k s m r) = lrange R r" "lrange R (zrem R k m r) = lrange R r"
      "lrange R (hset R k f v r) = lrange R r" "lrange R (hdel R k f r) = lrange R r"
      "lrange R (strset R k v r) = lrange R r" "lrange R (strdel R k r) = lrange R r"
      "lrange R (incrby R k i r) = lrange R r" "lrange R (expire R k t r) = lrange R r"
    and strget_strset [redis_simps]:
      "strget R (strset R k v r) k' = (if k' = k then Some v else strget R r k')"
    and strget_strdel [redis_simps]:
      "strget R (strdel R k r) k' = (if k' = k then None else strget R r k')"
    and strget_frame [redis_simps]:
      "strget R (zadd R k s m r) = strget R r" "strget R (zrem R k m r) = strget R r"
      "strget R (hset R k f v r) = strget R r" "strget R (hdel R k f r) = strget R r"
      "strget R (lset_all R k l r) = strget R r" "strget R (incrby R k i r) = strget R r"
      "strget R (expire R k t r) = strget R r"
    and intget_incrby [redis_simps]:
      "intget R (incrby R k i r) k' =
         (if k' = k then Some (i + (case intget R r k of None \<Rightarrow> 0 | Some n \<Rightarrow> n)) else intget R r k')"
    and intget_frame [redis_simps]:
      "intget R (zadd R k s m r) = intget R r" "intget R (zrem R k m r) = intget R r"
      "intget R (hset R k f v r) = intget R r" "intget R (hdel R k f r) = intget R r"
      "intget R (lset_all R k l r) = intget R r" "intget R (strset R k v r) = intget R r"
      "intget R (strdel R k r) = intget R r" "intget R (expire R k t r) = intget R r"
begin

lemma zrange_members_distinct: "distinct (map snd (zrange R r k))"
proof -
  have "inj_on snd (set (zrange R r k))"
    by (rule inj_onI) (auto simp: zrange_zscore)
  then show ?thesis using zrange_sorted(2) by (simp add: distinct_map)
qed

lemma lrange_lpush [redis_simps]:
  "lrange R (lpush R k v r) k' = (if k' = k then v # lrange R r k else lrange R r k')"
  by (simp add: lpush_def redis_simps)

lemma lpush_frame [redis_simps]:
  "zscore R (lpush R k v r) = zscore R r" "hget R (lpush R k v r) = hget R r"
  "strget R (lpush R k v r) = strget R r" "intget R (lpush R k v r) = intget R r"
  by (simp_all add: lpush_def redis_simps)

end

section \<open>An in-memory keyspace\<close>

text \<open>A sorted set is kept as an association list and put in order when it is read.\<close>

record mem =
  mem_z :: "string \<Rightarrow> (string \<times> real) list"
  mem_h :: "string \<Rightarrow> string \<rightharpoonup> string"
  mem_l :: "string \<Rightarrow> string list"
  mem_s :: "string \<rightharpoonup> string"
  mem_i :: "string \<rightharpoonup> int"

definition empty_mem :: mem where
  "empty_mem = \<lparr> mem_z = (\<lambda>_. []), mem_h = (\<lambda>_. Map.empty), mem_l = (\<lambda>_. []),
                 mem_s = Map.empty, mem_i = Map.empty \<rparr>"

definition mem_redis :: "mem redis" where
  "mem_redis = \<lparr>
     zscore = (\<lambda>r k m. map_of (mem_z r k) m),
     zrange = (\<lambda>r k. sort (map (\<lambda>(m, s). (s, m)) (AList.clearjunk (mem_z r k)))),
     zadd = (\<lambda>k s m r. r \<lparr> mem_z := (mem_z r)(k := (m, s) # mem_z r k) \<rparr>),
     zrem = (\<lambda>k m r. r \<lparr> mem_z := (mem_z r)(k := filter (\<lambda>p. fst p \<noteq> m) (mem_z r k)) \<rparr>),
     hget = mem_h,
     hset = (\<lambda>k f v r. r \<lparr> mem_h := (mem_h r)(k := (mem_h r k)(f \<mapsto> v)) \<rparr>),
     hdel = (\<lambda>k f r. r \<lparr> mem_h := (mem_h r)(k := (mem_h r k)(f := None)) \<rparr>),
     lrange = mem_l,
     lset_all = (\<lambda>k l r. r \<lparr> mem_l := (mem_l r)(k := l) \<rparr>),
     strget = mem_s,
     strset = (\<lambda>k v r. r \<lparr> mem_s := (mem_s r)(k \<mapsto> v) \<rparr>),
     strdel = (\<lambda>k r. r \<lparr> mem_s := (mem_s r)(k := None) \<rparr>),
     intget = mem_i,
     incrby = (\<lambda>k i r. r \<lparr> mem_i := (mem_i r)(k \<mapsto> i + (case mem_i r k of None \<Rightarrow> 0 | Some n \<Rightarrow> n)) \<rparr>),
     expire = (\<lambda>_ _ r. r) \<rparr>"

lemma map_of_filter_neq: "map_of (filter (\<lambda>p. fst p \<noteq> m) xs) k = (if k = m then None else map_of xs k)"
  by (induction xs) auto

interpretation mr: redis_server mem_redis
proof (unfold_locales, goal_cases)
  case (10 s m r k)
  have "(m, s) \<in> set (AList.clearjunk (mem_z r k)) \<longleftrightarrow> map_of (mem_z r k) m = Some s"
    by (metis distinct_clearjunk map_of_clearjunk map_of_eq_Some_iff)
  then show ?case by (force simp: mem_redis_def image_iff)
next
  case (11 r k)
  show ?case by (simp add: mem_redis_def)
next
  case (12 r k)
  have "distinct (AList.clearjunk (mem_z r k))"
    using distinct_clearjunk [of "mem_z r k"] by (simp add: distinct_map)
  then show ?case by (auto simp: mem_redis_def distinct_map inj_on_def)
qed (auto simp: mem_redis_def map_of_filter_neq fun_eq_iff)

end
