(* ===== verification/Claim.thy ===== *)
theory Claim
  imports Api Keyslot Redis
begin

text \<open>
  Claims of the sorted-set transport (\<open>src/pkg/redis/claim.go\<close>): the Lua scripts as atomic functions
  on the keyspace, the Go functions that run them with the three outcomes of a network call, and the
  system in which any number of instances, producers and crashes interleave at the granularity of
  one script.

  The decoder of a member's text into a request is an argument. A fresh random claim token is an
  argument of the claim.
\<close>

section \<open>Scripts\<close>

definition claimScript :: "'r redis \<Rightarrow> claimKeys \<Rightarrow> string \<Rightarrow> string \<Rightarrow> string \<Rightarrow> real \<Rightarrow> 'r \<Rightarrow> int \<times> 'r" where
  [claim_defs]: "claimScript R keys claimID member token expiry r =
     (if zscore R r (ck_pending keys) member = None then (0, r)
      else (1, zadd R (ck_idx keys) expiry claimID
                (hset R (ck_owners keys) claimID token
                  (hset R (ck_claimed keys) claimID member
                    (zrem R (ck_pending keys) member r)))))"

definition dropClaim :: "'r redis \<Rightarrow> claimKeys \<Rightarrow> string \<Rightarrow> 'r \<Rightarrow> 'r" where
  [claim_defs]: "dropClaim R keys claimID r =
     zrem R (ck_idx keys) claimID (hdel R (ck_owners keys) claimID (hdel R (ck_claimed keys) claimID r))"

definition releaseClaimScript :: "'r redis \<Rightarrow> claimKeys \<Rightarrow> string \<Rightarrow> string \<Rightarrow> real \<Rightarrow> string \<Rightarrow> 'r \<Rightarrow> int \<times> 'r" where
  [claim_defs]: "releaseClaimScript R keys claimID member score token r =
     (if hget R r (ck_owners keys) claimID \<noteq> Some token then (0, r)
      else (1, dropClaim R keys claimID (zadd R (ck_pending keys) score member r)))"

definition pushResult :: "'r redis \<Rightarrow> string \<Rightarrow> string \<Rightarrow> int \<Rightarrow> 'r \<Rightarrow> 'r" where
  [claim_defs]: "pushResult R resultList resultJSON listTTL r =
     (let r' = lpush R resultList resultJSON r
      in if 0 < listTTL then expire R resultList listTTL r' else r')"

definition ackResultScript :: "'r redis \<Rightarrow> claimKeys \<Rightarrow> string \<Rightarrow> string option \<Rightarrow> string \<Rightarrow> string \<Rightarrow> string
    \<Rightarrow> int \<Rightarrow> 'r \<Rightarrow> int \<times> 'r" where
  [claim_defs]: "ackResultScript R keys resultList payloadKey claimID resultJSON token listTTL r =
     (if hget R r (ck_owners keys) claimID \<noteq> Some token \<or> token = '''' then (0, r)
      else let r' = dropClaim R keys claimID (pushResult R resultList resultJSON listTTL r)
           in (1, case payloadKey of None \<Rightarrow> r' | Some p \<Rightarrow> strdel R p r'))"

definition pushResultScript :: "'r redis \<Rightarrow> string \<Rightarrow> string \<Rightarrow> int \<Rightarrow> 'r \<Rightarrow> int \<times> 'r" where
  [claim_defs]: "pushResultScript R resultList resultJSON listTTL r =
     (1, pushResult R resultList resultJSON listTTL r)"

definition dropClaimScript :: "'r redis \<Rightarrow> claimKeys \<Rightarrow> string \<Rightarrow> string \<Rightarrow> 'r \<Rightarrow> int \<times> 'r" where
  [claim_defs]: "dropClaimScript R keys claimID token r =
     (if hget R r (ck_owners keys) claimID \<noteq> Some token then (0, r)
      else (1, dropClaim R keys claimID r))"

definition reclaimExpiredScript :: "'r redis \<Rightarrow> claimKeys \<Rightarrow> string \<Rightarrow> real \<Rightarrow> real \<Rightarrow> 'r \<Rightarrow> int \<times> 'r" where
  [claim_defs]: "reclaimExpiredScript R keys claimID score now r =
     (case zscore R r (ck_idx keys) claimID of
        None \<Rightarrow> (0, r)
      | Some e \<Rightarrow>
          if now < e then (0, r)
          else (case hget R r (ck_claimed keys) claimID of
                  None \<Rightarrow> (0, zrem R (ck_idx keys) claimID r)
                | Some payload \<Rightarrow> (1, dropClaim R keys claimID (zadd R (ck_pending keys) score payload r))))"

definition renewClaimScript :: "'r redis \<Rightarrow> claimKeys \<Rightarrow> string \<Rightarrow> real \<Rightarrow> string \<Rightarrow> 'r \<Rightarrow> int \<times> 'r" where
  [claim_defs]: "renewClaimScript R keys claimID expiry token r =
     (if hget R r (ck_owners keys) claimID \<noteq> Some token
      then (if hget R r (ck_claimed keys) claimID \<noteq> None then -1 else 0, r)
      else (1, zadd R (ck_idx keys) expiry claimID r))"

section \<open>The flow's operations\<close>

text \<open>A call succeeds, fails before it executes, or executes and loses its reply.\<close>

datatype io = IoOk | IoErr | IoLost

definition run_script :: "io \<Rightarrow> ('r \<Rightarrow> 'a \<times> 'r) \<Rightarrow> 'r \<Rightarrow> (unit + 'a) \<times> 'r" where
  "run_script i script r = (case i of
     IoOk \<Rightarrow> (Inr (fst (script r)), snd (script r))
   | IoErr \<Rightarrow> (Inl (), r)
   | IoLost \<Rightarrow> (Inl (), snd (script r)))"

definition claimKey :: "string \<Rightarrow> string \<Rightarrow> string" where
  "claimKey requestID requestToken =
     (if requestToken = '''' then requestID else requestID @ [CHR 0x00] @ requestToken)"

record claimHandle =
  ch_token :: string
  ch_queue :: string
  ch_deadline :: real
  ch_requestID :: string
  ch_requestToken :: string

record flow =
  fl_clusterKeys :: bool
  fl_claimLeaseTTL :: real
  fl_claimTokens :: "string \<rightharpoonup> claimHandle"

definition reclaimGraceAfterDeadline :: real where "reclaimGraceAfterDeadline = 300"

abbreviation (input) reclaimBatchSize :: nat where "reclaimBatchSize \<equiv> 100"

definition claimExpiry :: "flow \<Rightarrow> real \<Rightarrow> real \<Rightarrow> real" where
  "claimExpiry fl now deadline =
     (let expiry = now + fl_claimLeaseTTL fl in
      if 0 < deadline \<and> deadline + reclaimGraceAfterDeadline < expiry
      then deadline + reclaimGraceAfterDeadline else expiry)"

text \<open>A nil token stands for a failure of the random source; \<open>id\<close> and \<open>tok\<close> are the request's.\<close>

definition claimRequest :: "'r redis \<Rightarrow> io \<Rightarrow> real \<Rightarrow> string option \<Rightarrow> string \<Rightarrow> internal_request \<Rightarrow> string
    \<Rightarrow> real \<Rightarrow> flow \<times> 'r \<Rightarrow> (unit + string \<times> bool) \<times> flow \<times> 'r" where
  "claimRequest R i now newToken queueName ir member deadline s = (case s of (fl, r) \<Rightarrow>
     (case newToken of None \<Rightarrow> (Inl (), fl, r)
      | Some token \<Rightarrow>
          let keys = newClaimKeys queueName (fl_clusterKeys fl);
              reqID = (case PublicRequest ir of None \<Rightarrow> '''' | Some q \<Rightarrow> ReqID q);
              reqToken = RequestToken (Routing ir);
              claimID = claimKey reqID reqToken
          in (case run_script i (claimScript R keys claimID member token (claimExpiry fl now deadline)) r of
                (Inl _, r') \<Rightarrow> (Inl (), fl, r')
              | (Inr res, r') \<Rightarrow>
                  if res = 0 then (Inr ('''', False), fl, r')
                  else (Inr (token, True),
                        fl \<lparr> fl_claimTokens := (fl_claimTokens fl)(claimID \<mapsto>
                          \<lparr> ch_token = token, ch_queue = queueName, ch_deadline = deadline,
                            ch_requestID = reqID, ch_requestToken = reqToken \<rparr>) \<rparr>, r'))))"

definition forget :: "string \<Rightarrow> flow \<Rightarrow> flow" where
  "forget claimID fl = fl \<lparr> fl_claimTokens := (fl_claimTokens fl)(claimID := None) \<rparr>"

definition releaseClaim :: "'r redis \<Rightarrow> io \<Rightarrow> string \<Rightarrow> string \<Rightarrow> string \<Rightarrow> string \<Rightarrow> real \<Rightarrow> string
    \<Rightarrow> flow \<times> 'r \<Rightarrow> (unit + unit) \<times> flow \<times> 'r" where
  "releaseClaim R i queueName requestID requestToken member score token s = (case s of (fl, r) \<Rightarrow>
     let keys = newClaimKeys queueName (fl_clusterKeys fl);
         claimID = claimKey requestID requestToken
     in (case run_script i (releaseClaimScript R keys claimID member score token) r of
           (Inl _, r') \<Rightarrow> (Inl (), fl, r')
         | (Inr _, r') \<Rightarrow> (Inr (), forget claimID fl, r')))"

definition held_token :: "flow \<Rightarrow> string \<Rightarrow> string" where
  "held_token fl claimID = (case fl_claimTokens fl claimID of None \<Rightarrow> '''' | Some h \<Rightarrow> ch_token h)"

definition held_deadline :: "flow \<Rightarrow> string \<Rightarrow> real" where
  "held_deadline fl claimID = (case fl_claimTokens fl claimID of None \<Rightarrow> 0 | Some h \<Rightarrow> ch_deadline h)"

text \<open>
  The cluster ack when the result list lives in another slot: fence by renewing the lease, push the
  record, drop the claim; \<open>i1\<close>, \<open>i2\<close>, \<open>i3\<close> are the outcomes of the three calls.
\<close>

definition ackResultCluster :: "'r redis \<Rightarrow> io \<Rightarrow> io \<Rightarrow> io \<Rightarrow> real \<Rightarrow> claimKeys \<Rightarrow> string \<Rightarrow> string \<Rightarrow> real \<Rightarrow> string
    \<Rightarrow> string \<Rightarrow> int \<Rightarrow> flow \<times> 'r \<Rightarrow> (unit + bool) \<times> flow \<times> 'r" where
  "ackResultCluster R i1 i2 i3 now keys resultList claimID deadline token resultJSON listTTLSec s =
     (case s of (fl, r) \<Rightarrow>
       if sameHashSlot (ck_owners keys) resultList then
         (case run_script i1 (ackResultScript R keys resultList None claimID resultJSON token listTTLSec) r of
            (Inl _, r') \<Rightarrow> (Inl (), fl, r')
          | (Inr res, r') \<Rightarrow> (Inr (res = 1), forget claimID fl, r'))
       else
         (case run_script i1 (renewClaimScript R keys claimID (claimExpiry fl now deadline) token) r of
            (Inl _, r1) \<Rightarrow> (Inl (), fl, r1)
          | (Inr res, r1) \<Rightarrow>
              if res \<noteq> 1 then (Inr False, forget claimID fl, r1)
              else (case run_script i2 (pushResultScript R resultList resultJSON listTTLSec) r1 of
                      (Inl _, r2) \<Rightarrow> (Inl (), fl, r2)
                    | (Inr _, r2) \<Rightarrow>
                        (Inr True, forget claimID fl,
                         snd (run_script i3 (dropClaimScript R keys claimID token) r2)))))"

definition ackResult :: "'r redis \<Rightarrow> io \<Rightarrow> io \<Rightarrow> io \<Rightarrow> io \<Rightarrow> real \<Rightarrow> string \<Rightarrow> string \<Rightarrow> string \<Rightarrow> string \<Rightarrow> string
    \<Rightarrow> string \<Rightarrow> int \<Rightarrow> flow \<times> 'r \<Rightarrow> (unit + bool) \<times> flow \<times> 'r" where
  "ackResult R i1 i2 i3 i4 now claimQueueName resultList requestID requestToken payloadRef resultJSON
       listTTLSec s =
     (case s of (fl, r) \<Rightarrow>
       let claimID = claimKey requestID requestToken;
           token = held_token fl claimID;
           deadline = held_deadline fl claimID;
           keys = newClaimKeys claimQueueName (fl_clusterKeys fl);
           ttl = max 0 listTTLSec
       in if fl_clusterKeys fl then
            (case ackResultCluster R i1 i2 i3 now keys resultList claimID deadline token resultJSON ttl (fl, r) of
               (Inr True, fl', r') \<Rightarrow>
                 (Inr True, fl', if payloadRef \<noteq> '''' then snd (run_script i4 (\<lambda>r. ((), strdel R payloadRef r)) r')
                                 else r')
             | (res, fl', r') \<Rightarrow> (res, fl', r'))
          else
            (case run_script i1 (ackResultScript R keys resultList
                    (if payloadRef = '''' then None else Some payloadRef) claimID resultJSON token ttl) r of
               (Inl _, r') \<Rightarrow> (Inl (), fl, r')
             | (Inr res, r') \<Rightarrow> (Inr (res \<noteq> 0), forget claimID fl, r')))"

definition renewClaim :: "'r redis \<Rightarrow> io \<Rightarrow> real \<Rightarrow> string \<Rightarrow> string \<Rightarrow> string \<Rightarrow> real \<Rightarrow> string
    \<Rightarrow> flow \<times> 'r \<Rightarrow> (unit + int) \<times> 'r" where
  "renewClaim R i now queueName requestID requestToken deadline token s = (case s of (fl, r) \<Rightarrow>
     let keys = newClaimKeys queueName (fl_clusterKeys fl);
         claimID = claimKey requestID requestToken
     in run_script i (renewClaimScript R keys claimID (claimExpiry fl now deadline) token) r)"

text \<open>
  The heartbeat visits the held claims in an order \<open>ids\<close> of the map's choosing, each call with its own
  outcome.
\<close>

fun heartbeatClaims :: "'r redis \<Rightarrow> real \<Rightarrow> (string \<times> io) list \<Rightarrow> flow \<times> 'r \<Rightarrow> flow \<times> 'r" where
  "heartbeatClaims R now [] s = s"
| "heartbeatClaims R now ((k, i) # ids) (fl, r) =
     (case fl_claimTokens fl k of
        None \<Rightarrow> heartbeatClaims R now ids (fl, r)
      | Some h \<Rightarrow>
          if k = '''' then heartbeatClaims R now ids (fl, r)
          else (case renewClaim R i now (ch_queue h)
                       (if ch_requestID h = '''' then k else ch_requestID h) (ch_requestToken h)
                       (ch_deadline h) (ch_token h) (fl, r) of
                  (Inl _, r') \<Rightarrow> heartbeatClaims R now ids (fl, r')
                | (Inr res, r') \<Rightarrow>
                    heartbeatClaims R now ids (if res \<noteq> 1 then forget k fl else fl, r')))"

text \<open>
  One queue of the reclaimer: the expired claims are listed once, then each is read, scored and handed
  to the script. Each of the two calls per claim has its outcome; a failed call ends the pass.
\<close>

definition reclaim_score :: "(string \<Rightarrow> internal_request option) \<Rightarrow> string option \<Rightarrow> real" where
  "reclaim_score decode payload = (case payload of None \<Rightarrow> 0
     | Some t \<Rightarrow> (case decode t of None \<Rightarrow> 0
        | Some ir \<Rightarrow> if PublicRequest ir = None then 0 else QueueScore ir))"

fun reclaimIDs :: "'r redis \<Rightarrow> (string \<Rightarrow> internal_request option) \<Rightarrow> claimKeys \<Rightarrow> real \<Rightarrow> (string \<times> io \<times> io) list
    \<Rightarrow> nat \<Rightarrow> 'r \<Rightarrow> bool \<times> nat \<times> 'r" where
  "reclaimIDs R decode keys now [] released r = (True, released, r)"
| "reclaimIDs R decode keys now ((k, i, j) # ids) released r =
     (if i \<noteq> IoOk then (False, released, r)
      else (case run_script j (reclaimExpiredScript R keys k
                   (reclaim_score decode (hget R r (ck_claimed keys) k)) now) r of
              (Inl _, r') \<Rightarrow> (False, released, r')
            | (Inr res, r') \<Rightarrow> reclaimIDs R decode keys now ids (if res = 1 then released + 1 else released) r'))"

fun reclaimExpiredClaims :: "'r redis \<Rightarrow> (string \<Rightarrow> internal_request option) \<Rightarrow> bool \<Rightarrow> real
    \<Rightarrow> (string \<times> io \<times> (string \<Rightarrow> io \<times> io)) list \<Rightarrow> nat \<Rightarrow> 'r \<Rightarrow> bool \<times> nat \<times> 'r" where
  "reclaimExpiredClaims R decode cluster now [] released r = (True, released, r)"
| "reclaimExpiredClaims R decode cluster now ((queueName, i, out) # queues) released r =
     (let keys = newClaimKeys queueName cluster in
      if i \<noteq> IoOk then (False, released, r)
      else (case reclaimIDs R decode keys now
                   (map (\<lambda>k. (k, out k)) (zrangebyscore R r (ck_idx keys) now reclaimBatchSize)) released r of
              (False, n, r') \<Rightarrow> (False, n, r')
            | (True, n, r') \<Rightarrow> reclaimExpiredClaims R decode cluster now queues n r'))"

definition heartbeatInterval :: "int \<Rightarrow> int" where
  "heartbeatInterval claimLeaseTTL =
     (let hb = claimLeaseTTL div 3;
          hb1 = (if hb < 1000000000 then 1000000000 else hb)
      in if 30 * 1000000000 < hb1 then 30 * 1000000000 else hb1)"

section \<open>Interleavings\<close>

text \<open>
  The claim identifier a member's text carries, and the keyspace of one queue with ghost
  components: the identifiers ever enqueued, the tokens ever drawn, and the deliveries: the atomic
  acks in order, and the pushes of the cross-slot ack, each after a renewal that found its token current. A step is one script run, with arguments as the
  Go code passes them; \<open>other\<close> is any command of anyone on other keys. Crashes need no step: an
  instance that dies simply takes no further one.
\<close>

definition cid :: "(string \<Rightarrow> internal_request option) \<Rightarrow> string \<Rightarrow> string option" where
  "cid decode m = (case decode m of None \<Rightarrow> None
     | Some ir \<Rightarrow> map_option (\<lambda>q. claimKey (ReqID q) (RequestToken (Routing ir))) (PublicRequest ir))"

record 'r csys =
  cs_r :: 'r
  cs_enq :: "string set"
  cs_used :: "string set"
  cs_acks :: "(string \<times> string) list"
  cs_fence :: "(string \<times> string) set"
  cs_pushed :: "(string \<times> string) set"

inductive cstep :: "'r redis \<Rightarrow> (string \<Rightarrow> internal_request option) \<Rightarrow> claimKeys \<Rightarrow> 'r csys \<Rightarrow> 'r csys \<Rightarrow> bool"
  for R decode keys where
  enqueue: "cid decode m = Some k \<Longrightarrow>
     cstep R decode keys s (s \<lparr> cs_r := zadd R (ck_pending keys) sc m (cs_r s), cs_enq := insert k (cs_enq s) \<rparr>)"
| claim: "cid decode m = Some k \<Longrightarrow> tok \<notin> cs_used s \<Longrightarrow> tok \<noteq> '''' \<Longrightarrow>
     cstep R decode keys s (s \<lparr> cs_r := snd (claimScript R keys k m tok e (cs_r s)),
                                cs_used := insert tok (cs_used s) \<rparr>)"
| release: "cid decode m = Some k \<Longrightarrow>
     cstep R decode keys s (s \<lparr> cs_r := snd (releaseClaimScript R keys k m sc tok (cs_r s)) \<rparr>)"
| ack: "ackResultScript R keys rl pk k js tok ttl (cs_r s) = (res, r') \<Longrightarrow>
     cstep R decode keys s (s \<lparr> cs_r := r', cs_acks := (if res = 1 then cs_acks s @ [(k, tok)] else cs_acks s) \<rparr>)"
| push: "(k, tok) \<in> cs_fence s \<Longrightarrow> cstep R decode keys s (s \<lparr> cs_r := snd (pushResultScript R rl js ttl (cs_r s)),
                                   cs_pushed := insert (k, tok) (cs_pushed s) \<rparr>)"
| drop_claim: "(k, tok) \<in> cs_pushed s \<Longrightarrow>
     cstep R decode keys s (s \<lparr> cs_r := snd (dropClaimScript R keys k tok (cs_r s)) \<rparr>)"
| reclaim: "cstep R decode keys s (s \<lparr> cs_r := snd (reclaimExpiredScript R keys k sc now (cs_r s)) \<rparr>)"
| renew: "renewClaimScript R keys k e tok (cs_r s) = (res, r') \<Longrightarrow>
     cstep R decode keys s (s \<lparr> cs_r := r', cs_fence := (if res = 1 then insert (k, tok) (cs_fence s) else cs_fence s) \<rparr>)"
| readd: "cid decode m = Some k \<Longrightarrow>
     cstep R decode keys s (s \<lparr> cs_r := zadd R (ck_pending keys) sc m (cs_r s) \<rparr>)"
| junk: "cid decode m = None \<Longrightarrow>
     cstep R decode keys s (s \<lparr> cs_r := zrem R (ck_pending keys) m (cs_r s) \<rparr>)"
| other: "zscore R r' (ck_pending keys) = zscore R (cs_r s) (ck_pending keys) \<Longrightarrow>
     zscore R r' (ck_idx keys) = zscore R (cs_r s) (ck_idx keys) \<Longrightarrow>
     hget R r' (ck_claimed keys) = hget R (cs_r s) (ck_claimed keys) \<Longrightarrow>
     hget R r' (ck_owners keys) = hget R (cs_r s) (ck_owners keys) \<Longrightarrow>
     cstep R decode keys s (s \<lparr> cs_r := r' \<rparr>)"

inductive csteps :: "'r redis \<Rightarrow> (string \<Rightarrow> internal_request option) \<Rightarrow> claimKeys \<Rightarrow> 'r csys \<Rightarrow> 'r csys \<Rightarrow> bool"
  for R decode keys where
  csteps_refl: "csteps R decode keys s s"
| csteps_more: "csteps R decode keys s t \<Longrightarrow> cstep R decode keys t u \<Longrightarrow> csteps R decode keys s u"

lemma csteps_single: "cstep R decode keys s t \<Longrightarrow> csteps R decode keys s t"
  by (rule csteps_more [OF csteps_refl])

lemma csteps_trans: "csteps R decode keys t u \<Longrightarrow> csteps R decode keys s t \<Longrightarrow> csteps R decode keys s u"
  by (induction rule: csteps.induct) (auto intro: csteps_more)

text \<open>A keyspace in which the queue has no member and no claim.\<close>

definition fresh_queue :: "'r redis \<Rightarrow> claimKeys \<Rightarrow> 'r csys \<Rightarrow> bool" where
  "fresh_queue R keys s \<longleftrightarrow>
     zscore R (cs_r s) (ck_pending keys) = Map.empty \<and> zscore R (cs_r s) (ck_idx keys) = Map.empty \<and>
     hget R (cs_r s) (ck_claimed keys) = Map.empty \<and> hget R (cs_r s) (ck_owners keys) = Map.empty \<and>
     cs_enq s = {} \<and> cs_used s = {} \<and> cs_acks s = [] \<and> cs_fence s = {} \<and> cs_pushed s = {}"

definition pending_has :: "'r redis \<Rightarrow> (string \<Rightarrow> internal_request option) \<Rightarrow> claimKeys \<Rightarrow> 'r \<Rightarrow> string \<Rightarrow> bool" where
  "pending_has R decode keys r k \<longleftrightarrow>
     (\<exists>m. zscore R r (ck_pending keys) m \<noteq> None \<and> cid decode m = Some k)"

text \<open>The three bookkeeping keys agree, and a claim stores a member of its own identifier.\<close>

definition claim_wf :: "'r redis \<Rightarrow> (string \<Rightarrow> internal_request option) \<Rightarrow> claimKeys \<Rightarrow> 'r \<Rightarrow> bool" where
  "claim_wf R decode keys r \<longleftrightarrow>
     (\<forall>k. (hget R r (ck_claimed keys) k = None \<longleftrightarrow> hget R r (ck_owners keys) k = None) \<and>
          (hget R r (ck_claimed keys) k = None \<longleftrightarrow> zscore R r (ck_idx keys) k = None)) \<and>
     (\<forall>k m. hget R r (ck_claimed keys) k = Some m \<longrightarrow> cid decode m = Some k)"

definition no_loss :: "'r redis \<Rightarrow> (string \<Rightarrow> internal_request option) \<Rightarrow> claimKeys \<Rightarrow> 'r csys \<Rightarrow> bool" where
  "no_loss R decode keys s \<longleftrightarrow>
     (\<forall>k \<in> cs_enq s. pending_has R decode keys (cs_r s) k \<or> hget R (cs_r s) (ck_claimed keys) k \<noteq> None
        \<or> k \<in> fst ` set (cs_acks s) \<or> k \<in> fst ` cs_pushed s)"

definition fenced :: "'r redis \<Rightarrow> claimKeys \<Rightarrow> 'r csys \<Rightarrow> bool" where
  "fenced R keys s \<longleftrightarrow>
     (\<forall>k tok. hget R (cs_r s) (ck_owners keys) k = Some tok \<longrightarrow>
        tok \<in> cs_used s \<and> tok \<noteq> '''' \<and> tok \<notin> snd ` set (cs_acks s) \<and>
        (\<forall>k'. hget R (cs_r s) (ck_owners keys) k' = Some tok \<longrightarrow> k' = k)) \<and>
     snd ` set (cs_acks s) \<subseteq> cs_used s \<and> distinct (map snd (cs_acks s))"

definition keys_distinct :: "claimKeys \<Rightarrow> bool" where
  "keys_distinct keys \<longleftrightarrow> ck_pending keys \<noteq> ck_idx keys \<and> ck_claimed keys \<noteq> ck_owners keys"

lemma newClaimKeys_distinct: "keys_distinct (newClaimKeys q c)"
proof -
  have "length q \<le> length (slotKey q c)" by (simp add: slotKey_def)
  then have "length q < length (slotKey q c @ '':claims-idx'')" by simp
  then have "q \<noteq> slotKey q c @ '':claims-idx''" by (metis order_less_irrefl)
  then show ?thesis by (simp add: keys_distinct_def newClaimKeys_def Let_def)
qed

context redis_server
begin

lemma dropClaim_obs [redis_simps]:
  "zscore R (dropClaim R keys k r) z m =
     (if z = ck_idx keys \<and> m = k then None else zscore R r z m)"
  "hget R (dropClaim R keys k r) h f =
     (if (h = ck_owners keys \<or> h = ck_claimed keys) \<and> f = k then None else hget R r h f)"
  by (auto simp: dropClaim_def redis_simps)

lemma pushResult_obs [redis_simps]:
  "zscore R (pushResult R l j t r) = zscore R r" "hget R (pushResult R l j t r) = hget R r"
  by (auto simp: pushResult_def Let_def redis_simps)

lemma ack_obs:
  assumes "ackResultScript R keys rl pk k js tok ttl r = (res, r')"
  shows "if hget R r (ck_owners keys) k = Some tok \<and> tok \<noteq> ''''
         then res = 1 \<and> zscore R r' = zscore R (dropClaim R keys k r) \<and> hget R r' = hget R (dropClaim R keys k r)
         else res = 0 \<and> r' = r"
  using assms by (auto simp: ackResultScript_def Let_def redis_simps fun_eq_iff split: option.splits if_splits)

lemma claim_wf_drop: "claim_wf R decode keys r \<Longrightarrow> claim_wf R decode keys (dropClaim R keys k r)"
  by (auto simp: claim_wf_def redis_simps split: if_splits)

lemma claim_wf_cong:
  assumes "claim_wf R decode keys r" "zscore R r' (ck_idx keys) = zscore R r (ck_idx keys)"
    "hget R r' (ck_claimed keys) = hget R r (ck_claimed keys)"
    "hget R r' (ck_owners keys) = hget R r (ck_owners keys)"
  shows "claim_wf R decode keys r'"
  using assms(1) unfolding claim_wf_def assms(2-4) .

lemma claim_wf_zadd_pending:
  "keys_distinct keys \<Longrightarrow> claim_wf R decode keys r \<Longrightarrow> claim_wf R decode keys (zadd R (ck_pending keys) sc m r)"
  by (auto simp: claim_wf_def keys_distinct_def redis_simps)

lemma claim_wf_claim:
  "keys_distinct keys \<Longrightarrow> claim_wf R decode keys r \<Longrightarrow> cid decode m = Some k \<Longrightarrow>
   claim_wf R decode keys (snd (claimScript R keys k m tok e r))"
  by (auto simp: claim_wf_def keys_distinct_def claimScript_def redis_simps split: if_splits)

lemma claim_wf_reclaim:
  "keys_distinct keys \<Longrightarrow> claim_wf R decode keys r \<Longrightarrow>
   claim_wf R decode keys (snd (reclaimExpiredScript R keys k sc now r))"
proof -
  assume d: "keys_distinct keys" and wf: "claim_wf R decode keys r"
  have "hget R r (ck_claimed keys) k \<noteq> None" if "zscore R r (ck_idx keys) k \<noteq> None"
    using wf that unfolding claim_wf_def by metis
  then show ?thesis
    using wf claim_wf_drop [OF claim_wf_zadd_pending [OF d wf]]
    by (auto simp: reclaimExpiredScript_def split: option.split)
qed

lemma claim_wf_renew:
  "claim_wf R decode keys r \<Longrightarrow> claim_wf R decode keys (snd (renewClaimScript R keys k e tok r))"
  by (auto simp: claim_wf_def renewClaimScript_def redis_simps split: if_splits)

lemma cstep_claim_wf:
  assumes "cstep R decode keys s t" "keys_distinct keys" "claim_wf R decode keys (cs_r s)"
  shows "claim_wf R decode keys (cs_r t)"
  using assms
proof (induction rule: cstep.induct)
  case (release m k s sc tok)
  then show ?case by (simp add: releaseClaimScript_def claim_wf_drop claim_wf_zadd_pending)
next
  case (ack rl pk k js tok ttl s res r')
  then show ?case using ack_obs [OF ack.hyps]
    by (auto intro: claim_wf_cong [OF claim_wf_drop] split: if_splits)
next
  case (push k tok s rl js ttl)
  then show ?case by (auto simp: pushResultScript_def redis_simps intro: claim_wf_cong)
next
  case (drop_claim k tok s)
  then show ?case by (simp add: dropClaimScript_def claim_wf_drop)
next
  case (renew k e tok s res r')
  then show ?case using claim_wf_renew [of decode keys "cs_r s" k e tok] by simp
next
  case (junk m s)
  then show ?case by (auto simp: claim_wf_def keys_distinct_def redis_simps)
next
  case (other r' s)
  then show ?case by (auto intro: claim_wf_cong)
qed (simp_all add: claim_wf_zadd_pending claim_wf_claim claim_wf_reclaim)

end

context redis_server
begin

lemma pending_zadd [redis_simps]:
  "pending_has R decode keys (zadd R (ck_pending keys) sc m r) k \<longleftrightarrow>
     cid decode m = Some k \<or> pending_has R decode keys r k"
  by (auto simp: pending_has_def redis_simps)

lemma pending_cong:
  "zscore R r' (ck_pending keys) = zscore R r (ck_pending keys) \<Longrightarrow>
   pending_has R decode keys r' k = pending_has R decode keys r k"
  by (simp add: pending_has_def)

lemma pending_zrem:
  "pending_has R decode keys r k \<Longrightarrow> cid decode m \<noteq> Some k \<Longrightarrow>
   pending_has R decode keys (zrem R (ck_pending keys) m r) k"
  by (auto simp: pending_has_def redis_simps)

lemma pending_drop [redis_simps]:
  "keys_distinct keys \<Longrightarrow>
   pending_has R decode keys (dropClaim R keys k' r) k = pending_has R decode keys r k"
  by (rule pending_cong) (auto simp: redis_simps keys_distinct_def)

lemma claim_no_loss:
  assumes d: "keys_distinct keys" and m: "cid decode m = Some k"
    and "pending_has R decode keys r k' \<or> hget R r (ck_claimed keys) k' \<noteq> None"
  shows "pending_has R decode keys (snd (claimScript R keys k m tok e r)) k' \<or>
         hget R (snd (claimScript R keys k m tok e r)) (ck_claimed keys) k' \<noteq> None"
proof (cases "zscore R r (ck_pending keys) m = None \<or> k' = k")
  case True
  then show ?thesis using assms
    by (auto simp: claimScript_def redis_simps keys_distinct_def)
next
  case False
  let ?r = "snd (claimScript R keys k m tok e r)"
  have "pending_has R decode keys ?r k'" if "pending_has R decode keys r k'"
  proof -
    have "pending_has R decode keys (zrem R (ck_pending keys) m r) k'"
      using that m False by (intro pending_zrem) auto
    then show ?thesis
      by (rule pending_cong [THEN iffD2, rotated])
        (use False d in \<open>auto simp: claimScript_def redis_simps keys_distinct_def\<close>)
  qed
  then show ?thesis using assms(3) False d
    by (auto simp: claimScript_def redis_simps keys_distinct_def)
qed

lemma reclaim_no_loss:
  assumes d: "keys_distinct keys" and wf: "claim_wf R decode keys r"
    and "pending_has R decode keys r k' \<or> hget R r (ck_claimed keys) k' \<noteq> None"
  shows "pending_has R decode keys (snd (reclaimExpiredScript R keys k sc now r)) k' \<or>
         hget R (snd (reclaimExpiredScript R keys k sc now r)) (ck_claimed keys) k' \<noteq> None"
proof -
  have "hget R r (ck_claimed keys) k \<noteq> None" if "zscore R r (ck_idx keys) k \<noteq> None"
    using wf that unfolding claim_wf_def by metis
  moreover have "cid decode m = Some k" if "hget R r (ck_claimed keys) k = Some m" for m
    using wf that unfolding claim_wf_def by metis
  ultimately show ?thesis using assms(3) d
    by (auto simp: reclaimExpiredScript_def redis_simps split: option.split)
qed

lemma cstep_no_loss:
  assumes "cstep R decode keys s t" "keys_distinct keys" "claim_wf R decode keys (cs_r s)"
    "no_loss R decode keys s"
  shows "no_loss R decode keys t"
  using assms
proof (induction rule: cstep.induct)
  case (claim m k tok s e)
  then show ?case using claim_no_loss [OF claim.prems(1) claim.hyps(1), of "cs_r s" _ tok e]
    by (auto simp: no_loss_def)
next
  case (release m k s sc tok)
  then show ?case by (auto simp: no_loss_def releaseClaimScript_def redis_simps)
next
  case (ack rl pk k js tok ttl s res r')
  let ?c = "hget R (cs_r s) (ck_owners keys) k = Some tok \<and> tok \<noteq> ''''"
  have "pending_has R decode keys r' = pending_has R decode keys (cs_r s) \<and> (?c \<longrightarrow> res = 1) \<and>
        (\<forall>k'. hget R r' (ck_claimed keys) k' = (if ?c \<and> k' = k then None else hget R (cs_r s) (ck_claimed keys) k'))"
    using ack_obs [OF ack.hyps] ack.prems(1)
    by (auto simp: pending_has_def fun_eq_iff redis_simps keys_distinct_def split: if_splits)
  then show ?case using ack.prems(3) by (auto simp: no_loss_def)
next
  case (push k tok s rl js ttl)
  then show ?case
    by (auto simp: no_loss_def pushResultScript_def redis_simps pending_has_def)
next
  case (drop_claim k tok s)
  then show ?case by (force simp: no_loss_def dropClaimScript_def redis_simps)
next
  case (reclaim s k sc now)
  then show ?case using reclaim_no_loss [OF reclaim.prems(1,2), of _ k sc now]
    by (auto simp: no_loss_def)
next
  case (renew k e tok s res r')
  then have "zscore R r' (ck_pending keys) = zscore R (cs_r s) (ck_pending keys) \<and>
      hget R r' (ck_claimed keys) = hget R (cs_r s) (ck_claimed keys)"
    by (auto simp: renewClaimScript_def redis_simps keys_distinct_def fun_eq_iff split: if_splits)
  then show ?case using renew.prems(3) by (auto simp: no_loss_def pending_has_def)
next
  case (junk m s)
  then show ?case by (auto simp: no_loss_def redis_simps intro: pending_zrem)
next
  case (other r' s)
  then show ?case by (auto simp: no_loss_def pending_has_def)
qed (auto simp: no_loss_def redis_simps)

end

context redis_server
begin

text \<open>Every step keeps an owner, removes one, or installs a token drawn now.\<close>

lemma cstep_owners:
  assumes "cstep R decode keys s t" "keys_distinct keys"
  shows "cs_used s \<subseteq> cs_used t \<and>
    (\<forall>k tok. hget R (cs_r t) (ck_owners keys) k = Some tok \<longrightarrow>
       hget R (cs_r s) (ck_owners keys) k = Some tok \<or>
       tok \<notin> cs_used s \<and> tok \<in> cs_used t \<and> tok \<noteq> '''' \<and> cs_acks t = cs_acks s \<and>
       (\<forall>k'. hget R (cs_r t) (ck_owners keys) k' = Some tok \<longrightarrow> k' = k \<or> hget R (cs_r s) (ck_owners keys) k' = Some tok))"
  using assms
proof (induction rule: cstep.induct)
  case (ack rl pk k js tok ttl s res r')
  then show ?case using ack_obs [OF ack.hyps] by (auto simp: redis_simps split: if_splits)
next
  case (renew k e tok s res r')
  then show ?case by (auto simp: renewClaimScript_def redis_simps split: if_splits)
qed (auto simp: claim_defs redis_simps keys_distinct_def Let_def split: if_splits option.splits)

lemma cstep_acks:
  assumes "cstep R decode keys s t" "keys_distinct keys"
  shows "cs_acks t = cs_acks s \<or>
    (\<exists>k tok. cs_acks t = cs_acks s @ [(k, tok)] \<and> hget R (cs_r s) (ck_owners keys) k = Some tok \<and>
       hget R (cs_r t) (ck_owners keys) = (hget R (cs_r s) (ck_owners keys))(k := None) \<and> cs_used t = cs_used s)"
  using assms
proof (induction rule: cstep.induct)
  case (ack rl pk k js tok ttl s res r')
  then show ?case using ack_obs [OF ack.hyps]
    by (auto simp: redis_simps keys_distinct_def fun_eq_iff split: if_splits)
qed auto

lemma cstep_fenced:
  assumes step: "cstep R decode keys s t" "keys_distinct keys" and f: "fenced R keys s"
  shows "fenced R keys t"
  using cstep_acks [OF step]
proof
  assume eq: "cs_acks t = cs_acks s"
  have "tok \<in> cs_used t \<and> tok \<noteq> '''' \<and> tok \<notin> snd ` set (cs_acks t) \<and>
        (\<forall>k'. hget R (cs_r t) (ck_owners keys) k' = Some tok \<longrightarrow> k' = k)"
    if k: "hget R (cs_r t) (ck_owners keys) k = Some tok" for k tok
  proof (cases "hget R (cs_r s) (ck_owners keys) k = Some tok")
    case True
    with f have "tok \<in> cs_used s" unfolding fenced_def by blast
    moreover have "hget R (cs_r s) (ck_owners keys) k' = Some tok"
      if "hget R (cs_r t) (ck_owners keys) k' = Some tok" for k'
      using cstep_owners [OF step] that \<open>tok \<in> cs_used s\<close> by blast
    ultimately show ?thesis using True f cstep_owners [OF step] eq unfolding fenced_def by (metis subsetD)
  next
    case False
    with cstep_owners [OF step] k have new: "tok \<notin> cs_used s" "tok \<in> cs_used t" "tok \<noteq> ''''"
      "\<forall>k'. hget R (cs_r t) (ck_owners keys) k' = Some tok \<longrightarrow>
            k' = k \<or> hget R (cs_r s) (ck_owners keys) k' = Some tok" by blast+
    then show ?thesis using f eq unfolding fenced_def by (metis subsetD)
  qed
  then show ?thesis using f eq cstep_owners [OF step] unfolding fenced_def by (metis subset_trans)
next
  assume "\<exists>k tok. cs_acks t = cs_acks s @ [(k, tok)] \<and> hget R (cs_r s) (ck_owners keys) k = Some tok \<and>
       hget R (cs_r t) (ck_owners keys) = (hget R (cs_r s) (ck_owners keys))(k := None) \<and> cs_used t = cs_used s"
  then obtain k tok where "cs_acks t = cs_acks s @ [(k, tok)]" "hget R (cs_r s) (ck_owners keys) k = Some tok"
    "hget R (cs_r t) (ck_owners keys) = (hget R (cs_r s) (ck_owners keys))(k := None)" "cs_used t = cs_used s"
    by blast
  then show ?thesis using f unfolding fenced_def
    by (simp add: fun_upd_def) (metis option.distinct(1))
qed

text \<open>The invariant of the claim protocol.\<close>

lemma csteps_invariant:
  assumes "csteps R decode keys s t" "keys_distinct keys"
    "claim_wf R decode keys (cs_r s)" "no_loss R decode keys s" "fenced R keys s"
  shows "claim_wf R decode keys (cs_r t) \<and> no_loss R decode keys t \<and> fenced R keys t"
  using assms by (induction rule: csteps.induct) (auto intro: cstep_claim_wf cstep_no_loss cstep_fenced)

lemma fresh_queue_invariant:
  "fresh_queue R keys s \<Longrightarrow>
   claim_wf R decode keys (cs_r s) \<and> no_loss R decode keys s \<and> fenced R keys s"
  by (simp add: fresh_queue_def claim_wf_def no_loss_def fenced_def)

text \<open>A token that was drawn and does not own its claim never owns it again.\<close>

lemma stale_forever:
  assumes "csteps R decode keys s t" "keys_distinct keys"
    "tok \<in> cs_used s" "hget R (cs_r s) (ck_owners keys) k \<noteq> Some tok"
  shows "tok \<in> cs_used t \<and> hget R (cs_r t) (ck_owners keys) k \<noteq> Some tok"
  using assms
proof (induction rule: csteps.induct)
  case (csteps_more s t u)
  then show ?case using cstep_owners [OF csteps_more.hyps(2)] by blast
qed auto

end

section \<open>The flow's operations are sequences of steps\<close>

lemma run_script_step:
  assumes "\<And>r'. r' = snd (script (cs_r s)) \<Longrightarrow> \<exists>t. csteps R decode keys s t \<and> cs_r t = r'"
  shows "\<exists>t. csteps R decode keys s t \<and> cs_r t = snd (run_script i script (cs_r s))"
  using assms by (cases i) (auto simp: run_script_def intro: exI [of _ s] csteps_refl)

lemma run_script_outcomes:
  "run_script IoOk script r = (Inr (fst (script r)), snd (script r))"
  "run_script IoErr script r = (Inl (), r)"
  "run_script IoLost script r = (Inl (), snd (script r))"
  by (simp_all add: run_script_def)

lemma claimRequest_steps:
  assumes "PublicRequest ir = Some pr" "cid decode member = Some (claimKey (ReqID pr) (RequestToken (Routing ir)))"
    "\<forall>tok. newToken = Some tok \<longrightarrow> tok \<notin> cs_used s \<and> tok \<noteq> ''''"
    "keys = newClaimKeys q (fl_clusterKeys fl)"
  shows "\<exists>t. csteps R decode keys s t \<and>
             cs_r t = snd (snd (claimRequest R i now newToken q ir member dl (fl, cs_r s)))"
proof (cases newToken)
  case None
  then show ?thesis by (auto simp: claimRequest_def intro: exI [of _ s] csteps_refl)
next
  case (Some tok)
  let ?k = "claimKey (ReqID pr) (RequestToken (Routing ir))"
  let ?sc = "claimScript R keys ?k member tok (claimExpiry fl now dl)"
  have "\<exists>t. csteps R decode keys s t \<and> cs_r t = snd (?sc (cs_r s))"
    using csteps_single [OF cstep.claim [OF assms(2), of tok s R keys "claimExpiry fl now dl"]] assms(3) Some
    by (intro exI, intro conjI) (assumption | simp)+
  then have "\<exists>t. csteps R decode keys s t \<and> cs_r t = snd (run_script i ?sc (cs_r s))"
    by (intro run_script_step) blast
  moreover have "snd (snd (claimRequest R i now newToken q ir member dl (fl, cs_r s))) =
      snd (run_script i ?sc (cs_r s))"
    using assms(1,4) Some
    by (auto simp: claimRequest_def Let_def split: sum.split prod.split)
  ultimately show ?thesis by simp
qed

lemma releaseClaim_steps:
  assumes "cid decode member = Some (claimKey rid rtok)" "keys = newClaimKeys q (fl_clusterKeys fl)"
  shows "\<exists>t. csteps R decode keys s t \<and>
             cs_r t = snd (snd (releaseClaim R i q rid rtok member score tok (fl, cs_r s)))"
proof -
  let ?sc = "releaseClaimScript R keys (claimKey rid rtok) member score tok"
  have "\<exists>t. csteps R decode keys s t \<and> cs_r t = snd (run_script i ?sc (cs_r s))"
    using csteps_single [OF cstep.release [OF assms(1), of R keys s score tok]]
    by (intro run_script_step exI) auto
  moreover have "snd (snd (releaseClaim R i q rid rtok member score tok (fl, cs_r s))) =
      snd (run_script i ?sc (cs_r s))"
    using assms(2) by (auto simp: releaseClaim_def Let_def split: sum.split prod.split)
  ultimately show ?thesis by simp
qed

lemma renew_steps:
  "\<exists>t. csteps R decode keys s t \<and> cs_r t = snd (run_script i (renewClaimScript R keys k e tok) (cs_r s)) \<and>
       (fst (run_script i (renewClaimScript R keys k e tok) (cs_r s)) = Inr 1 \<longrightarrow> (k, tok) \<in> cs_fence t)"
proof -
  obtain res r' where sc: "renewClaimScript R keys k e tok (cs_r s) = (res, r')" by fastforce
  let ?t = "s \<lparr> cs_r := r', cs_fence := (if res = 1 then insert (k, tok) (cs_fence s) else cs_fence s) \<rparr>"
  have t: "csteps R decode keys s ?t" by (rule csteps_single, rule cstep.renew [OF sc])
  show ?thesis
  proof (cases "i = IoErr")
    case True
    then show ?thesis by (auto simp: run_script_def intro: exI [of _ s] csteps_refl)
  next
    case False
    then show ?thesis using t sc by (cases i) (auto simp: run_script_def intro!: exI [of _ ?t])
  qed
qed

lemma ackScript_steps:
  "\<exists>t. csteps R decode keys s t \<and>
       cs_r t = snd (run_script i (ackResultScript R keys rl pk k js tok ttl) (cs_r s))"
proof (rule run_script_step)
  fix r' assume r': "r' = snd (ackResultScript R keys rl pk k js tok ttl (cs_r s))"
  obtain res where sc: "ackResultScript R keys rl pk k js tok ttl (cs_r s) = (res, r')"
    using r' by (metis prod.collapse)
  show "\<exists>t. csteps R decode keys s t \<and> cs_r t = r'"
    by (rule exI, rule conjI, rule csteps_single, rule cstep.ack [OF sc]) simp
qed

context redis_server
begin

lemma cross_slot_ack_steps:
  assumes "\<not> sameHashSlot (ck_owners keys) rl"
  shows "\<exists>t. csteps R decode keys s t \<and>
     cs_r t = snd (snd (ackResultCluster R i1 i2 i3 now keys rl k dl tok js ttl (fl, cs_r s)))"
proof -
  let ?renew = "run_script i1 (renewClaimScript R keys k (claimExpiry fl now dl) tok) (cs_r s)"
  obtain t1 where t1: "csteps R decode keys s t1" "cs_r t1 = snd ?renew"
    "fst ?renew = Inr 1 \<longrightarrow> (k, tok) \<in> cs_fence t1" using renew_steps by blast
  show ?thesis
  proof (cases "fst ?renew = Inr 1")
    case False
    then show ?thesis using t1 assms
      by (auto simp: ackResultCluster_def split: sum.split prod.split intro!: exI [of _ t1])
  next
    case True
    with t1 have fence: "(k, tok) \<in> cs_fence t1" by simp
    have renew: "?renew = (Inr 1, cs_r t1)" using True t1(2) by (simp add: prod_eq_iff)
    let ?push = "run_script i2 (pushResultScript R rl js ttl) (cs_r t1)"
    let ?t2 = "t1 \<lparr> cs_r := snd (pushResultScript R rl js ttl (cs_r t1)), cs_pushed := insert (k, tok) (cs_pushed t1) \<rparr>"
    have t2: "csteps R decode keys s ?t2" by (rule csteps_more [OF t1(1)], rule cstep.push [OF fence])
    show ?thesis
    proof (cases i2)
      case IoErr
      then show ?thesis using True t1 assms
        by (auto simp: ackResultCluster_def run_script_def split: sum.split prod.split
            intro!: exI [of _ t1])
    next
      case IoLost
      then show ?thesis using True t1 t2 assms
        by (auto simp: ackResultCluster_def run_script_def split: sum.split prod.split
            intro!: exI [of _ ?t2])
    next
      case ok: IoOk
      let ?t3 = "?t2 \<lparr> cs_r := snd (dropClaimScript R keys k tok (cs_r ?t2)) \<rparr>"
      have t3: "csteps R decode keys s ?t3"
        by (rule csteps_more [OF t2], rule cstep.drop_claim) simp
      have r: "snd (snd (ackResultCluster R i1 i2 i3 now keys rl k dl tok js ttl (fl, cs_r s))) =
          snd (run_script i3 (dropClaimScript R keys k tok) (cs_r ?t2))"
        using renew assms ok by (simp add: ackResultCluster_def run_script_outcomes)
      show ?thesis
      proof (cases "i3 = IoErr")
        case True
        then show ?thesis unfolding r using t2 by (auto simp: run_script_def intro!: exI [of _ ?t2])
      next
        case False
        then show ?thesis unfolding r using t3
          by (cases i3) (auto simp: run_script_def intro!: exI [of _ ?t3])
      qed
    qed
  qed
qed

lemma ackResultCluster_steps:
  "\<exists>t. csteps R decode keys s t \<and>
     cs_r t = snd (snd (ackResultCluster R i1 i2 i3 now keys rl k dl tok js ttl (fl, cs_r s)))"
proof (cases "sameHashSlot (ck_owners keys) rl")
  case True
  have "snd (snd (ackResultCluster R i1 i2 i3 now keys rl k dl tok js ttl (fl, cs_r s))) =
      snd (run_script i1 (ackResultScript R keys rl None k js tok ttl) (cs_r s))"
    using True by (auto simp: ackResultCluster_def split: sum.split prod.split)
  then show ?thesis using ackScript_steps [of R decode keys s i1 rl None k js tok ttl] by simp
qed (rule cross_slot_ack_steps)

lemma strdel_step: "cstep R decode keys t (t \<lparr> cs_r := strdel R p (cs_r t) \<rparr>)"
  by (rule cstep.other) (simp_all add: redis_simps)

lemma ackResult_steps:
  assumes "keys = newClaimKeys q (fl_clusterKeys fl)"
  shows "\<exists>t. csteps R decode keys s t \<and>
     cs_r t = snd (snd (ackResult R i1 i2 i3 i4 now q rl rid rtok pref js ttl (fl, cs_r s)))"
proof (cases "fl_clusterKeys fl")
  case False
  let ?pk = "if pref = '''' then None else Some pref"
  have "snd (snd (ackResult R i1 i2 i3 i4 now q rl rid rtok pref js ttl (fl, cs_r s))) =
      snd (run_script i1 (ackResultScript R keys rl ?pk (claimKey rid rtok) js
             (held_token fl (claimKey rid rtok)) (max 0 ttl)) (cs_r s))"
    using False assms by (auto simp: ackResult_def Let_def split: sum.split prod.split)
  then show ?thesis by (simp only: ackScript_steps)
next
  case True
  let ?k = "claimKey rid rtok"
  let ?c = "ackResultCluster R i1 i2 i3 now keys rl ?k (held_deadline fl ?k) (held_token fl ?k) js (max 0 ttl) (fl, cs_r s)"
  obtain t where t: "csteps R decode keys s t" "cs_r t = snd (snd ?c)"
    using ackResultCluster_steps by blast
  have "csteps R decode keys s (t \<lparr> cs_r := strdel R pref (cs_r t) \<rparr>)"
    by (rule csteps_more [OF t(1) strdel_step])
  moreover have "snd (snd (ackResult R i1 i2 i3 i4 now q rl rid rtok pref js ttl (fl, cs_r s))) =
      (if fst ?c = Inr True \<and> pref \<noteq> '''' \<and> i4 \<noteq> IoErr then strdel R pref (snd (snd ?c)) else snd (snd ?c))"
    using True assms
    by (cases i4) (auto simp: ackResult_def Let_def run_script_def split: sum.split prod.split bool.split)
  ultimately show ?thesis using t by auto
qed

end

lemma renewClaim_steps:
  assumes "keys = newClaimKeys q (fl_clusterKeys fl)"
  shows "\<exists>t. csteps R decode keys s t \<and>
             cs_r t = snd (renewClaim R i now q rid rtok dl tok (fl, cs_r s))"
  using renew_steps [of R decode keys s i "claimKey rid rtok" "claimExpiry fl now dl" tok] assms
  by (auto simp: renewClaim_def Let_def)

lemma heartbeatClaims_steps:
  assumes "\<forall>k h. fl_claimTokens fl k = Some h \<longrightarrow> ch_queue h = q"
    "keys = newClaimKeys q (fl_clusterKeys fl)"
  shows "\<exists>t. csteps R decode keys s t \<and> cs_r t = snd (heartbeatClaims R now ids (fl, cs_r s))"
  using assms
proof (induction ids arbitrary: fl s)
  case Nil
  then show ?case by (auto intro: exI [of _ s] csteps_refl)
next
  case (Cons ki ids)
  obtain k i where ki: "ki = (k, i)" by (cases ki)
  show ?case
  proof (cases "fl_claimTokens fl k = None \<or> k = ''''")
    case True
    then show ?thesis using Cons.IH [OF Cons.prems] by (auto simp: ki split: option.split)
  next
    case False
    then obtain h where h: "fl_claimTokens fl k = Some h" "k \<noteq> ''''" by auto
    let ?r = "renewClaim R i now (ch_queue h) (if ch_requestID h = '''' then k else ch_requestID h)
                (ch_requestToken h) (ch_deadline h) (ch_token h) (fl, cs_r s)"
    have q: "ch_queue h = q" using Cons.prems(1) h(1) by blast
    obtain t where t: "csteps R decode keys s t" "cs_r t = snd ?r"
      using renewClaim_steps [OF Cons.prems(2)] unfolding q by blast
    obtain fl' where fl': "heartbeatClaims R now (ki # ids) (fl, cs_r s) = heartbeatClaims R now ids (fl', cs_r t)"
      "fl' = fl \<or> fl' = forget k fl"
      using h t(2) by (cases ?r; cases "fst ?r") (auto simp: ki)
    have "\<forall>k h. fl_claimTokens fl' k = Some h \<longrightarrow> ch_queue h = q" "keys = newClaimKeys q (fl_clusterKeys fl')"
      using fl'(2) Cons.prems by (auto simp: forget_def split: if_splits)
    from Cons.IH [OF this, of t] fl'(1) show ?thesis using csteps_trans [OF _ t(1)] by auto
  qed
qed

lemma reclaimIDs_steps:
  "\<exists>t. csteps R decode keys s t \<and> cs_r t = snd (snd (reclaimIDs R decode' keys now ids n (cs_r s)))"
proof (induction ids arbitrary: n s)
  case Nil
  then show ?case by (auto intro: exI [of _ s] csteps_refl)
next
  case (Cons x ids)
  obtain k i j where x: "x = (k, i, j)" by (cases x)
  let ?sc = "reclaimExpiredScript R keys k (reclaim_score decode' (hget R (cs_r s) (ck_claimed keys) k)) now"
  obtain t where t: "csteps R decode keys s t" "cs_r t = snd (run_script j ?sc (cs_r s))"
    using run_script_step [of ?sc s R decode keys j] csteps_single [OF cstep.reclaim] by fastforce
  show ?case
  proof (cases "i = IoOk \<and> j = IoOk")
    case True
    then have "snd (snd (reclaimIDs R decode' keys now (x # ids) n (cs_r s))) =
        snd (snd (reclaimIDs R decode' keys now ids (if fst (?sc (cs_r s)) = 1 then n + 1 else n) (cs_r t)))"
      using t(2) by (simp add: x run_script_outcomes)
    then show ?thesis using Cons.IH [of t] csteps_trans [OF _ t(1)] by metis
  next
    case False
    then show ?thesis using t
      by (cases i; cases j) (auto simp: x run_script_outcomes intro: exI [of _ s] exI [of _ t] csteps_refl)
  qed
qed

context redis_server
begin

text \<open>A pass over distinct identifiers that are all expired hands every stored member back.\<close>

lemma reclaim_one:
  assumes d: "keys_distinct keys" and wf: "claim_wf R decode keys r"
    and k: "zscore R r (ck_idx keys) k = Some e" "e \<le> now"
  obtains m where "hget R r (ck_claimed keys) k = Some m"
    "reclaimExpiredScript R keys k sc now r = (1, dropClaim R keys k (zadd R (ck_pending keys) sc m r))"
proof -
  obtain m where "hget R r (ck_claimed keys) k = Some m"
    using wf k unfolding claim_wf_def by (metis option.exhaust option.distinct(1))
  then show ?thesis using k that by (auto simp: reclaimExpiredScript_def)
qed

lemma reclaimIDs_all:
  assumes "keys_distinct keys" "claim_wf R decode keys r" "distinct ids"
    "\<forall>k \<in> set ids. \<exists>e \<le> now. zscore R r (ck_idx keys) k = Some e"
  shows "\<exists>r'. reclaimIDs R dec keys now (map (\<lambda>k. (k, IoOk, IoOk)) ids) n r = (True, n + length ids, r') \<and>
     (\<forall>k m. k \<in> set ids \<longrightarrow> hget R r (ck_claimed keys) k = Some m \<longrightarrow>
        zscore R r' (ck_pending keys) m = Some (reclaim_score dec (Some m)) \<and>
        hget R r' (ck_claimed keys) k = None \<and> hget R r' (ck_owners keys) k = None) \<and>
     (\<forall>k. k \<notin> set ids \<longrightarrow> hget R r' (ck_claimed keys) k = hget R r (ck_claimed keys) k \<and>
        hget R r' (ck_owners keys) k = hget R r (ck_owners keys) k \<and>
        zscore R r' (ck_idx keys) k = zscore R r (ck_idx keys) k) \<and>
     (\<forall>m. (\<forall>k \<in> set ids. hget R r (ck_claimed keys) k \<noteq> Some m) \<longrightarrow>
        zscore R r' (ck_pending keys) m = zscore R r (ck_pending keys) m)"
  using assms
proof (induction ids arbitrary: n r)
  case (Cons k ids)
  then obtain e where e: "zscore R r (ck_idx keys) k = Some e" "e \<le> now" by auto
  let ?sc = "\<lambda>m. reclaim_score dec (Some m)"
  obtain m where m: "hget R r (ck_claimed keys) k = Some m"
    and s: "reclaimExpiredScript R keys k (?sc m) now r =
              (1, dropClaim R keys k (zadd R (ck_pending keys) (?sc m) m r))"
    using reclaim_one [OF Cons.prems(1,2) e, where sc = "?sc (the (hget R r (ck_claimed keys) k))"] by auto
  let ?r = "dropClaim R keys k (zadd R (ck_pending keys) (?sc m) m r)"
  have wf: "claim_wf R decode keys ?r"
    by (rule claim_wf_drop, rule claim_wf_zadd_pending) (use Cons.prems in auto)
  have ex: "\<forall>k' \<in> set ids. \<exists>e \<le> now. zscore R ?r (ck_idx keys) k' = Some e"
    using Cons.prems by (auto simp: redis_simps keys_distinct_def)
  have cid_inj: "k' = k" if "hget R r (ck_claimed keys) k' = Some m" for k'
    using Cons.prems(2) m that unfolding claim_wf_def by (metis option.inject)
  from Cons.IH [OF Cons.prems(1) wf _ ex, of "n + 1"] Cons.prems(3) obtain r' where
    r': "reclaimIDs R dec keys now (map (\<lambda>k. (k, IoOk, IoOk)) ids) (n + 1) ?r = (True, n + 1 + length ids, r')"
    "\<forall>k' m'. k' \<in> set ids \<longrightarrow> hget R ?r (ck_claimed keys) k' = Some m' \<longrightarrow>
        zscore R r' (ck_pending keys) m' = Some (?sc m') \<and>
        hget R r' (ck_claimed keys) k' = None \<and> hget R r' (ck_owners keys) k' = None"
    "\<forall>k'. k' \<notin> set ids \<longrightarrow> hget R r' (ck_claimed keys) k' = hget R ?r (ck_claimed keys) k' \<and>
        hget R r' (ck_owners keys) k' = hget R ?r (ck_owners keys) k' \<and>
        zscore R r' (ck_idx keys) k' = zscore R ?r (ck_idx keys) k'"
    "\<forall>m'. (\<forall>k' \<in> set ids. hget R ?r (ck_claimed keys) k' \<noteq> Some m') \<longrightarrow>
        zscore R r' (ck_pending keys) m' = zscore R ?r (ck_pending keys) m'"
    by auto
  have run: "reclaimIDs R dec keys now (map (\<lambda>k. (k, IoOk, IoOk)) (k # ids)) n r = (True, n + length (k # ids), r')"
    using r'(1) m s by (simp add: run_script_outcomes)
  have keep: "zscore R r' (ck_pending keys) m = Some (?sc m)"
  proof -
    have "\<forall>k' \<in> set ids. hget R ?r (ck_claimed keys) k' \<noteq> Some m"
      using cid_inj Cons.prems(3) by (auto simp: redis_simps split: if_splits)
    then show ?thesis using r'(4) Cons.prems(1) by (simp add: redis_simps keys_distinct_def)
  qed
  have obs: "hget R ?r (ck_claimed keys) k' = (if k' = k then None else hget R r (ck_claimed keys) k')"
    "hget R ?r (ck_owners keys) k' = (if k' = k then None else hget R r (ck_owners keys) k')"
    "zscore R ?r (ck_idx keys) k' = (if k' = k then None else zscore R r (ck_idx keys) k')" for k'
    using Cons.prems(1) by (auto simp: redis_simps keys_distinct_def)
  have pend: "zscore R ?r (ck_pending keys) m' = (if m' = m then Some (?sc m) else zscore R r (ck_pending keys) m')" for m'
    using Cons.prems(1) by (simp add: redis_simps keys_distinct_def)
  have k: "k \<notin> set ids" using Cons.prems(3) by simp
  have gone: "hget R r' (ck_claimed keys) k = None" "hget R r' (ck_owners keys) k = None"
    using r'(3) k obs by simp_all
  show ?case
  proof (intro exI [of _ r'] conjI allI impI, goal_cases)
    case 1
    show ?case by (rule run)
  next
    case (2 k' m')
    then show ?case using keep m r'(2) k by (cases "k' = k") (simp_all add: obs)
  next
    case (3 k' m')
    then show ?case using gone r'(2) k by (cases "k' = k") (simp_all add: obs)
  next
    case (4 k' m')
    then show ?case using gone r'(2) k by (cases "k' = k") (simp_all add: obs)
  next
    case (5 k')
    then show ?case using r'(3) by (simp add: obs)
  next
    case (6 k')
    then show ?case using r'(3) by (simp add: obs)
  next
    case (7 k')
    then show ?case using r'(3) by (simp add: obs)
  next
    case (8 m')
    then have "m' \<noteq> m" "\<forall>k' \<in> set ids. hget R ?r (ck_claimed keys) k' \<noteq> Some m'"
      using m by (auto simp: obs)
    then show ?case using r'(4) by (simp add: pend)
  qed
qed auto

end

section \<open>Properties\<close>


text \<open>A concrete run: one request is enqueued and claimed.\<close>

definition demo_request :: internal_request where
  "demo_request = NewInternalRequest (empty_routing \<lparr> RequestToken := ''g1'' \<rparr>)
     (RequestMessage (empty_request_message \<lparr> rm_ID := ''r1'', rm_Deadline := 50 \<rparr>))"

definition demo_decode :: "string \<Rightarrow> internal_request option" where
  "demo_decode m = (if m = ''m1'' then Some demo_request else None)"

definition demo_start :: "mem csys" where
  "demo_start = \<lparr> cs_r = empty_mem, cs_enq = {}, cs_used = {}, cs_acks = [], cs_fence = {}, cs_pushed = {} \<rparr>"

definition demo_queued :: "mem csys" where
  "demo_queued = demo_start \<lparr> cs_r := zadd mem_redis ''q'' 50 ''m1'' empty_mem,
     cs_enq := {claimKey ''r1'' ''g1''} \<rparr>"

definition demo_claimed :: "mem csys" where
  "demo_claimed = demo_queued \<lparr> cs_r := snd (claimScript mem_redis (newClaimKeys ''q'' False)
     (claimKey ''r1'' ''g1'') ''m1'' ''t1'' 80 (cs_r demo_queued)), cs_used := {''t1''} \<rparr>"

lemma demo_cid: "cid demo_decode ''m1'' = Some (claimKey ''r1'' ''g1'')"
  by (simp add: cid_def demo_decode_def demo_request_def NewInternalRequest_def ReqID_def)

lemma demo_fresh: "fresh_queue mem_redis (newClaimKeys ''q'' False) demo_start"
  by (simp add: fresh_queue_def demo_start_def mem_redis_def empty_mem_def fun_eq_iff)

lemma demo_steps: "csteps mem_redis demo_decode (newClaimKeys ''q'' False) demo_start demo_claimed"
proof -
  have "cstep mem_redis demo_decode (newClaimKeys ''q'' False) demo_start demo_queued"
    using cstep.enqueue [OF demo_cid, of mem_redis "newClaimKeys ''q'' False" demo_start 50]
    by (simp add: demo_queued_def demo_start_def newClaimKeys_def Let_def)
  moreover have "cstep mem_redis demo_decode (newClaimKeys ''q'' False) demo_queued demo_claimed"
    using cstep.claim [OF demo_cid, of "''t1''" demo_queued mem_redis "newClaimKeys ''q'' False" 80]
    by (simp add: demo_claimed_def demo_queued_def demo_start_def)
  ultimately show ?thesis by (meson csteps_more csteps_refl)
qed

lemma demo_owner: "hget mem_redis (cs_r demo_claimed) (ck_owners (newClaimKeys ''q'' False))
    (claimKey ''r1'' ''g1'') = Some ''t1''"
  by (simp add: demo_claimed_def demo_queued_def claimScript_def newClaimKeys_def slotKey_def Let_def
      mr.zscore_zadd mr.hget_frame mr.hget_hset)






text \<open>
  C10: A reclaim pass without faults redelivers what has lapsed and nothing else. On a queue in a
  reachable state, every claim among the first hundred whose lease is not later than now is dropped and
  its stored member is pending again at its queue score; the claims of all other identifiers keep
  their member, owner and lease, in particular every lease that is still running.
\<close>

theorem reclaim_redelivers_expired:
  assumes "redis_server R" and "keys = newClaimKeys q c" and "claim_wf R decode keys r"
    and "expired = zrangebyscore R r (ck_idx keys) now 100"
  shows "\<exists>r'. reclaimExpiredClaims R decode c now [(q, IoOk, \<lambda>_. (IoOk, IoOk))] 0 r = (True, length expired, r')
     \<and> (\<forall>k \<in> set expired. \<exists>m. hget R r (ck_claimed keys) k = Some m \<and>
          zscore R r' (ck_pending keys) m = Some (reclaim_score decode (Some m)) \<and>
          hget R r' (ck_claimed keys) k = None \<and> hget R r' (ck_owners keys) k = None)
     \<and> (\<forall>k. k \<notin> set expired \<longrightarrow>
          hget R r' (ck_claimed keys) k = hget R r (ck_claimed keys) k \<and>
          hget R r' (ck_owners keys) k = hget R r (ck_owners keys) k \<and>
          zscore R r' (ck_idx keys) k = zscore R r (ck_idx keys) k)
     \<and> (\<forall>k e. zscore R r (ck_idx keys) k = Some e \<longrightarrow> now < e \<longrightarrow> k \<notin> set expired)"
proof -
  have d: "keys_distinct keys" using assms(2) newClaimKeys_distinct by simp
  have exp: "\<exists>e \<le> now. zscore R r (ck_idx keys) k = Some e" if "k \<in> set expired" for k
    using that assms(4) redis_server.zrange_zscore [OF assms(1)]
    by (auto simp: zrangebyscore_def dest!: in_set_takeD)
  have dist: "distinct expired"
    using redis_server.zrange_members_distinct [OF assms(1), of r "ck_idx keys"] assms(4)
    by (simp add: zrangebyscore_def distinct_map_filter)
  obtain r' where r': "reclaimIDs R decode keys now (map (\<lambda>k. (k, IoOk, IoOk)) expired) 0 r = (True, length expired, r')"
    "\<forall>k m. k \<in> set expired \<longrightarrow> hget R r (ck_claimed keys) k = Some m \<longrightarrow>
        zscore R r' (ck_pending keys) m = Some (reclaim_score decode (Some m)) \<and>
        hget R r' (ck_claimed keys) k = None \<and> hget R r' (ck_owners keys) k = None"
    "\<forall>k. k \<notin> set expired \<longrightarrow> hget R r' (ck_claimed keys) k = hget R r (ck_claimed keys) k \<and>
        hget R r' (ck_owners keys) k = hget R r (ck_owners keys) k \<and>
        zscore R r' (ck_idx keys) k = zscore R r (ck_idx keys) k"
    using redis_server.reclaimIDs_all [OF assms(1) d assms(3) dist, of now decode 0] exp by auto
  have "\<exists>m. hget R r (ck_claimed keys) k = Some m" if "k \<in> set expired" for k
    using exp [OF that] assms(3) unfolding claim_wf_def by (metis option.exhaust option.distinct(1))
  then have "\<forall>k \<in> set expired. \<exists>m. hget R r (ck_claimed keys) k = Some m \<and>
          zscore R r' (ck_pending keys) m = Some (reclaim_score decode (Some m)) \<and>
          hget R r' (ck_claimed keys) k = None \<and> hget R r' (ck_owners keys) k = None"
    using r'(2) by blast
  moreover have "k \<notin> set expired" if "zscore R r (ck_idx keys) k = Some e" "now < e" for k e
    using exp [of k] that by force
  moreover have "reclaimExpiredClaims R decode c now [(q, IoOk, \<lambda>_. (IoOk, IoOk))] 0 r = (True, length expired, r')"
    using r'(1) assms(2,4) by (simp add: Let_def)
  ultimately show ?thesis using r'(3) by blast
qed

theorem reclaim_redelivers_expired_witness:
  "\<exists>r'. reclaimExpiredClaims mem_redis demo_decode False 80 [(''q'', IoOk, \<lambda>_. (IoOk, IoOk))] 0 (cs_r demo_claimed)
        = (True, 1, r')"
proof -
  have wf: "claim_wf mem_redis demo_decode (newClaimKeys ''q'' False) (cs_r demo_claimed)"
    using mr.csteps_invariant [OF demo_steps newClaimKeys_distinct] mr.fresh_queue_invariant [OF demo_fresh] by blast
  have "zrangebyscore mem_redis (cs_r demo_claimed) (ck_idx (newClaimKeys ''q'' False)) 80 100 = [claimKey ''r1'' ''g1'']"
    by (simp add: zrangebyscore_def demo_claimed_def demo_queued_def claimScript_def newClaimKeys_def slotKey_def
        Let_def mem_redis_def empty_mem_def)
  then show ?thesis using reclaim_redelivers_expired [OF mr.redis_server_axioms refl wf refl, of 80] by auto
qed

end
