(* ===== verification/Inference.thy ===== *)
theory Inference
  imports Api "HOL-Library.Sublist"
begin

text \<open>
  The inference client side of the worker (\<open>src/pkg/asyncworker\<close>): the classification of HTTP outcomes
  by \<open>http_client.go\<close>, the parsing of \<open>Retry-After\<close>, the usage parser's endpoint test (\<open>usage.go\<close>), and
  the request body-transform chain (\<open>transform/chain.go\<close>). The HTTP transport, the parser of HTTP dates
  and the transform plugins are arguments.
\<close>

section \<open>Retry-After\<close>

text \<open>\<open>strconv.Atoi\<close>: an optional sign and decimal digits, within 64 bits.\<close>

definition digit_val :: "char \<Rightarrow> int" where "digit_val c = int (of_char c) - 48"

definition is_digit :: "char \<Rightarrow> bool" where "is_digit c \<longleftrightarrow> 0 \<le> digit_val c \<and> digit_val c \<le> 9"

definition digits_val :: "string \<Rightarrow> int" where
  "digits_val ds = foldl (\<lambda>n c. 10 * n + digit_val c) 0 ds"

definition unsigned_val :: "string \<Rightarrow> int option" where
  "unsigned_val ds = (if ds \<noteq> [] \<and> list_all is_digit ds then Some (digits_val ds) else None)"

definition Atoi :: "string \<Rightarrow> int option" where
  "Atoi s = (case (case s of
       [] \<Rightarrow> None
     | c # ds \<Rightarrow> if c = CHR ''-'' then map_option uminus (unsigned_val ds)
                 else if c = CHR ''+'' then unsigned_val ds else unsigned_val s) of
     None \<Rightarrow> None
   | Some n \<Rightarrow> if - (2 ^ 63) \<le> n \<and> n < 2 ^ 63 then Some n else None)"

text \<open>
  Durations are int64 nanoseconds and \<open>time.Duration(seconds) * time.Second\<close> wraps. \<open>parseTime\<close> is
  \<open>http.ParseTime\<close>, in nanoseconds; \<open>time.Until\<close> saturates.
\<close>

definition saturate64 :: "int \<Rightarrow> int" where
  "saturate64 d = max (- (2 ^ 63)) (min (2 ^ 63 - 1) d)"

definition parseRetryAfter :: "(string \<Rightarrow> int option) \<Rightarrow> int \<Rightarrow> string \<Rightarrow> int \<times> bool" where
  "parseRetryAfter parseTime now value =
     (if value = '''' then (0, False)
      else case (case Atoi value of Some seconds \<Rightarrow> if 0 \<le> seconds then Some seconds else None | None \<Rightarrow> None) of
        Some seconds \<Rightarrow> (wrap64 (seconds * 1000000000), True)
      | None \<Rightarrow>
          (case parseTime value of
             Some t \<Rightarrow> (max 0 (saturate64 (t - now)), True)
           | None \<Rightarrow> (0, False)))"

section \<open>Outcomes of a send\<close>

text \<open>
  What the transport does with a request: it cannot be built, the exchange fails, or a response
  arrives with a status, header lookup, and a body that may end in a read error.
\<close>

datatype http_outcome =
    BuildFailed string
  | DoFailed string
  | Response int "string \<Rightarrow> string" string "string option"

definition DroppedReasonHeader :: string where
  "DroppedReasonHeader = ''x-llm-d-request-dropped-reason''"

definition plain_error :: "ErrorCategory \<Rightarrow> string \<Rightarrow> string \<Rightarrow> client_error" where
  "plain_error c msg raw = \<lparr> ce_Category = c, ce_Message = msg, ce_RawError = Some raw,
     ce_RetryAfter = 0, ce_StatusCode = 0, ce_DroppedReason = '''' \<rparr>"

definition SendRequest :: "(int \<Rightarrow> string) \<Rightarrow> (string \<Rightarrow> int option) \<Rightarrow> int \<Rightarrow> http_outcome
    \<Rightarrow> inference_response option \<times> client_error option" where
  "SendRequest itoa parseTime now outcome = (case outcome of
     BuildFailed e \<Rightarrow> (None, Some (plain_error ErrCategoryInvalidReq ''failed to create request'' e))
   | DoFailed e \<Rightarrow> (None, Some (plain_error ErrCategoryUnknown ''failed to send request'' e))
   | Response status header body readErr \<Rightarrow>
       let droppedReason = header DroppedReasonHeader;
           retryAfter = fst (parseRetryAfter parseTime now (header ''Retry-After''));
           resp = \<lparr> StatusCode = status, Body = body \<rparr>
       in (case readErr of
         Some e \<Rightarrow> (Some resp, Some \<lparr> ce_Category = ErrCategoryServer, ce_Message = ''failed to read response'',
             ce_RawError = Some e, ce_RetryAfter = retryAfter, ce_StatusCode = status, ce_DroppedReason = droppedReason \<rparr>)
       | None \<Rightarrow>
           if status = 429 then
             (Some resp, Some \<lparr> ce_Category = ErrCategoryRateLimit,
                ce_Message = ''rate limited: status code '' @ itoa status, ce_RawError = None,
                ce_RetryAfter = retryAfter, ce_StatusCode = status, ce_DroppedReason = droppedReason \<rparr>)
           else if 400 \<le> status \<and> status < 500 then
             (Some resp, Some \<lparr> ce_Category = ErrCategoryInvalidReq,
                ce_Message = ''client error: status code '' @ itoa status, ce_RawError = None,
                ce_RetryAfter = 0, ce_StatusCode = status, ce_DroppedReason = droppedReason \<rparr>)
           else if 500 \<le> status \<and> status < 600 then
             (Some resp, Some \<lparr> ce_Category = ErrCategoryServer,
                ce_Message = ''server error: status code '' @ itoa status, ce_RawError = None,
                ce_RetryAfter = retryAfter, ce_StatusCode = status, ce_DroppedReason = droppedReason \<rparr>)
           else (Some resp, None)))"

section \<open>Usage endpoints\<close>

definition is_space :: "char \<Rightarrow> bool" where
  "is_space c \<longleftrightarrow> (of_char c :: nat) \<in> {9, 10, 11, 12, 13, 32}"

definition TrimSpace :: "string \<Rightarrow> string" where
  "TrimSpace s = rev (dropWhile is_space (rev (dropWhile is_space s)))"

definition TrimSuffix :: "string \<Rightarrow> string \<Rightarrow> string" where
  "TrimSuffix s suf = (if suffix suf s then take (length s - length suf) s else s)"

definition TrimChar :: "char \<Rightarrow> string \<Rightarrow> string" where
  "TrimChar c s = rev (dropWhile (\<lambda>x. x = c) (rev (dropWhile (\<lambda>x. x = c) s)))"

definition matchPathSuffix :: "string \<Rightarrow> string \<Rightarrow> bool" where
  "matchPathSuffix path sfx =
     suffix (TrimChar (CHR ''/'') (TrimSpace sfx)) (TrimSuffix (TrimSpace path) ''/'')"

definition openAICompletionsEndpoint :: "(string \<Rightarrow> string option) \<Rightarrow> string \<Rightarrow> bool" where
  "openAICompletionsEndpoint urlPath requestURL = (case urlPath requestURL of None \<Rightarrow> False
     | Some path \<Rightarrow> matchPathSuffix path ''v1/completions'' \<or> matchPathSuffix path ''v1/chat/completions'')"

text \<open>\<open>usage\<close> is the decoded usage object of a body: the two token counts, if present.\<close>

definition ParseUsage :: "(string \<Rightarrow> string option) \<Rightarrow> (string \<Rightarrow> (int \<times> int) option) \<Rightarrow> string \<Rightarrow> string
    \<Rightarrow> int \<times> int \<times> bool" where
  "ParseUsage urlPath usage body requestURL =
     (if \<not> openAICompletionsEndpoint urlPath requestURL then (0, 0, False)
      else case usage body of None \<Rightarrow> (0, 0, False)
        | Some (p, c) \<Rightarrow> (if p < 0 then 0 else p, if c < 0 then 0 else c, True))"

section \<open>Body transforms\<close>

text \<open>
  A transform plugin: its name, its validation, and its transformation (an error, not handled, or a
  body with its content type).
\<close>

record transform =
  tr_name :: string
  tr_Validate :: "string \<Rightarrow> strmap \<Rightarrow> int \<Rightarrow> string option"
  tr_Transform :: "string \<Rightarrow> strmap \<Rightarrow> string + (string \<times> string) option"

fun Chain_Validate :: "transform list \<Rightarrow> string \<Rightarrow> strmap \<Rightarrow> int \<Rightarrow> string option" where
  "Chain_Validate [] payload metadata reqDeadline = None"
| "Chain_Validate (t # ts) payload metadata reqDeadline =
     (case tr_Validate t payload metadata reqDeadline of
        Some err \<Rightarrow> Some (''transform '' @ tr_name t @ '': '' @ err)
      | None \<Rightarrow> Chain_Validate ts payload metadata reqDeadline)"

fun Chain_Apply :: "transform list \<Rightarrow> string \<Rightarrow> strmap \<Rightarrow> string + (string \<times> string) option" where
  "Chain_Apply [] payload metadata = Inr None"
| "Chain_Apply (t # ts) payload metadata =
     (case tr_Transform t payload metadata of
        Inl err \<Rightarrow> Inl (''transform '' @ tr_name t @ '': '' @ err)
      | Inr (Some res) \<Rightarrow> Inr (Some res)
      | Inr None \<Rightarrow> Chain_Apply ts payload metadata)"

section \<open>Properties\<close>

text \<open>
  C30: A send is retryable exactly when the server answered 429, a 5xx status, or a response whose body
  could not be read; every other failure (a request that cannot be built, a transport failure, any other
  4xx) is fatal, and a response status below 400 or from 600 on is a success. An error with a status
  carries the response, and only retryable errors carry a retry delay.
\<close>

theorem send_classification:
  "case SendRequest itoa parseTime now outcome of (resp, err) \<Rightarrow>
     (err = None \<longleftrightarrow> (\<exists>st hd bd. outcome = Response st hd bd None \<and> (st < 400 \<or> 600 \<le> st)))
   \<and> ((\<exists>e. err = Some e \<and> \<not> Fatal (ce_Category e)) \<longleftrightarrow>
        (\<exists>st hd bd re. outcome = Response st hd bd re \<and> (re \<noteq> None \<or> st = 429 \<or> 500 \<le> st \<and> st < 600)))
   \<and> (\<forall>e. err = Some e \<longrightarrow>
        (resp = None \<longleftrightarrow> (\<exists>t. outcome = BuildFailed t \<or> outcome = DoFailed t)) \<and>
        (\<forall>r. resp = Some r \<longrightarrow> StatusCode r = ce_StatusCode e) \<and>
        (Fatal (ce_Category e) \<longrightarrow> ce_RetryAfter e = 0))"
  by (cases outcome)
    (auto simp: SendRequest_def Let_def Fatal_def plain_error_def split: option.split)

theorem send_classification_witness:
  "\<not> Fatal (ce_Category (the (snd (SendRequest (\<lambda>_. '''') (\<lambda>_. None) 0 (Response 503 (\<lambda>_. '''') '''' None)))))"
  using send_classification [where itoa = "\<lambda>_. ''''" and parseTime = "\<lambda>_. None" and now = 0
      and outcome = "Response 503 (\<lambda>_. '''') '''' None"]
  by (auto simp: split_def)



end
