(* ===== verification/Worker.thy ===== *)
theory Worker
  imports Flow_Gates Inference
begin

text \<open>
  The worker of \<open>src/pkg/asyncworker/worker.go\<close>: from one message taken off the request channel to the
  one message it puts on the result or the retry channel.

  The worker reads the clock, the request context, the cancellation marker, random jitter and the
  inference client from a world \<open>'w\<close> through the record \<open>wenv\<close>; the pool gate acts on the same world.
  What a Go \<open>select\<close> between a channel send and \<open>ctx.Done()\<close> chose is \<open>offer\<close>. The locale \<open>worker_env\<close>
  states what the worker relies on: the clock does not run backwards, a timer that fires has run its
  duration, and a send is abandoned only when the context is over. Metrics, traces and logs have no
  effect on the messages and are left out. Times are nanoseconds, deadlines of requests Unix seconds.
\<close>

section \<open>Messages and environment\<close>

record embelished =
  em_ir :: internal_request
  HttpHeaders :: strmap
  RequestURL :: string
  WorkerPoolID :: string

datatype emission =
    EResult result_message
  | ERetry embelished real
  | ELost

record send_error =
  se_ctx :: bool
  se_category :: "ErrorCategory option"
  se_retryAfter :: int
  se_text :: string

record send_reply =
  sr_resp :: "inference_response option"
  sr_err :: "send_error option"
  sr_cancelled :: bool
  sr_deadline :: bool

record 'w wenv =
  clock :: "'w \<Rightarrow> int"
  ctxErr :: "'w \<Rightarrow> bool"
  hasChecker :: bool
  isCancelled :: "string \<Rightarrow> string \<Rightarrow> 'w \<Rightarrow> bool option \<times> 'w"
  offer :: "'w \<Rightarrow> bool \<times> 'w"
  timerWait :: "int \<Rightarrow> int option \<Rightarrow> 'w \<Rightarrow> bool \<times> 'w"
  gateCtx :: "int option \<Rightarrow> 'w \<Rightarrow> gctx"
  rnd :: "'w \<Rightarrow> real \<times> 'w"
  client :: "string \<Rightarrow> strmap \<Rightarrow> string \<Rightarrow> int \<Rightarrow> 'w \<Rightarrow> send_reply \<times> 'w"

abbreviation (input) second :: int where "second \<equiv> 1000000000"

definition unix_now :: "'w wenv \<Rightarrow> 'w \<Rightarrow> int" where
  "unix_now E w = clock E w div second"

section \<open>Constants and helpers\<close>

abbreviation (input) baseDelaySeconds :: real where "baseDelaySeconds \<equiv> 2"
abbreviation (input) maxDelaySeconds :: real where "maxDelaySeconds \<equiv> 60"
abbreviation (input) gateWaitInitialBackoff :: int where "gateWaitInitialBackoff \<equiv> 100000000"
abbreviation (input) gateWaitMaxBackoff :: int where "gateWaitMaxBackoff \<equiv> 1000000000"
abbreviation (input) cancellationCheckPollInterval :: int where "cancellationCheckPollInterval \<equiv> 1000000000"
abbreviation (input) cancellationCheckRetryAfterSecond :: real where "cancellationCheckRetryAfterSecond \<equiv> 1"

definition requestDeadlineReached :: "Request option \<Rightarrow> int \<Rightarrow> bool" where
  "requestDeadlineReached request now = (case request of None \<Rightarrow> False
     | Some r \<Rightarrow> 0 < ReqDeadline r \<and> \<not> now < ReqDeadline r * second)"

definition nextGateWaitBackoff :: "int \<Rightarrow> int" where
  "nextGateWaitBackoff current =
     (if gateWaitMaxBackoff div 2 \<le> current then gateWaitMaxBackoff else current * 2)"

definition jitteredGateWait :: "int \<Rightarrow> real \<Rightarrow> int" where
  "jitteredGateWait backoff r =
     (let half = backoff div 2 in half + \<lfloor>r * real_of_int (backoff - half)\<rfloor>)"

definition expBackoffDuration :: "int \<Rightarrow> int \<Rightarrow> real \<Rightarrow> real" where
  "expBackoffDuration retryCount secondsToDeadline r =
     (if secondsToDeadline \<le> 0 then 0
      else let capLevel = min maxDelaySeconds (real_of_int secondsToDeadline);
               backoff = baseDelaySeconds * 2 powr real_of_int retryCount;
               temp = min capLevel backoff
           in if temp \<le> 0 then 0 else temp / 2 + r * (temp / 2))"

text \<open>\<open>strings.EqualFold\<close> on ASCII header names.\<close>

definition lower_char :: "char \<Rightarrow> char" where
  "lower_char c = (let n = (of_char c :: nat) in if 65 \<le> n \<and> n \<le> 90 then char_of (n + 32) else c)"

definition EqualFold :: "string \<Rightarrow> string \<Rightarrow> bool" where
  "EqualFold a b \<longleftrightarrow> map lower_char a = map lower_char b"

definition headersWithContentType :: "strmap \<Rightarrow> string \<Rightarrow> strmap" where
  "headersWithContentType headers contentType =
     (\<lambda>k. if EqualFold k ''Content-Type'' then None else headers k)(''Content-Type'' \<mapsto> contentType)"

definition deadlineExhaustedResult :: "embelished \<Rightarrow> Request \<Rightarrow> inference_response \<Rightarrow> result_message" where
  "deadlineExhaustedResult msg r lastResp =
     (if 0 < StatusCode lastResp then NewHTTPResult r (Routing (em_ir msg)) (StatusCode lastResp) (Body lastResp)
      else NewDeadlineExceededResult r (Routing (em_ir msg)))"

definition gateDecisionReason :: "verdict \<Rightarrow> string" where
  "gateDecisionReason v = (if Reason v \<noteq> '''' then Reason v else ''gate_closed'')"

fun err_is_deadline :: "gate_error \<Rightarrow> bool" where
  "err_is_deadline DeadlineExceeded = True"
| "err_is_deadline (Wrapped _ e) = err_is_deadline e"
| "err_is_deadline _ = False"

fun err_text :: "gate_error \<Rightarrow> string" where
  "err_text ContextCanceled = ''context canceled''"
| "err_text DeadlineExceeded = ''context deadline exceeded''"
| "err_text (UnknownQuotaMode m) = ''quota gate: unknown mode '' @ m"
| "err_text (StoreError e) = e"
| "err_text (Wrapped t e) = t @ '': '' @ err_text e"

section \<open>Emitting\<close>

definition offerResult :: "'w wenv \<Rightarrow> result_message \<Rightarrow> 'w \<Rightarrow> emission \<times> 'w" where
  "offerResult E r w = (let (ok, w') = offer E w in (if ok then EResult r else ELost, w'))"

definition offerRetry :: "'w wenv \<Rightarrow> embelished \<Rightarrow> real \<Rightarrow> 'w \<Rightarrow> emission \<times> 'w" where
  "offerRetry E msg b w = (let (ok, w') = offer E w in (if ok then ERetry msg b else ELost, w'))"

text \<open>\<open>Some\<close> emission stands for a return of true, after which the caller returns.\<close>

definition emitCancelledResultIfNeeded :: "'w wenv \<Rightarrow> embelished \<Rightarrow> int option \<Rightarrow> 'w
    \<Rightarrow> emission option \<times> int option \<times> 'w" where
  "emitCancelledResultIfNeeded E msg nextCheck w =
     (case PublicRequest (em_ir msg) of
        None \<Rightarrow> (None, nextCheck, w)
      | Some r \<Rightarrow>
          let now = clock E w in
          if (case nextCheck of None \<Rightarrow> False | Some t \<Rightarrow> now < t) then (None, nextCheck, w)
          else if \<not> hasChecker E then (None, nextCheck, w)
          else (case isCancelled E (ReqID r) (RequestToken (Routing (em_ir msg))) w of
                  (None, w') \<Rightarrow> (let (e, w'') = offerRetry E msg cancellationCheckRetryAfterSecond w'
                                in (Some e, Some (now + cancellationCheckPollInterval), w''))
                | (Some False, w') \<Rightarrow> (None, Some (now + cancellationCheckPollInterval), w')
                | (Some True, w') \<Rightarrow>
                    (let (e, w'') = offerResult E (NewCancelledResult r (Routing (em_ir msg))) w'
                     in (Some e, Some (now + cancellationCheckPollInterval), w''))))"

definition validateAndMarshal :: "'w wenv \<Rightarrow> transform list \<Rightarrow> embelished \<Rightarrow> Request \<Rightarrow> 'w
    \<Rightarrow> (emission + string) \<times> 'w" where
  "validateAndMarshal E transforms msg r w =
     (let ro = Routing (em_ir msg); deadline = ReqDeadline r in
      if deadline \<le> 0 then
        (let (e, w') = offerResult E (NewErrorResult r ro ErrCodeInvalidRequest
               ''Failed: deadline is missing or invalid (Unix seconds).'') w in (Inl e, w'))
      else if deadline < unix_now E w then
        (let (e, w') = offerResult E (NewDeadlineExceededResult r ro) w in (Inl e, w'))
      else
        (let payloadBytes = (case ReqPayload r of None \<Rightarrow> ''null'' | Some p \<Rightarrow> if p = '''' then ''null'' else p) in
         case Chain_Validate transforms payloadBytes (ReqMetadata r) deadline of
           Some err \<Rightarrow>
             (let (e, w') = offerResult E (NewErrorResult r ro ErrCodeInvalidRequest
                    (''Failed to validate request for transform: '' @ err)) w in (Inl e, w'))
         | None \<Rightarrow> (Inr payloadBytes, w)))"

definition bump_retry :: "embelished \<Rightarrow> embelished" where
  "bump_retry msg = msg \<lparr> em_ir := em_ir msg \<lparr> Routing := (Routing (em_ir msg))
     \<lparr> RetryCount := RetryCount (Routing (em_ir msg)) + 1 \<rparr> \<rparr> \<rparr>"

definition retryAfterDelay :: "real \<Rightarrow> real \<Rightarrow> int \<Rightarrow> real \<Rightarrow> real" where
  "retryAfterDelay finalDuration retryAfterSec secondsToDeadline r =
     (let clamped = min retryAfterSec (real_of_int secondsToDeadline / 2)
      in max finalDuration (clamped * (1 + r / 4)))"

definition retryMessage :: "'w wenv \<Rightarrow> embelished \<Rightarrow> Request \<Rightarrow> int \<Rightarrow> inference_response \<Rightarrow> 'w \<Rightarrow> emission \<times> 'w" where
  "retryMessage E msg r retryAfter lastResp w =
     (let secondsToDeadline = ReqDeadline r - unix_now E w in
      if secondsToDeadline \<le> 0 then offerResult E (deadlineExhaustedResult msg r lastResp) w
      else let (r1, w1) = rnd E w;
               finalDuration = expBackoffDuration (RetryCount (Routing (em_ir msg)) + 1) secondsToDeadline r1;
               retryAfterSec = real_of_int retryAfter / 1000000000
           in if finalDuration < retryAfterSec
              then let (r2, w2) = rnd E w1
                   in offerRetry E (bump_retry msg)
                        (retryAfterDelay finalDuration retryAfterSec secondsToDeadline r2) w2
              else offerRetry E (bump_retry msg) finalDuration w1)"

section \<open>The pool gate\<close>

definition gateDeadline :: "int \<Rightarrow> Request \<Rightarrow> int \<Rightarrow> int option" where
  "gateDeadline gateWaitTimeout r now =
     (let d0 = (if 0 < gateWaitTimeout then Some (now + gateWaitTimeout) else None) in
      if 0 < ReqDeadline r \<and> (case d0 of None \<Rightarrow> True | Some t \<Rightarrow> ReqDeadline r * second < t)
      then Some (ReqDeadline r * second) else d0)"

definition gateCtxDone :: "'w wenv \<Rightarrow> int option \<Rightarrow> 'w \<Rightarrow> bool" where
  "gateCtxDone E gd w \<longleftrightarrow> ctxErr E w \<or> (case gd of None \<Rightarrow> False | Some t \<Rightarrow> t \<le> clock E w)"

text \<open>After \<open>requestCtx.Done()\<close> the retry is sent all the same, by a plain channel send.\<close>

definition finishGateContext :: "'w wenv \<Rightarrow> embelished \<Rightarrow> Request \<Rightarrow> 'w \<Rightarrow> emission \<times> 'w" where
  "finishGateContext E msg r w =
     (if \<not> ctxErr E w \<and> requestDeadlineReached (Some r) (clock E w)
      then offerResult E (NewDeadlineExceededResult r (Routing (em_ir msg))) w
      else (ERetry msg 0, snd (offer E w)))"

text \<open>The loop stops with an emission, or passes the gate with the message, closures and next check.\<close>

datatype 'w gate_exit =
    GateStop emission "'w release list" 'w
  | GatePass embelished "'w release list" "int option" 'w

text \<open>
  One round of the loop: an exit, or the message, closures, next check, backoff and world of the next
  round. \<^const>\<open>None\<close> means the gate parks the call.
\<close>

definition gateRound :: "'w wenv \<Rightarrow> 'w Gate \<Rightarrow> int option \<Rightarrow> Request \<Rightarrow> embelished \<Rightarrow> 'w release list
    \<Rightarrow> int option \<Rightarrow> int \<Rightarrow> 'w
    \<Rightarrow> ('w gate_exit + embelished \<times> 'w release list \<times> int option \<times> int \<times> 'w) option" where
  "gateRound E gate gd r msg rels nextCheck backoff w =
     (case emitCancelledResultIfNeeded E msg nextCheck w of
        (Some e, nc, w1) \<Rightarrow> Some (Inl (GateStop e rels w1))
      | (None, nc, w1) \<Rightarrow>
          (case Apply gate (gateCtx E gd w1) (em_ir msg) (Some rels) w1 of
             None \<Rightarrow> None
           | Some gr \<Rightarrow>
               let msg' = msg \<lparr> em_ir := gr_msg gr \<rparr>;
                   rels' = the (gr_releases gr);
                   w2 = gr_state gr;
                   ro = Routing (gr_msg gr)
               in (case gr_err gr of
                     Some err \<Rightarrow>
                       if err_is_deadline err \<or> gateCtxDone E gd w2
                       then (let (e, w3) = finishGateContext E msg' r w2 in Some (Inl (GateStop e rels' w3)))
                       else (let (e, w3) = offerResult E (NewErrorResult r ro ErrCodeGateError
                                  (''Pool gating error: '' @ err_text err)) w2
                             in Some (Inl (GateStop e rels' w3)))
                   | None \<Rightarrow>
                       (case Action (gr_verdict gr) of
                          ActionContinue \<Rightarrow> Some (Inl (GatePass msg' rels' nc w2))
                        | ActionDrop \<Rightarrow>
                            (let (e, w3) = offerResult E (case Result (gr_verdict gr) of Some res \<Rightarrow> res
                                   | None \<Rightarrow> NewGateDroppedResult r ro) w2
                             in Some (Inl (GateStop e rels' w3)))
                        | ActionRefuse \<Rightarrow>
                            (let (e, w3) = offerRetry E msg' 0 w2 in Some (Inl (GateStop e rels' w3)))
                        | ActionWait \<Rightarrow>
                            (let (j, w3) = rnd E w2;
                                 (fired, w4) = timerWait E (jitteredGateWait backoff j) gd w3
                             in if \<not> fired
                                then (let (e, w5) = finishGateContext E msg' r w4 in Some (Inl (GateStop e rels' w5)))
                                else Some (Inr (msg', rels', nc, nextGateWaitBackoff backoff, w4)))))))"

partial_function (option) gateLoop :: "'w wenv \<Rightarrow> 'w Gate \<Rightarrow> int option \<Rightarrow> Request \<Rightarrow> embelished
    \<Rightarrow> 'w release list \<Rightarrow> int option \<Rightarrow> int \<Rightarrow> 'w \<Rightarrow> 'w gate_exit option" where
  "gateLoop E gate gd r msg rels nextCheck backoff w =
     (case gateRound E gate gd r msg rels nextCheck backoff w of
        None \<Rightarrow> None
      | Some (Inl x) \<Rightarrow> Some x
      | Some (Inr (msg', rels', nc, backoff', w')) \<Rightarrow> gateLoop E gate gd r msg' rels' nc backoff' w')"

text \<open>Induction over the rounds of a loop that returns.\<close>

lemma gateLoop_rounds [consumes 1, case_names stop wait]:
  assumes "gateLoop E gate gd r msg rels nc b w = Some x"
    and stop: "\<And>msg rels nc b w x. gateRound E gate gd r msg rels nc b w = Some (Inl x) \<Longrightarrow> P msg rels nc b w x"
    and wait: "\<And>msg rels nc b w msg' rels' nc' b' w' x.
       gateRound E gate gd r msg rels nc b w = Some (Inr (msg', rels', nc', b', w')) \<Longrightarrow>
       P msg' rels' nc' b' w' x \<Longrightarrow> P msg rels nc b w x"
  shows "P msg rels nc b w x"
proof -
  let ?P = "\<lambda>E' gate' gd' r' msg rels nc b w x. E' = E \<longrightarrow> gate' = gate \<longrightarrow> gd' = gd \<longrightarrow> r' = r \<longrightarrow> P msg rels nc b w x"
  have "?P E gate gd r msg rels nc b w x"
  proof (rule gateLoop.raw_induct [where P = ?P, OF _ assms(1)], intro impI)
    fix loop E' gate' gd' r' msg rels nc b w x
    assume IH: "\<And>E' gate' gd' r' msg rels nc b w y. loop E' gate' gd' r' msg rels nc b w = Some y \<Longrightarrow>
        E' = E \<longrightarrow> gate' = gate \<longrightarrow> gd' = gd \<longrightarrow> r' = r \<longrightarrow> P msg rels nc b w y"
      and body: "(case gateRound E' gate' gd' r' msg rels nc b w of None \<Rightarrow> None | Some (Inl x) \<Rightarrow> Some x
         | Some (Inr (msg', rels', nc, backoff', w')) \<Rightarrow> loop E' gate' gd' r' msg' rels' nc backoff' w') = Some x"
      and eq: "E' = E" "gate' = gate" "gd' = gd" "r' = r"
    from body consider (s) "gateRound E gate gd r msg rels nc b w = Some (Inl x)"
      | (t) msg1 rels1 nc1 b1 w1 where "gateRound E gate gd r msg rels nc b w = Some (Inr (msg1, rels1, nc1, b1, w1))"
          "loop E gate gd r msg1 rels1 nc1 b1 w1 = Some x"
      unfolding eq by (auto split: option.splits sum.splits)
    then show "P msg rels nc b w x"
    proof cases
      case s
      then show ?thesis by (rule stop)
    next
      case t
      have "P msg1 rels1 nc1 b1 w1 x" using IH [OF t(2)] by simp
      then show ?thesis by (rule wait [OF t(1)])
    qed
  qed
  then show ?thesis by blast
qed

section \<open>The send\<close>

text \<open>
  What the worker emits for the client's answer. A success without a response makes the worker panic:
  nothing is sent.
\<close>

definition sendOutcome :: "'w wenv \<Rightarrow> embelished \<Rightarrow> Request \<Rightarrow> send_reply \<Rightarrow> 'w \<Rightarrow> emission \<times> 'w" where
  "sendOutcome E msg r sr w =
     (let ro = Routing (em_ir msg) in
      case sr_err sr of
        None \<Rightarrow> (case sr_resp sr of
                  Some resp \<Rightarrow> offerResult E (NewHTTPResult r ro (StatusCode resp) (Body resp)) w
                | None \<Rightarrow> (ELost, w))
      | Some err \<Rightarrow>
          if ctxErr E w \<and> se_ctx err then (ERetry msg 0, w)
          else if sr_cancelled sr then offerResult E (NewCancelledResult r ro) w
          else if sr_deadline sr then offerResult E (NewDeadlineExceededResult r ro) w
          else if (case se_category err of None \<Rightarrow> True | Some c \<Rightarrow> Fatal c) then
            offerResult E (case sr_resp sr of
                Some resp \<Rightarrow> if 0 < StatusCode resp
                  then NewHTTPResult r ro (StatusCode resp) (Body resp)
                  else NewErrorResult r ro ErrCodeInferenceError
                         (''Failed to send request to inference: '' @ se_text err)
              | None \<Rightarrow> NewErrorResult r ro ErrCodeInferenceError
                         (''Failed to send request to inference: '' @ se_text err)) w
          else retryMessage E msg r (se_retryAfter err)
                 (case sr_resp sr of Some resp \<Rightarrow> resp
                  | None \<Rightarrow> \<lparr> StatusCode = 0, Body = '''' \<rparr>) w)"

definition sendInferenceRequest :: "'w wenv \<Rightarrow> int \<Rightarrow> transform list \<Rightarrow> embelished \<Rightarrow> Request \<Rightarrow> string
    \<Rightarrow> int option \<Rightarrow> 'w \<Rightarrow> emission \<times> 'w" where
  "sendInferenceRequest E requestTimeout transforms msg r payloadBytes nextCheck w =
     (let deadline0 = clock E w + requestTimeout;
          reqDeadline = (if 0 < ReqDeadline r \<and> ReqDeadline r * second < deadline0
                         then ReqDeadline r * second else deadline0)
      in case Chain_Apply transforms payloadBytes (ReqMetadata r) of
           Inl terr \<Rightarrow> offerResult E (NewErrorResult r (Routing (em_ir msg)) ErrCodeInvalidRequest
                         (''Failed to transform request body: '' @ terr)) w
         | Inr handled \<Rightarrow>
             let sendPayload = (case handled of None \<Rightarrow> payloadBytes | Some (body, _) \<Rightarrow> body);
                 sendHeaders = (case handled of None \<Rightarrow> HttpHeaders msg
                                | Some (_, contentType) \<Rightarrow> headersWithContentType (HttpHeaders msg) contentType)
             in (case emitCancelledResultIfNeeded E msg nextCheck w of
                   (Some e, _, w1) \<Rightarrow> (e, w1)
                 | (None, _, w1) \<Rightarrow>
                     (case client E (RequestURL msg) sendHeaders sendPayload reqDeadline w1 of
                        (sr, w2) \<Rightarrow> sendOutcome E msg r sr w2)))"

section \<open>One message\<close>

text \<open>
  The result is the emission and the world in which the deferred release of the pool reservations has
  run. \<^const>\<open>None\<close> means the call does not return.
\<close>

definition poolGateExit :: "'w wenv \<Rightarrow> 'w Gate option \<Rightarrow> int \<Rightarrow> embelished \<Rightarrow> Request \<Rightarrow> int option \<Rightarrow> 'w
    \<Rightarrow> 'w gate_exit option" where
  "poolGateExit E poolGate gateWaitTimeout msg r nc w = (case poolGate of
     None \<Rightarrow> Some (GatePass msg [] nc w)
   | Some gate \<Rightarrow> gateLoop E gate (gateDeadline gateWaitTimeout r (clock E w)) r msg [] nc gateWaitInitialBackoff w)"

fun afterGate :: "'w wenv \<Rightarrow> int \<Rightarrow> transform list \<Rightarrow> Request \<Rightarrow> string \<Rightarrow> 'w gate_exit \<Rightarrow> emission \<times> 'w" where
  "afterGate E requestTimeout transforms r payloadBytes (GateStop e rels w) = (e, ReleaseGateReleases rels w)"
| "afterGate E requestTimeout transforms r payloadBytes (GatePass msg rels nc w) =
     (case emitCancelledResultIfNeeded E msg nc w of
        (Some e, _, w1) \<Rightarrow> (e, ReleaseGateReleases rels w1)
      | (None, nc1, w1) \<Rightarrow>
          (case sendInferenceRequest E requestTimeout transforms msg r payloadBytes nc1 w1 of
             (e, w2) \<Rightarrow> (e, ReleaseGateReleases rels w2)))"

definition processMessage :: "'w wenv \<Rightarrow> 'w Gate option \<Rightarrow> int \<Rightarrow> int \<Rightarrow> transform list \<Rightarrow> embelished \<Rightarrow> Request
    \<Rightarrow> 'w \<Rightarrow> (emission \<times> 'w) option" where
  "processMessage E poolGate requestTimeout gateWaitTimeout transforms msg r w =
     (case emitCancelledResultIfNeeded E msg None w of
        (Some e, _, w1) \<Rightarrow> Some (e, w1)
      | (None, nc, w1) \<Rightarrow>
          (case validateAndMarshal E transforms msg r w1 of
             (Inl e, w2) \<Rightarrow> Some (e, w2)
           | (Inr payloadBytes, w2) \<Rightarrow>
               map_option (afterGate E requestTimeout transforms r payloadBytes)
                 (poolGateExit E poolGate gateWaitTimeout msg r nc w2)))"

text \<open>The three ways through a message.\<close>

lemma processMessage_cases [consumes 1, case_names cancelled invalid gated]:
  assumes "processMessage E poolGate rt gwt ts msg r w = Some (e, w')"
  obtains nc where "emitCancelledResultIfNeeded E msg None w = (Some e, nc, w')"
  | nc w1 where "emitCancelledResultIfNeeded E msg None w = (None, nc, w1)"
      "validateAndMarshal E ts msg r w1 = (Inl e, w')"
  | nc w1 p w2 x where "emitCancelledResultIfNeeded E msg None w = (None, nc, w1)"
      "validateAndMarshal E ts msg r w1 = (Inr p, w2)"
      "poolGateExit E poolGate gwt msg r nc w2 = Some x" "afterGate E rt ts r p x = (e, w')"
  using assms by (auto simp: processMessage_def split: prod.splits option.splits sum.splits)

text \<open>Draining after \<open>consumeCtx\<close> ends: every buffered message is handed back without backoff.\<close>

definition drainMessages :: "embelished list \<Rightarrow> emission list" where
  "drainMessages msgs =
     map (\<lambda>m. ERetry m 0) (filter (\<lambda>m. PublicRequest (em_ir m) \<noteq> None) msgs)"

section \<open>What the worker relies on\<close>

text \<open>
  A relation between worlds that every environment operation respects is respected by everything the
  worker does outside the gate: the clock running on is one instance, reservations being untouched is
  another.
\<close>

locale env_rel =
  fixes E :: "'w wenv" and Q :: "'w \<Rightarrow> 'w \<Rightarrow> bool"
  assumes rel_refl: "Q w w" and rel_trans: "Q w w' \<Longrightarrow> Q w' w'' \<Longrightarrow> Q w w''"
    and rel_isCancelled: "Q w (snd (isCancelled E i t w))"
    and rel_offer: "Q w (snd (offer E w))"
    and rel_rnd: "Q w (snd (rnd E w))"
    and rel_timer: "Q w (snd (timerWait E d gd w))"
    and rel_client: "Q w (snd (client E u h p d w))"
begin

lemma rel_offers [intro]: "Q w (snd (offerResult E res w))" "Q w (snd (offerRetry E msg b w))"
  using rel_offer by (simp_all add: offerResult_def offerRetry_def split_def Let_def)

lemma rel_cancel_offer:
  "Q w (snd (offer E (snd (isCancelled E i t w))))"
  by (rule rel_trans [OF rel_isCancelled rel_offer])

lemma rel_emitCancelled: "Q w (snd (snd (emitCancelledResultIfNeeded E msg nc w)))"
  using rel_refl rel_isCancelled rel_cancel_offer
  by (auto simp: emitCancelledResultIfNeeded_def offerRetry_def offerResult_def Let_def split_def
      split: option.split bool.split)

lemma rel_validate: "Q w (snd (validateAndMarshal E ts msg r w))"
  using rel_refl rel_offer
  by (auto simp: validateAndMarshal_def offerResult_def Let_def split_def split: option.split)

lemma rel_finish: "Q w (snd (finishGateContext E msg r w))"
  using rel_offer by (auto simp: finishGateContext_def)

lemma rel_retryMessage: "Q w (snd (retryMessage E msg r ra lr w))"
proof -
  have "Q w (snd (rnd E (snd (rnd E w))))" by (rule rel_trans [OF rel_rnd rel_rnd])
  then show ?thesis
    using rel_trans [OF rel_rnd rel_offers(2)] rel_trans [OF _ rel_offers(2)]
    by (auto simp: retryMessage_def Let_def split_def)
qed

lemma rel_outcome: "Q w (snd (sendOutcome E msg r sr w))"
  using rel_refl rel_offers(1) rel_retryMessage
  by (auto simp: sendOutcome_def Let_def split: option.split)

lemma rel_send: "Q w (snd (sendInferenceRequest E rt ts msg r p nc w))"
proof -
  obtain e nc1 w1 where c: "emitCancelledResultIfNeeded E msg nc w = (e, nc1, w1)" by (metis prod_cases3)
  have w1: "Q w w1" using rel_emitCancelled [of w msg nc] c by simp
  have cl: "Q w (snd (client E u h p d w1))" for u h p d by (rule rel_trans [OF w1 rel_client])
  show ?thesis
    using w1 rel_trans [OF cl rel_outcome]
    by (auto simp: sendInferenceRequest_def Let_def split_def c split: sum.split option.split)
qed

end

locale worker_env =
  fixes E :: "'w wenv"
  assumes clock_isCancelled: "clock E w \<le> clock E (snd (isCancelled E i t w))"
    and clock_offer: "clock E w \<le> clock E (snd (offer E w))"
    and clock_rnd: "clock E w \<le> clock E (snd (rnd E w))"
    and clock_timer: "clock E w \<le> clock E (snd (timerWait E d gd w))"
    and clock_client: "clock E w \<le> clock E (snd (client E u h p d w))"
    and offer_lost: "\<not> fst (offer E w) \<Longrightarrow> ctxErr E w"
    and timer_fired: "fst (timerWait E d gd w) \<Longrightarrow> clock E w + d \<le> clock E (snd (timerWait E d gd w))"
    and timer_done: "\<not> fst (timerWait E d gd w) \<Longrightarrow> gateCtxDone E gd (snd (timerWait E d gd w))"
    and timer_first: "gateCtxDone E gd w \<Longrightarrow> 0 < d \<Longrightarrow> \<not> fst (timerWait E d gd w)"
    and rnd_range: "0 \<le> fst (rnd E w)" "fst (rnd E w) < 1"
    and gateCtx_done: "ctx_done (gateCtx E gd w) = gateCtxDone E gd w"

sublocale worker_env \<subseteq> clk: env_rel E "\<lambda>w w'. clock E w \<le> clock E w'"
  using clock_isCancelled clock_offer clock_rnd clock_timer clock_client
  by unfold_locales auto

lemma jitteredGateWait_bounds:
  assumes "0 \<le> j" "j < 1" "0 \<le> b"
  shows "b div 2 \<le> jitteredGateWait b j" "jitteredGateWait b j \<le> b"
proof -
  have "0 \<le> j * real_of_int (b - b div 2)" using assms by simp
  then have "0 \<le> \<lfloor>j * real_of_int (b - b div 2)\<rfloor>" by simp
  then show "b div 2 \<le> jitteredGateWait b j" by (simp add: jitteredGateWait_def Let_def)
  have "j * real_of_int (b - b div 2) \<le> real_of_int (b - b div 2)"
    using assms by (intro mult_left_le_one_le) auto
  then have "\<lfloor>j * real_of_int (b - b div 2)\<rfloor> \<le> b - b div 2" by linarith
  then show "jitteredGateWait b j \<le> b" by (simp add: jitteredGateWait_def Let_def)
qed

lemma nextGateWaitBackoff_range:
  "gateWaitInitialBackoff \<le> b \<Longrightarrow> gateWaitInitialBackoff \<le> nextGateWaitBackoff b \<and> nextGateWaitBackoff b \<le> gateWaitMaxBackoff"
  by (simp add: nextGateWaitBackoff_def)

text \<open>The gate answers every call and does not turn the clock back.\<close>

definition gate_answers :: "'w wenv \<Rightarrow> 'w Gate \<Rightarrow> bool" where
  "gate_answers E gate \<longleftrightarrow> (\<forall>c m rels w. \<exists>gr. Apply gate c m (Some rels) w = Some gr \<and> clock E w \<le> clock E (gr_state gr))"

context worker_env
begin

text \<open>Each round of waiting takes at least fifty milliseconds, so the rounds up to the deadline are bounded.\<close>

lemma gateLoop_returns:
  assumes gate: "gate_answers E gate"
    and "t - clock E w \<le> int n * 50000000" "gateWaitInitialBackoff \<le> b"
  shows "\<exists>x. gateLoop E gate (Some t) r msg rels nc b w = Some x"
  using assms(2,3)
proof (induction n arbitrary: w msg rels nc b rule: less_induct)
  case (less n)
  obtain e nc1 w1 where c: "emitCancelledResultIfNeeded E msg nc w = (e, nc1, w1)" by (metis prod_cases3)
  have w1: "clock E w \<le> clock E w1" using clk.rel_emitCancelled [of w msg nc] c by simp
  obtain gr where gr: "Apply gate (gateCtx E (Some t) w1) (em_ir msg) (Some rels) w1 = Some gr"
    "clock E w1 \<le> clock E (gr_state gr)" using gate unfolding gate_answers_def by blast
  obtain j w3 where j: "rnd E (gr_state gr) = (j, w3)" by fastforce
  obtain fired w4 where f: "timerWait E (jitteredGateWait b j) (Some t) w3 = (fired, w4)" by fastforce
  have j01: "0 \<le> j" "j < 1" using rnd_range [of "gr_state gr"] j by simp_all
  have w3: "clock E w \<le> clock E w3" using clock_rnd [of "gr_state gr"] j w1 gr(2) by simp
  have d: "50000000 \<le> jitteredGateWait b j"
    using jitteredGateWait_bounds(1) [OF j01, of b] less.prems(2) by simp
  have w4: "clock E w + 50000000 \<le> clock E w4" if fired
    using timer_fired [of "jitteredGateWait b j" "Some t" w3] f that d w3 by simp
  have n: "n \<noteq> 0" if fired
  proof
    assume "n = 0"
    then have "gateCtxDone E (Some t) w3" using less.prems(1) w3 by (simp add: gateCtxDone_def)
    then show False using timer_first [of "Some t" w3 "jitteredGateWait b j"] d f that by simp
  qed
  have loop: "\<exists>x. gateLoop E gate (Some t) r msg' rels' nc1 (nextGateWaitBackoff b) w4 = Some x"
    if fired for msg' rels'
  proof (rule less.IH [of "n - 1"])
    show "n - 1 < n" using n [OF that] by simp
    show "t - clock E w4 \<le> int (n - 1) * 50000000"
      using w4 [OF that] less.prems(1) n [OF that] by (simp add: of_nat_diff)
    show "gateWaitInitialBackoff \<le> nextGateWaitBackoff b"
      using nextGateWaitBackoff_range [OF less.prems(2)] by simp
  qed
  show ?case
    by (subst gateLoop.simps)
      (use c gr j f loop in
        \<open>auto simp: gateRound_def Let_def split_def split: option.split VerdictAction.split if_split\<close>)
qed

end

lemma gateDeadline_Some:
  "0 < ReqDeadline r \<Longrightarrow> \<exists>t. gateDeadline gwt r now = Some t \<and> t \<le> ReqDeadline r * second"
  by (auto simp: gateDeadline_def Let_def split: option.split)

lemma validate_deadline:
  "validateAndMarshal E ts msg r w = (Inr p, w') \<Longrightarrow> 0 < ReqDeadline r \<and> w' = w"
  by (auto simp: validateAndMarshal_def Let_def split_def split: if_splits option.splits)

context worker_env
begin

lemma gateLoop_returns_from_start:
  assumes "gate_answers E gate" "0 < ReqDeadline r"
  shows "\<exists>x. gateLoop E gate (gateDeadline gwt r now) r msg rels nc gateWaitInitialBackoff w = Some x"
proof -
  obtain t where t: "gateDeadline gwt r now = Some t" using gateDeadline_Some [OF assms(2)] by blast
  have "t - clock E w \<le> int (nat (t - clock E w)) * 50000000" by simp
  from gateLoop_returns [OF assms(1) this, of gateWaitInitialBackoff r msg rels nc] show ?thesis
    unfolding t by simp
qed

lemma poolGateExit_returns:
  assumes "\<forall>gate. poolGate = Some gate \<longrightarrow> gate_answers E gate" "0 < ReqDeadline r"
  shows "\<exists>x. poolGateExit E poolGate gwt msg r nc w = Some x"
  using gateLoop_returns_from_start assms by (cases poolGate) (simp_all add: poolGateExit_def)

lemma processMessage_returns:
  assumes "\<forall>gate. poolGate = Some gate \<longrightarrow> gate_answers E gate"
  shows "\<exists>e w'. processMessage E poolGate rt gwt ts msg r w = Some (e, w')"
proof -
  obtain e nc w1 where c: "emitCancelledResultIfNeeded E msg None w = (e, nc, w1)" by (metis prod_cases3)
  obtain v w2 where v: "validateAndMarshal E ts msg r w1 = (v, w2)" by fastforce
  have "\<exists>x. poolGateExit E poolGate gwt msg r nc w2 = Some x" if "v = Inr p" for p
    using poolGateExit_returns [OF assms] validate_deadline [of E ts msg r w1 p w2] v that by simp
  then show ?thesis using c v by (cases e; cases v) (auto simp: processMessage_def)
qed

end

section \<open>Reservations\<close>

fun gate_exit_ok :: "('w \<Rightarrow> 'o) \<Rightarrow> ('w \<Rightarrow> bool) \<Rightarrow> internal_request \<Rightarrow> 'w \<Rightarrow> 'w gate_exit \<Rightarrow> bool" where
  "gate_exit_ok obs I m w (GateStop e rels w') \<longleftrightarrow> rels = [] \<and> I w' \<and> obs w' = obs w"
| "gate_exit_ok obs I m w (GatePass msg rels nc w') \<longleftrightarrow>
     I w' \<and> (\<forall>f \<in> set rels. release_ok obs I f) \<and> obs (ReleaseGateReleases rels w') = obs w \<and>
     PublicRequest (em_ir msg) = PublicRequest m"

abbreviation (input) untouched :: "('w \<Rightarrow> 'o) \<Rightarrow> ('w \<Rightarrow> bool) \<Rightarrow> 'w \<Rightarrow> 'w \<Rightarrow> bool" where
  "untouched obs I w w' \<equiv> (I w \<longrightarrow> I w' \<and> obs w' = obs w)"

lemma gateRound_balanced:
  assumes E: "env_rel E (untouched obs I)" and G: "gate_contract gate obs I" and I: "I w"
    and round: "gateRound E gate gd r msg [] nc b w = Some y"
  shows "case y of Inl x \<Rightarrow> gate_exit_ok obs I (em_ir msg) w x
     | Inr (msg', rels', nc', b', w') \<Rightarrow> rels' = [] \<and> I w' \<and> obs w' = obs w \<and>
         PublicRequest (em_ir msg') = PublicRequest (em_ir msg)"
proof -
  obtain e nc1 w1 where c: "emitCancelledResultIfNeeded E msg nc w = (e, nc1, w1)" by (metis prod_cases3)
  have w1: "I w1" "obs w1 = obs w" using env_rel.rel_emitCancelled [OF E, of w msg nc] c I by auto
  show ?thesis
  proof (cases e)
    case (Some em)
    then show ?thesis using round c w1 by (auto simp: gateRound_def)
  next
    case None
    then obtain gr where gr: "Apply gate (gateCtx E gd w1) (em_ir msg) (Some []) w1 = Some gr"
      using round c by (auto simp: gateRound_def split: option.splits)
    note inv = gate_contract.apply_inv [OF G w1(1) gr]
    note req = gate_contract.apply_request [OF G w1(1) gr]
    show ?thesis
    proof (cases "passed gr")
      case True
      obtain new where "gr_releases gr = Some new" "\<forall>f \<in> set new. release_ok obs I f"
        "obs (ReleaseGateReleases new (gr_state gr)) = obs w1"
        using gate_contract.apply_grows [OF G w1(1) gr] by auto
      then show ?thesis using round c None gr True inv req w1(2)
        by (auto simp: gateRound_def passed_def Let_def)
    next
      case False
      have keep: "gr_releases gr = Some []" "obs (gr_state gr) = obs w1"
        using gate_contract.apply_keeps [OF G w1(1) gr False] by simp_all
      let ?w2 = "gr_state gr"
      have stay: "I w' \<and> obs w' = obs w" if "untouched obs I ?w2 w'" for w'
        using that inv keep(2) w1(2) by simp
      have timer: "untouched obs I ?w2 (snd (timerWait E d gd (snd (rnd E ?w2))))" for d
        using env_rel.rel_trans [OF E env_rel.rel_rnd [OF E] env_rel.rel_timer [OF E]] by blast
      have late: "untouched obs I ?w2 (snd (finishGateContext E m r (snd (timerWait E d gd (snd (rnd E ?w2))))))" for m d
        using env_rel.rel_trans [OF E timer env_rel.rel_finish [OF E]] by blast
      show ?thesis
        using round c None gr False keep(1) req
          stay [OF timer] stay [OF late] stay [OF env_rel.rel_finish [OF E]] stay [OF env_rel.rel_offers(1) [OF E]]
          stay [OF env_rel.rel_offers(2) [OF E]]
        by (auto simp: gateRound_def passed_def Let_def split_def
            split: option.splits VerdictAction.splits if_splits)
    qed
  qed
qed

lemma gateLoop_balanced:
  assumes E: "env_rel E (untouched obs I)" and G: "gate_contract gate obs I"
    and "gateLoop E gate gd r msg rels nc b w = Some x" "rels = []" "I w"
  shows "gate_exit_ok obs I (em_ir msg) w x"
  using assms(3-)
proof (induction rule: gateLoop_rounds)
  case (stop msg rels nc b w x)
  then show ?case using gateRound_balanced [OF E G, of w gd r msg nc b "Inl x"] by simp
next
  case (wait msg rels nc b w msg' rels' nc' b' w' x)
  then have w': "rels' = []" "I w'" "obs w' = obs w" "PublicRequest (em_ir msg') = PublicRequest (em_ir msg)"
    using gateRound_balanced [OF E G, of w gd r msg nc b "Inr (msg', rels', nc', b', w')"] by simp_all
  then show ?case using wait by (cases x) auto
qed

lemma afterGate_balanced:
  assumes E: "env_rel E (untouched obs I)" and x: "gate_exit_ok obs I m w x"
    and a: "afterGate E rt ts r p x = (e, w')"
  shows "I w' \<and> obs w' = obs w"
proof (cases x)
  case (GateStop em rels w3)
  then show ?thesis using x a by simp
next
  case (GatePass msg rels nc w3)
  then have ok: "I w3" "\<forall>f \<in> set rels. release_ok obs I f" "obs (ReleaseGateReleases rels w3) = obs w"
    using x by simp_all
  have rel: "I (ReleaseGateReleases rels wf) \<and> obs (ReleaseGateReleases rels wf) = obs w"
    if "untouched obs I w3 wf" for wf
    using releases_inv [OF ok(2), of wf] releases_cong [OF ok(2) _ ok(1), of wf] ok that by simp
  obtain c nc1 w4 where c: "emitCancelledResultIfNeeded E msg nc w3 = (c, nc1, w4)" by (metis prod_cases3)
  have q1: "untouched obs I w3 w4" using env_rel.rel_emitCancelled [OF E, of w3 msg nc] c by simp
  have q2: "untouched obs I w3 (snd (sendInferenceRequest E rt ts msg r p nc1 w4))"
    using env_rel.rel_trans [OF E q1 env_rel.rel_send [OF E]] by blast
  show ?thesis using GatePass a c rel [OF q1] rel [OF q2] by (cases c) (auto split: prod.splits)
qed

lemma processMessage_balanced:
  assumes E: "env_rel E (untouched obs I)" and G: "\<forall>gate. poolGate = Some gate \<longrightarrow> gate_contract gate obs I"
    and I: "I w" and run: "processMessage E poolGate rt gwt ts msg r w = Some (e, w')"
  shows "I w' \<and> obs w' = obs w"
  using run
proof (cases rule: processMessage_cases)
  case (cancelled nc)
  then show ?thesis using env_rel.rel_emitCancelled [OF E, of w msg None] I by simp
next
  case (invalid nc w1)
  then show ?thesis
    using env_rel.rel_emitCancelled [OF E, of w msg None] env_rel.rel_validate [OF E, of w1 ts msg r] I by simp
next
  case (gated nc w1 p w2 x)
  have w2: "I w2 \<and> obs w2 = obs w"
    using env_rel.rel_emitCancelled [OF E, of w msg None] env_rel.rel_validate [OF E, of w1 ts msg r] I gated(1,2)
    by simp
  have "gate_exit_ok obs I (em_ir msg) w2 x"
    using gated(3) gateLoop_balanced [OF E] G w2 by (cases poolGate) (auto simp: poolGateExit_def)
  then show ?thesis using afterGate_balanced [OF E _ gated(4)] w2 by metis
qed

section \<open>The one answer\<close>

text \<open>
  An acceptable answer to a request: a result that names it and says what happened, or a retry that
  carries it with a delay that is not negative.
\<close>

fun answer_ok :: "Request \<Rightarrow> emission \<Rightarrow> bool" where
  "answer_ok r (EResult res) \<longleftrightarrow> res_ID res = ReqID r \<and> result_described res"
| "answer_ok r (ERetry m b) \<longleftrightarrow> PublicRequest (em_ir m) = Some r \<and> 0 \<le> b"
| "answer_ok r ELost \<longleftrightarrow> False"

fun exit_ok :: "Request \<Rightarrow> 'w gate_exit \<Rightarrow> bool" where
  "exit_ok r (GateStop e rels w') \<longleftrightarrow> answer_ok r e"
| "exit_ok r (GatePass msg rels nc w') \<longleftrightarrow> PublicRequest (em_ir msg) = Some r"

definition gate_polite :: "'w Gate \<Rightarrow> bool" where
  "gate_polite gate \<longleftrightarrow> (\<forall>c m rels w gr. Apply gate c m (Some rels) w = Some gr \<longrightarrow>
     PublicRequest (gr_msg gr) = PublicRequest m \<and>
     (\<forall>res r. Result (gr_verdict gr) = Some res \<longrightarrow> PublicRequest m = Some r \<longrightarrow>
        res_ID res = ReqID r \<and> result_described res))"

definition client_ok :: "'w wenv \<Rightarrow> bool" where
  "client_ok E \<longleftrightarrow> (\<forall>u h p d w. sr_err (fst (client E u h p d w)) = None \<longrightarrow>
     (\<exists>resp. sr_resp (fst (client E u h p d w)) = Some resp \<and> 0 < StatusCode resp))"

lemma expBackoff_bounds:
  assumes "0 \<le> r" "r < 1" "0 < s"
  shows "0 < expBackoffDuration n s r" "expBackoffDuration n s r < real_of_int s"
    "expBackoffDuration n s r < maxDelaySeconds"
proof -
  let ?t = "min (min maxDelaySeconds (real_of_int s)) (baseDelaySeconds * 2 powr real_of_int n)"
  have t: "0 < ?t" using assms(3) by simp
  then have "\<not> ?t \<le> 0" by linarith
  then have e: "expBackoffDuration n s r = ?t / 2 + r * (?t / 2)"
    using assms(3) by (simp only: expBackoffDuration_def Let_def) simp
  have h: "0 < ?t / 2" using t by linarith
  have "0 \<le> r * (?t / 2)" using assms(1) h by (intro mult_nonneg_nonneg) linarith+
  moreover have "r * (?t / 2) < ?t / 2" using mult_strict_right_mono [OF assms(2) h] by linarith
  ultimately have "0 < expBackoffDuration n s r" "expBackoffDuration n s r < ?t" using e t by linarith+
  then show "0 < expBackoffDuration n s r" "expBackoffDuration n s r < real_of_int s"
    "expBackoffDuration n s r < maxDelaySeconds" by linarith+
qed

lemma retryAfterDelay_bounds:
  assumes "0 < fd" "fd < real_of_int s" "0 \<le> r" "r < 1" "fd < ra"
  shows "fd \<le> retryAfterDelay fd ra s r" "retryAfterDelay fd ra s r < real_of_int s"
proof -
  show "fd \<le> retryAfterDelay fd ra s r" by (simp add: retryAfterDelay_def Let_def)
  have "min ra (real_of_int s / 2) * (1 + r / 4) \<le> real_of_int s / 2 * (5 / 4)"
    using assms by (intro mult_mono) auto
  then show "retryAfterDelay fd ra s r < real_of_int s"
    using assms by (simp add: retryAfterDelay_def Let_def)
qed

context worker_env
begin

lemma retryMessage_retry:
  assumes "retryMessage E msg r ra lr w = (ERetry m b, w')"
  shows "m = bump_retry msg \<and> 0 < b \<and> b < real_of_int (ReqDeadline r - unix_now E w) \<and>
    unix_now E w < ReqDeadline r"
proof -
  let ?s = "ReqDeadline r - unix_now E w"
  have s: "0 < ?s" using assms by (auto simp: retryMessage_def offerResult_def Let_def split_def split: if_splits)
  obtain r1 w1 where r1: "rnd E w = (r1, w1)" by fastforce
  obtain r2 w2 where r2: "rnd E w1 = (r2, w2)" by fastforce
  have r12: "0 \<le> r1" "r1 < 1" "0 \<le> r2" "r2 < 1"
    using rnd_range [of w] rnd_range [of w1] r1 r2 by simp_all
  note b1 = expBackoff_bounds [OF r12(1,2) s, of "RetryCount (Routing (em_ir msg)) + 1"]
  note b2 = retryAfterDelay_bounds [OF b1(1,2) r12(3,4), of "real_of_int ra / 1000000000"]
  show ?thesis
    using assms s r1 r2 b1 b2
    by (auto simp: retryMessage_def offerRetry_def Let_def split_def split: if_splits)
qed

lemma offers_alive:
  assumes "\<forall>w. \<not> ctxErr E w"
  shows "fst (offerResult E res w) = EResult res" "fst (offerRetry E m b w) = ERetry m b"
proof -
  have "fst (offer E w)" for w using offer_lost assms by blast
  then show "fst (offerResult E res w) = EResult res" "fst (offerRetry E m b w) = ERetry m b"
    by (simp_all add: offerResult_def offerRetry_def Let_def split_def)
qed

lemma emitCancelled_ok:
  assumes "\<forall>w. \<not> ctxErr E w" "PublicRequest (em_ir msg) = Some r"
    "emitCancelledResultIfNeeded E msg nc w = (Some e, nc', w')"
  shows "answer_ok r e"
proof -
  have "e = ERetry msg 1 \<or> e = EResult (NewCancelledResult r (Routing (em_ir msg)))"
    using assms(3) offers_alive [OF assms(1)] assms(2)
    by (auto simp: emitCancelledResultIfNeeded_def Let_def split_def
        split: option.splits bool.splits if_splits)
  then show ?thesis using assms(2) by (auto simp: api_simps)
qed

lemma finish_ok:
  assumes "\<forall>w. \<not> ctxErr E w" "PublicRequest (em_ir msg) = Some r"
  shows "answer_ok r (fst (finishGateContext E msg r w))"
  using offers_alive [OF assms(1)] assms(2) by (auto simp: finishGateContext_def api_simps)

lemma validate_ok:
  assumes "\<forall>w. \<not> ctxErr E w" "validateAndMarshal E ts msg r w = (Inl e, w')"
  shows "answer_ok r e"
  using assms(2) offers_alive [OF assms(1)]
  by (auto simp: validateAndMarshal_def Let_def split_def api_simps split: if_splits option.splits)

lemma retryMessage_ok:
  assumes alive: "\<forall>w. \<not> ctxErr E w" and m: "PublicRequest (em_ir msg) = Some r"
  shows "answer_ok r (fst (retryMessage E msg r ra lr w))"
proof -
  obtain e w' where run: "retryMessage E msg r ra lr w = (e, w')" by fastforce
  have "(\<exists>b. e = ERetry (bump_retry msg) b) \<or> e = EResult (deadlineExhaustedResult msg r lr)"
    using run offers_alive [OF alive]
    by (auto simp: retryMessage_def Let_def split_def split: if_splits dest!: arg_cong [where f = fst])
  then show ?thesis
  proof
    assume "\<exists>b. e = ERetry (bump_retry msg) b"
    then obtain b where b: "e = ERetry (bump_retry msg) b" by blast
    then show ?thesis using retryMessage_retry [of msg r ra lr w "bump_retry msg" b w'] run m
      by (simp add: bump_retry_def)
  next
    assume "e = EResult (deadlineExhaustedResult msg r lr)"
    then show ?thesis using run by (simp add: deadlineExhaustedResult_def api_simps)
  qed
qed

end

context worker_env
begin

lemma outcome_ok:
  assumes alive: "\<forall>w. \<not> ctxErr E w" and m: "PublicRequest (em_ir msg) = Some r"
    and reply: "sr_err sr = None \<Longrightarrow> \<exists>resp. sr_resp sr = Some resp \<and> 0 < StatusCode resp"
  shows "answer_ok r (fst (sendOutcome E msg r sr w))"
proof (cases "sr_err sr")
  case None
  then show ?thesis using reply by (auto simp: sendOutcome_def offers_alive [OF alive] api_simps)
next
  case (Some err)
  then show ?thesis using alive retryMessage_ok [OF alive m]
    by (auto simp: sendOutcome_def Let_def offers_alive [OF alive] api_simps split: option.split)
qed

lemma send_ok:
  assumes alive: "\<forall>w. \<not> ctxErr E w" and m: "PublicRequest (em_ir msg) = Some r" and cl: "client_ok E"
  shows "answer_ok r (fst (sendInferenceRequest E rt ts msg r p nc w))"
proof -
  obtain c nc1 w1 where c: "emitCancelledResultIfNeeded E msg nc w = (c, nc1, w1)" by (metis prod_cases3)
  have reply: "answer_ok r (fst (case client E u h pl d w1 of (sr, w2) \<Rightarrow> sendOutcome E msg r sr w2))" for u h pl d
    using cl outcome_ok [OF alive m] unfolding client_ok_def by (simp add: split_def)
  have stop: "answer_ok r e" if "c = Some e" for e using emitCancelled_ok [OF alive m] c that by blast
  show ?thesis
  proof (cases "Chain_Apply ts p (ReqMetadata r)")
    case (Inl terr)
    then show ?thesis by (simp add: sendInferenceRequest_def offers_alive [OF alive] api_simps)
  next
    case (Inr handled)
    then show ?thesis using reply stop by (cases c) (simp_all add: sendInferenceRequest_def Let_def c)
  qed
qed

lemma gateRound_ok:
  assumes alive: "\<forall>w. \<not> ctxErr E w" and g: "gate_polite gate"
    and m: "PublicRequest (em_ir msg) = Some r"
    and round: "gateRound E gate gd r msg rels nc b w = Some y"
  shows "case y of Inl x \<Rightarrow> exit_ok r x | Inr (msg', _) \<Rightarrow> PublicRequest (em_ir msg') = Some r"
proof -
  obtain c nc1 w1 where c: "emitCancelledResultIfNeeded E msg nc w = (c, nc1, w1)" by (metis prod_cases3)
  show ?thesis
  proof (cases c)
    case (Some e)
    then show ?thesis using round c emitCancelled_ok [OF alive m] by (auto simp: gateRound_def)
  next
    case None
    then obtain gr where gr: "Apply gate (gateCtx E gd w1) (em_ir msg) (Some rels) w1 = Some gr"
      using round c by (auto simp: gateRound_def split: option.splits)
    have m': "PublicRequest (gr_msg gr) = Some r"
      and res: "Result (gr_verdict gr) = Some res \<Longrightarrow> res_ID res = ReqID r \<and> result_described res" for res
      using g gr m unfolding gate_polite_def by metis+
    have fin: "answer_ok r (fst (finishGateContext E (msg \<lparr> em_ir := gr_msg gr \<rparr>) r w'))" for w'
      using finish_ok [OF alive, of "msg \<lparr> em_ir := gr_msg gr \<rparr>"] m' by simp
    show ?thesis
      using round c None gr m' res fin
      by (auto simp: gateRound_def Let_def split_def offers_alive [OF alive] api_simps
          split: option.splits VerdictAction.splits if_splits)
  qed
qed

lemma gateLoop_ok:
  assumes alive: "\<forall>w. \<not> ctxErr E w" and g: "gate_polite gate"
    and "gateLoop E gate gd r msg rels nc b w = Some x" "PublicRequest (em_ir msg) = Some r"
  shows "exit_ok r x"
  using assms(3-)
proof (induction rule: gateLoop_rounds)
  case (stop msg rels nc b w x)
  then show ?case using gateRound_ok [OF alive g] by fastforce
next
  case (wait msg rels nc b w msg' rels' nc' b' w' x)
  then show ?case using gateRound_ok [OF alive g wait.prems wait.hyps] by simp
qed

lemma processMessage_ok:
  assumes alive: "\<forall>w. \<not> ctxErr E w" and g: "\<forall>gate. poolGate = Some gate \<longrightarrow> gate_polite gate"
    and cl: "client_ok E" and m: "PublicRequest (em_ir msg) = Some r"
    and run: "processMessage E poolGate rt gwt ts msg r w = Some (e, w')"
  shows "answer_ok r e"
  using run
proof (cases rule: processMessage_cases)
  case (cancelled nc)
  then show ?thesis using emitCancelled_ok [OF alive m] by blast
next
  case (invalid nc w1)
  then show ?thesis using validate_ok [OF alive] by blast
next
  case (gated nc w1 p w2 x)
  have x: "exit_ok r x"
    using gated(3) gateLoop_ok [OF alive _ _ m] g m by (cases poolGate) (auto simp: poolGateExit_def)
  show ?thesis
  proof (cases x)
    case (GateStop em rels w3)
    then show ?thesis using gated(4) x by simp
  next
    case (GatePass msg1 rels nc1 w3)
    have m1: "PublicRequest (em_ir msg1) = Some r" using x GatePass by simp
    obtain c nc2 w4 where c: "emitCancelledResultIfNeeded E msg1 nc1 w3 = (c, nc2, w4)" by (metis prod_cases3)
    show ?thesis
      using gated(4) GatePass c emitCancelled_ok [OF alive m1 , of nc1 w3] send_ok [OF alive m1 cl, of rt ts p nc2 w4]
      by (cases c) (auto split: prod.splits)
  qed
qed

end

section \<open>A simulated environment\<close>

text \<open>
  An environment that obeys the laws: time moves by waiting and by sending, the client answers after a
  fixed time or is cut off at its deadline, and the state of one gate rides along. The request context
  ends with the world's flag when it is stoppable.
\<close>

record 's world =
  w_now :: int
  w_stop :: bool
  w_gate :: 's

definition cut_off :: send_reply where
  "cut_off = \<lparr> sr_resp = None,
     sr_err = Some \<lparr> se_ctx = True, se_category = Some ErrCategoryUnknown, se_retryAfter = 0,
                     se_text = ''context deadline exceeded'' \<rparr>,
     sr_cancelled = False, sr_deadline = True \<rparr>"

definition sim_env :: "bool \<Rightarrow> (string \<Rightarrow> bool option) \<Rightarrow> int \<Rightarrow> send_reply \<Rightarrow> 's world wenv" where
  "sim_env stoppable cancelled took answer =
     \<lparr> clock = w_now, ctxErr = (\<lambda>w. stoppable \<and> w_stop w), hasChecker = True,
       isCancelled = (\<lambda>i t w. (cancelled i, w)),
       offer = (\<lambda>w. (\<not> (stoppable \<and> w_stop w), w)),
       timerWait = (\<lambda>d gd w.
         if stoppable \<and> w_stop w then (False, w)
         else case gd of None \<Rightarrow> (True, w \<lparr> w_now := w_now w + max 0 d \<rparr>)
              | Some t \<Rightarrow> if t \<le> w_now w then (0 \<ge> d, w)
                         else if t < w_now w + d then (False, w \<lparr> w_now := t \<rparr>)
                         else (True, w \<lparr> w_now := w_now w + max 0 d \<rparr>)),
       gateCtx = (\<lambda>gd w. \<lparr> ctx_done = (stoppable \<and> w_stop w \<or> (case gd of None \<Rightarrow> False | Some t \<Rightarrow> t \<le> w_now w)),
                           ctx_pick_done = False, ctx_fail = False \<rparr>),
       rnd = (\<lambda>w. (1 / 2, w)),
       client = (\<lambda>u h p d w. if w_now w + max 0 took < d
                            then (answer, w \<lparr> w_now := w_now w + max 0 took \<rparr>)
                            else (cut_off, w \<lparr> w_now := max (w_now w) d \<rparr>)) \<rparr>"

interpretation sim: worker_env "sim_env stoppable cancelled took answer"
  by unfold_locales (auto simp: sim_env_def gateCtxDone_def split: option.splits if_splits)

interpretation sim_gate: env_rel "sim_env stoppable cancelled took answer" "untouched (\<lambda>w. f (w_gate w)) (\<lambda>w. True)"
  by unfold_locales (auto simp: sim_env_def split: option.splits)

text \<open>The local concurrency gate as the gate of a pool.\<close>

definition pool_lc :: "lcg world Gate" where
  "pool_lc = gate_on w_gate (\<lambda>g w. w \<lparr> w_gate := g \<rparr>) LocalConcurrencyGate"

lemma pool_lc_contract: "gate_contract pool_lc (\<lambda>w. (lc_inFlight (w_gate w), ())) (\<lambda>w. True)"
  unfolding pool_lc_def by (rule gate_on_contract [OF _ _ lc.gate_contract_axioms]) simp_all

text \<open>A gate that is closed for good, behind the wrapper that waits.\<close>

definition shut_gate :: "'w Gate" where
  "shut_gate = WaitOnRefuseGate (DispatchGateFunc (\<lambda>c w. (Fin 0, w)))"

definition demo_request :: Request where
  "demo_request = RequestMessage (empty_request_message \<lparr> rm_ID := ''r1'', rm_Deadline := 100 \<rparr>)"

definition demo_msg :: embelished where
  "demo_msg = \<lparr> em_ir = NewInternalRequest empty_routing demo_request, HttpHeaders = Map.empty,
     RequestURL = ''http://gw/v1/completions'', WorkerPoolID = ''pool'' \<rparr>"

definition ok_reply :: send_reply where
  "ok_reply = \<lparr> sr_resp = Some \<lparr> StatusCode = 200, Body = ''{}'' \<rparr>, sr_err = None,
     sr_cancelled = False, sr_deadline = False \<rparr>"

definition demo_world :: "'s \<Rightarrow> 's world" where
  "demo_world g = \<lparr> w_now = 5 * second, w_stop = False, w_gate = g \<rparr>"

lemma demo_request_sel [simp]:
  "ReqID demo_request = ''r1''" "ReqDeadline demo_request = 100" "ReqPayload demo_request = None"
  by (simp_all add: demo_request_def ReqID_def ReqDeadline_def ReqPayload_def empty_request_message_def)

lemma demo_msg_sel [simp]:
  "Routing (em_ir demo_msg) = empty_routing" "PublicRequest (em_ir demo_msg) = Some demo_request"
  by (simp_all add: demo_msg_def NewInternalRequest_def)

lemma shut_gate_apply [simp]:
  "Apply shut_gate c m rels w = reply (Refuse \<lparr> Action := ActionWait \<rparr>) None m rels w"
  by (simp add: shut_gate_def WaitOnRefuseGate_def DispatchGateFunc_def reply_def Refuse_def)

lemma shut_gate_ok: "gate_answers E shut_gate" "gate_polite shut_gate"
  by (auto simp: gate_answers_def gate_polite_def reply_def Refuse_def)

lemma sim_client_ok: "client_ok (sim_env stoppable cancelled took ok_reply)"
  by (simp add: client_ok_def sim_env_def ok_reply_def cut_off_def)

lemma sim_alive: "\<forall>w. \<not> ctxErr (sim_env False cancelled took answer) w"
  by (simp add: sim_env_def)

section \<open>Properties\<close>



text \<open>
  C6: Whatever way a message takes through the worker (cancelled, invalid, dropped, refused, timed out
  at the gate, sent, retried), when it is done the reservations the pool gate took for it have been
  given back: the state the gate counts in is what it was before the message.
\<close>

theorem pool_reservations_returned:
  assumes "env_rel E (\<lambda>w w'. I w \<longrightarrow> I w' \<and> obs w' = obs w)"
    and "\<forall>gate. poolGate = Some gate \<longrightarrow> gate_contract gate obs I"
    and "I w" "processMessage E poolGate requestTimeout gateWaitTimeout transforms msg r w = Some (e, w')"
  shows "I w' \<and> obs w' = obs w"
  by (rule processMessage_balanced [OF assms])

theorem pool_reservations_returned_witness:
  "\<exists>e w'. processMessage (sim_env False (\<lambda>_. Some False) second ok_reply) (Some pool_lc) (30 * second) (300 * second) []
     demo_msg demo_request (demo_world (NewLocalConcurrencyGate 1)) = Some (e, w') \<and>
     e = EResult (NewHTTPResult demo_request empty_routing 200 ''{}'') \<and> lc_inFlight (w_gate w') = 0"
proof -
  let ?E = "sim_env False (\<lambda>_. Some False) second ok_reply"
  let ?w = "demo_world (NewLocalConcurrencyGate 1)"
  have "gateLoop ?E pool_lc (Some (100 * second)) demo_request demo_msg [] (Some (6 * second)) gateWaitInitialBackoff ?w =
    Some (GatePass demo_msg [lift_release w_gate (\<lambda>g w. w \<lparr> w_gate := g \<rparr>) (Some lc_release)] (Some (6 * second))
      (demo_world (NewLocalConcurrencyGate 1 \<lparr> lc_inFlight := 1 \<rparr>)))"
    by (subst gateLoop.simps)
      (simp add: gateRound_def emitCancelledResultIfNeeded_def sim_env_def demo_msg_def NewInternalRequest_def
        demo_world_def pool_lc_def gate_on_def LocalConcurrencyGate_def lc_Apply_def NewLocalConcurrencyGate_def
        append_release_def reply_def Continue_def Let_def)
  then have "\<exists>w'. processMessage ?E (Some pool_lc) (30 * second) (300 * second) [] demo_msg demo_request ?w =
      Some (EResult (NewHTTPResult demo_request empty_routing 200 ''{}''), w')"
    by (simp add: processMessage_def emitCancelledResultIfNeeded_def validateAndMarshal_def poolGateExit_def
      gateDeadline_def unix_now_def sendInferenceRequest_def sendOutcome_def offerResult_def demo_world_def
      ok_reply_def sim_env_def Let_def)
  then obtain w' where run: "processMessage ?E (Some pool_lc) (30 * second) (300 * second) [] demo_msg demo_request ?w =
      Some (EResult (NewHTTPResult demo_request empty_routing 200 ''{}''), w')" by blast
  have "(lc_inFlight (w_gate w'), ()) = (lc_inFlight (w_gate ?w), ())"
    using pool_reservations_returned [OF sim_gate.env_rel_axioms [where f = "\<lambda>g. (lc_inFlight g, ())"] _ _ run]
      pool_lc_contract by simp
  then show ?thesis using run by (simp add: demo_world_def NewLocalConcurrencyGate_def)
qed

text \<open>
  C21: A retry comes back before the deadline: when a failed send leads to a retry, the request goes
  back with its retry count one higher and nothing else changed, and the delay is positive and shorter
  than the whole seconds left to the request's deadline, whether it comes from the exponential backoff
  or from the server's Retry-After hint; without time left there is no retry but a terminal result.
\<close>

theorem retry_comes_back_before_deadline:
  assumes "worker_env E" "retryMessage E msg r retryAfter lastResp w = (e, w')"
  shows "(ReqDeadline r \<le> unix_now E w \<longrightarrow> e = EResult (deadlineExhaustedResult msg r lastResp) \<or> e = ELost)
   \<and> (unix_now E w < ReqDeadline r \<longrightarrow> (\<exists>m b. e = ERetry m b) \<or> e = ELost)
   \<and> (\<forall>m b. e = ERetry m b \<longrightarrow> m = bump_retry msg \<and> 0 < b \<and> b < real_of_int (ReqDeadline r - unix_now E w))"
proof (intro conjI allI impI)
  show "e = EResult (deadlineExhaustedResult msg r lastResp) \<or> e = ELost" if "ReqDeadline r \<le> unix_now E w"
    using that assms(2) by (auto simp: retryMessage_def offerResult_def Let_def split_def split: if_splits)
  show "(\<exists>m b. e = ERetry m b) \<or> e = ELost" if "unix_now E w < ReqDeadline r"
    using that assms(2) by (auto simp: retryMessage_def offerRetry_def Let_def split_def split: if_splits)
  fix m b
  assume "e = ERetry m b"
  with assms(2) have "retryMessage E msg r retryAfter lastResp w = (ERetry m b, w')" by simp
  from worker_env.retryMessage_retry [OF assms(1) this]
  show "m = bump_retry msg" "0 < b" "b < real_of_int (ReqDeadline r - unix_now E w)" by blast+
qed

theorem retry_comes_back_before_deadline_witness:
  "retryMessage (sim_env False (\<lambda>_. Some False) 0 ok_reply) demo_msg demo_request (3600 * second)
     \<lparr> StatusCode = 503, Body = '''' \<rparr> (demo_world ()) = (ERetry (bump_retry demo_msg) (855 / 16), demo_world ())
   \<and> (855 / 16 :: real) < 95"
proof -
  let ?E = "sim_env False (\<lambda>_. Some False) 0 ok_reply"
  have run: "retryMessage ?E demo_msg demo_request (3600 * second) \<lparr> StatusCode = 503, Body = '''' \<rparr> (demo_world ()) =
      (ERetry (bump_retry demo_msg) (855 / 16), demo_world ())"
    by (simp add: retryMessage_def sim_env_def unix_now_def demo_world_def expBackoffDuration_def retryAfterDelay_def
      offerRetry_def empty_routing_def Let_def)
  then show ?thesis
    using retry_comes_back_before_deadline [OF sim.worker_env_axioms run] by simp
qed

text \<open>
  C29: A request whose own deadline lies far ahead still ends with a terminal DEADLINE_EXCEEDED result,
  and is never retried, when one downstream attempt takes longer than the request timeout of the
  worker: the attempt is cut off at now plus the request timeout, before the deadline the request
  carries.
\<close>

theorem request_timeout_is_terminal:
  assumes "\<not> w_stop w" "0 \<le> requestTimeout" "requestTimeout \<le> took"
    and "PublicRequest (em_ir msg) = Some r" "w_now w + requestTimeout < ReqDeadline r * second" "0 \<le> w_now w"
    and "cancelled (ReqID r) = Some False" "Chain_Validate transforms (case ReqPayload r of None \<Rightarrow> ''null''
           | Some p \<Rightarrow> if p = '''' then ''null'' else p) (ReqMetadata r) (ReqDeadline r) = None"
    and "\<And>p. \<exists>h. Chain_Apply transforms p (ReqMetadata r) = Inr h"
  shows "processMessage (sim_env True cancelled took answer) None requestTimeout gateWaitTimeout transforms msg r w =
      Some (EResult (NewDeadlineExceededResult r (Routing (em_ir msg))), w \<lparr> w_now := w_now w + requestTimeout \<rparr>)
    \<and> w_now w + requestTimeout < ReqDeadline r * second"
proof -
  let ?E = "sim_env True cancelled took answer"
  have d: "0 < ReqDeadline r" "\<not> ReqDeadline r < w_now w div second" using assms(2,5,6) by linarith+
  have check: "emitCancelledResultIfNeeded ?E msg nc w =
      (None, if (case nc of None \<Rightarrow> False | Some t \<Rightarrow> w_now w < t) then nc else Some (w_now w + second), w)" for nc
    using assms(4,7) by (simp add: emitCancelledResultIfNeeded_def sim_env_def)
  have valid: "\<exists>p. validateAndMarshal ?E transforms msg r w = (Inr p, w)"
    using d assms(8) by (simp add: validateAndMarshal_def sim_env_def unix_now_def Let_def)
  have send: "sendInferenceRequest ?E requestTimeout transforms msg r p nc w =
      (EResult (NewDeadlineExceededResult r (Routing (em_ir msg))), w \<lparr> w_now := w_now w + requestTimeout \<rparr>)" for p nc
    using assms(1,2,3,5) assms(9) [of p]
    by (auto simp: sendInferenceRequest_def check Let_def)
      (auto simp: sim_env_def sendOutcome_def cut_off_def offerResult_def max_def)
  show ?thesis
    using valid check send assms(5) by (auto simp: processMessage_def poolGateExit_def)
qed

theorem request_timeout_is_terminal_witness:
  "processMessage (sim_env True (\<lambda>_. Some False) (60 * second) ok_reply) None (30 * second) (300 * second) [] demo_msg demo_request
     (demo_world ()) = Some (EResult (NewDeadlineExceededResult demo_request empty_routing), demo_world () \<lparr> w_now := 35 * second \<rparr>)
   \<and> 35 * second < ReqDeadline demo_request * second"
  using request_timeout_is_terminal [of "demo_world ()" "30 * second" "60 * second" demo_msg demo_request "\<lambda>_. Some False" "[]"
      ok_reply "300 * second"]
  by (simp add: demo_world_def)

end
