(* ===== verification/Quota.thy ===== *)
theory Quota
  imports Flow_Gates Redis
begin

text \<open>
  The per-attribute quota gate of \<open>src/pkg/async/inference/flowcontrol/quota_gate.go\<close> and the quota
  counters in Redis of \<open>src/pkg/redis/quota_store.go\<close>.

  The gate uses a store through the record \<open>quota_store_ops\<close>; the locale \<open>quota_store\<close> says what it
  relies on, and every store that meets it makes the gate meet the contract of \<open>Gate\<close>. The Redis store
  is interpreted for every server that obeys \<open>redis_server\<close>. Sorted-set scores are doubles, so the
  rounding of a nanosecond time to a double is the argument \<open>dbl\<close>, of which only monotonicity is used.
\<close>

section \<open>The store interface\<close>

text \<open>An acquired slot comes with the closure that returns it.\<close>

record 's quota_store_ops =
  AcquireSlot :: "gctx \<Rightarrow> string \<Rightarrow> int \<Rightarrow> 's \<Rightarrow> (gate_error + ('s \<Rightarrow> 's) option) \<times> 's"
  Admit :: "gctx \<Rightarrow> string \<Rightarrow> int \<Rightarrow> int \<Rightarrow> 's \<Rightarrow> (gate_error + bool) \<times> 's"

abbreviation (input) QuotaModeRateLimit :: string where "QuotaModeRateLimit \<equiv> ''rate-limit''"
abbreviation (input) QuotaModeConcurrency :: string where "QuotaModeConcurrency \<equiv> ''concurrency''"

record quota_gate =
  qg_attribute :: string
  qg_mode :: string
  qg_gatingMode :: GatingMode
  qg_limit :: int
  qg_window :: int
  qg_prefix :: string

definition NewQuotaGate :: "string \<Rightarrow> string \<Rightarrow> int \<Rightarrow> int \<Rightarrow> string \<Rightarrow> quota_gate" where
  "NewQuotaGate attribute mode limit window prefix =
     \<lparr> qg_attribute = attribute, qg_mode = mode, qg_gatingMode = GatingModeBlocking, qg_limit = limit,
       qg_window = window, qg_prefix = prefix \<rparr>"

definition QuotaGate_WithGatingMode :: "GatingMode \<Rightarrow> quota_gate \<Rightarrow> quota_gate" where
  "QuotaGate_WithGatingMode mode g = g \<lparr> qg_gatingMode := mode \<rparr>"

abbreviation (input) ReasonQuotaExhausted :: string where "ReasonQuotaExhausted \<equiv> ''quota_exhausted''"

definition quotaKey :: "quota_gate \<Rightarrow> string \<Rightarrow> string" where
  "quotaKey g val = qg_prefix g @ qg_attribute g @ '':'' @ val"

text \<open>What the store said: an error, not admitted, or admitted with the closure of a slot if there is one.\<close>

definition quotaAdmission :: "'s quota_store_ops \<Rightarrow> quota_gate \<Rightarrow> gctx \<Rightarrow> string \<Rightarrow> 's
    \<Rightarrow> (gate_error + ('s \<Rightarrow> 's) option option) \<times> 's" where
  "quotaAdmission store g ctx key s =
     (if qg_mode g = QuotaModeConcurrency then
        (case AcquireSlot store ctx key (qg_limit g) s of
           (Inl e, s') \<Rightarrow> (Inl (Wrapped (''quota gate '' @ key) e), s')
         | (Inr None, s') \<Rightarrow> (Inr None, s')
         | (Inr (Some release), s') \<Rightarrow> (Inr (Some (Some release)), s'))
      else if qg_mode g = QuotaModeRateLimit then
        (case Admit store ctx key (qg_limit g) (qg_window g) s of
           (Inl e, s') \<Rightarrow> (Inl (Wrapped (''quota gate '' @ key) e), s')
         | (Inr ok, s') \<Rightarrow> (Inr (if ok then Some None else None), s'))
      else (Inl (UnknownQuotaMode (qg_mode g)), s))"

definition classify :: "string \<Rightarrow> internal_request \<Rightarrow> internal_request" where
  "classify c msg = msg \<lparr> Routing := SetClassification c (Routing msg) \<rparr>"

text \<open>A request without its public part is a nil dereference: the call does not return.\<close>

definition QuotaGate_Apply :: "'s quota_store_ops \<Rightarrow> quota_gate \<Rightarrow> gctx \<Rightarrow> internal_request
    \<Rightarrow> 's release list option \<Rightarrow> 's \<Rightarrow> 's gate_reply option" where
  "QuotaGate_Apply store g ctx msg releases s =
     (case PublicRequest msg of None \<Rightarrow> None
      | Some r \<Rightarrow> (case ReqMetadata r (qg_attribute g) of
          None \<Rightarrow> reply Continue None msg releases s
        | Some val \<Rightarrow> (case quotaAdmission store g ctx (quotaKey g val) s of
              (Inl e, s') \<Rightarrow> reply zero_verdict (Some e) msg releases s'
            | (Inr None, s') \<Rightarrow>
                if qg_gatingMode g = GatingModeBlocking
                then reply (WithReason Refuse ReasonQuotaExhausted) None
                       (classify ClassificationOverflow msg) releases s'
                else reply Continue None (classify ClassificationOverflow msg) releases s'
            | (Inr (Some release), s') \<Rightarrow>
                reply Continue None (classify ClassificationReserved msg)
                  (case release of None \<Rightarrow> releases | Some f \<Rightarrow> append_release f releases) s')))"

definition QuotaGate :: "'s quota_store_ops \<Rightarrow> quota_gate \<Rightarrow> 's Gate" where
  "QuotaGate store g = \<lparr> Budget = (\<lambda>ctx s. (Fin 1, s)), Apply = QuotaGate_Apply store g \<rparr>"

section \<open>What the gate relies on\<close>

locale quota_store =
  fixes S :: "'s quota_store_ops" and obs :: "'s \<Rightarrow> 'o" and I :: "'s \<Rightarrow> bool"
  assumes acquire_inv: "I s \<Longrightarrow> I (snd (AcquireSlot S c k n s))"
    and acquire_slot: "I s \<Longrightarrow> AcquireSlot S c k n s = (Inr (Some f), s') \<Longrightarrow>
          release_ok obs I (Some f) \<and> obs (f s') = obs s"
    and acquire_none: "I s \<Longrightarrow> AcquireSlot S c k n s = (Inr None, s') \<Longrightarrow> obs s' = obs s"
    and acquire_err: "I s \<Longrightarrow> AcquireSlot S c k n s = (Inl e, s') \<Longrightarrow> obs s' = obs s"
    and admit_inv: "I s \<Longrightarrow> I (snd (Admit S c k n t s)) \<and> obs (snd (Admit S c k n t s)) = obs s"
begin

lemma admission_inv: "I s \<Longrightarrow> I (snd (quotaAdmission S g c k s))"
  using acquire_inv [of s c k "qg_limit g"] admit_inv [of s c k "qg_limit g" "qg_window g"]
  by (auto simp: quotaAdmission_def split: prod.splits sum.splits option.splits)

lemma admission_keeps:
  "I s \<Longrightarrow> quotaAdmission S g c k s = (x, s') \<Longrightarrow> \<nexists>f. x = Inr (Some (Some f)) \<Longrightarrow> obs s' = obs s"
  using acquire_none [of s c k "qg_limit g"] acquire_err [of s c k "qg_limit g"]
    admit_inv [of s c k "qg_limit g" "qg_window g"]
  by (auto simp: quotaAdmission_def split: if_splits prod.splits sum.splits option.splits)

lemma admission_slot:
  "I s \<Longrightarrow> quotaAdmission S g c k s = (Inr (Some (Some f)), s') \<Longrightarrow> release_ok obs I (Some f) \<and> obs (f s') = obs s"
  using acquire_slot [of s c k "qg_limit g" f s']
  by (auto simp: quotaAdmission_def split: if_splits prod.splits sum.splits option.splits)

end

text \<open>The quota gate meets the contract of gates over every store that meets its own.\<close>

lemma classify_request [simp]: "PublicRequest (classify c m) = PublicRequest m"
  by (simp add: classify_def)

sublocale quota_store \<subseteq> qgate: gate_contract "QuotaGate S g" obs I
proof (unfold_locales, goal_cases)
  case (1 s c m rel r)
  then show ?case using admission_inv [of s g c]
    by (auto simp: QuotaGate_def QuotaGate_Apply_def reply_def
        split: option.splits prod.splits sum.splits if_splits) (metis snd_conv)+
next
  case (2 s c m rel r)
  then show ?case
    by (auto simp: QuotaGate_def QuotaGate_Apply_def reply_def
        split: option.splits prod.splits sum.splits if_splits)
next
  case (3 s c m r)
  then show ?case
    by (auto simp: QuotaGate_def QuotaGate_Apply_def reply_def append_release_def
        split: option.splits prod.splits sum.splits if_splits)
next
  case (4 s c m rels r)
  then show ?case using admission_keeps [of s g c] admission_slot [of s g c]
    by (fastforce simp: QuotaGate_def QuotaGate_Apply_def reply_def append_release_def
        split: option.splits prod.splits sum.splits if_splits)
next
  case (5 s c m rels r)
  then show ?case using admission_keeps [of s g c]
    by (fastforce simp: QuotaGate_def QuotaGate_Apply_def reply_def passed_def append_release_def Continue_def
        split: option.splits prod.splits sum.splits if_splits)
next
  case (6 s c)
  then show ?case by (simp add: QuotaGate_def)
qed

section \<open>Counters in Redis\<close>

text \<open>The world of the store: the clock in nanoseconds and the keyspace.\<close>

record 'r qworld =
  qw_now :: int
  qw_db :: 'r

abbreviation (input) on_db :: "('r \<Rightarrow> 'r) \<Rightarrow> 'r qworld \<Rightarrow> 'r qworld" where
  "on_db f w \<equiv> w \<lparr> qw_db := f (qw_db w) \<rparr>"

definition acquireScript :: "'r redis \<Rightarrow> string \<Rightarrow> int \<Rightarrow> int \<Rightarrow> 'r \<Rightarrow> bool \<times> 'r" where
  "acquireScript R key limit ttl db =
     (case intget R db key of
        Some current \<Rightarrow> if limit \<le> current then (False, db)
                        else (True, expire R key ttl (incrby R key 1 db))
      | None \<Rightarrow> (True, expire R key ttl (incrby R key 1 db)))"

definition releaseScript :: "'r redis \<Rightarrow> string \<Rightarrow> int \<Rightarrow> 'r \<Rightarrow> int \<times> 'r" where
  "releaseScript R key ttl db =
     (case intget R db key of
        None \<Rightarrow> (- 1, db)
      | Some current \<Rightarrow>
          if current \<le> 0 then (- 1, db)
          else let db' = incrby R key (- 1) db;
                   remaining = current - 1
               in (remaining, if 0 < remaining then expire R key ttl db' else db'))"

definition slotTTLSeconds :: "int \<Rightarrow> int" where
  "slotTTLSeconds slotTTL = (let ttl = slotTTL div 1000000000 in if ttl \<le> 0 then 300 else ttl)"

text \<open>\<open>releaseSlot\<close> runs under the background context; a call that fails leaves the counter alone.\<close>

definition releaseSlot :: "'r redis \<Rightarrow> gctx \<Rightarrow> string \<Rightarrow> int \<Rightarrow> 'r qworld \<Rightarrow> (gate_error + int) \<times> 'r qworld" where
  "releaseSlot R ctx key ttl w =
     (if ctx_fail ctx then (Inl (Wrapped ''release concurrency quota'' (StoreError ''redis'')), w)
      else let (res, db) = releaseScript R key ttl (qw_db w) in (Inr res, w \<lparr> qw_db := db \<rparr>))"

definition redis_AcquireSlot :: "'r redis \<Rightarrow> int \<Rightarrow> gctx \<Rightarrow> string \<Rightarrow> int \<Rightarrow> 'r qworld
    \<Rightarrow> (gate_error + ('r qworld \<Rightarrow> 'r qworld) option) \<times> 'r qworld" where
  "redis_AcquireSlot R slotTTL ctx key limit w =
     (let ttl = slotTTLSeconds slotTTL in
      if ctx_fail ctx then (Inl (Wrapped ''acquire concurrency quota'' (StoreError ''redis'')), w)
      else let (ok, db) = acquireScript R key limit ttl (qw_db w); w' = w \<lparr> qw_db := db \<rparr>
           in if ok then (Inr (Some (\<lambda>v. snd (releaseSlot R background key ttl v))), w') else (Inr None, w'))"

definition zremrangebyscore :: "'r redis \<Rightarrow> string \<Rightarrow> real \<Rightarrow> real \<Rightarrow> 'r \<Rightarrow> 'r" where
  "zremrangebyscore R key lo hi db =
     fold (\<lambda>p. zrem R key (snd p)) (filter (\<lambda>p. lo \<le> fst p \<and> fst p \<le> hi) (zrange R db key)) db"

definition admitScript :: "'r redis \<Rightarrow> (int \<Rightarrow> real) \<Rightarrow> (int \<Rightarrow> string) \<Rightarrow> string \<Rightarrow> int \<Rightarrow> int \<Rightarrow> int \<Rightarrow> int \<Rightarrow> 'r
    \<Rightarrow> bool \<times> 'r" where
  "admitScript R dbl itoa key mn limit now ttl db =
     (let db1 = zremrangebyscore R key 0 (dbl mn) db in
      if limit \<le> int (zcard R db1 key) then (False, db1)
      else (True, expire R key ttl (zadd R key (dbl now) (itoa now) db1)))"

definition redis_Admit :: "'r redis \<Rightarrow> (int \<Rightarrow> real) \<Rightarrow> (int \<Rightarrow> string) \<Rightarrow> gctx \<Rightarrow> string \<Rightarrow> int \<Rightarrow> int \<Rightarrow> 'r qworld
    \<Rightarrow> (gate_error + bool) \<times> 'r qworld" where
  "redis_Admit R dbl itoa ctx key limit window w =
     (let now = qw_now w; mn = now - window;
          ttl = (let t = (window div 1000000000) * 2 in if t \<le> 0 then 3600 else t)
      in if ctx_fail ctx then (Inl (Wrapped ''admit rate quota'' (StoreError ''redis'')), w)
         else let (ok, db) = admitScript R dbl itoa key mn limit now ttl (qw_db w)
              in (Inr ok, w \<lparr> qw_db := db \<rparr>))"

definition redis_quota :: "'r redis \<Rightarrow> (int \<Rightarrow> real) \<Rightarrow> (int \<Rightarrow> string) \<Rightarrow> int \<Rightarrow> 'r qworld quota_store_ops" where
  "redis_quota R dbl itoa slotTTL =
     \<lparr> AcquireSlot = redis_AcquireSlot R slotTTL, Admit = redis_Admit R dbl itoa \<rparr>"

text \<open>The slots counted for a key; a missing counter and a zero counter are the same.\<close>

definition slots :: "'r redis \<Rightarrow> 'r qworld \<Rightarrow> string \<Rightarrow> int" where
  "slots R w key = (case intget R (qw_db w) key of None \<Rightarrow> 0 | Some n \<Rightarrow> max 0 n)"

definition slots_inv :: "'r redis \<Rightarrow> 'r qworld \<Rightarrow> bool" where
  "slots_inv R w \<longleftrightarrow> (\<forall>k n. intget R (qw_db w) k = Some n \<longrightarrow> 0 \<le> n)"

context redis_server
begin

lemma fold_zrem_obs [redis_simps]:
  "intget R (fold (\<lambda>p. zrem R k (snd p)) ps r) = intget R r"
  by (induction ps arbitrary: r) (simp_all add: redis_simps)

lemma fold_zrem_zscore:
  "zscore R (fold (\<lambda>p. zrem R k (snd p)) ps r) k' m =
     (if k' = k \<and> m \<in> snd ` set ps then None else zscore R r k' m)"
  by (induction ps arbitrary: r) (auto simp: redis_simps)

lemma zremrangebyscore_obs [redis_simps]:
  "intget R (zremrangebyscore R k lo hi r) = intget R r"
  by (simp add: zremrangebyscore_def redis_simps)

lemma zremrangebyscore_zscore [redis_simps]:
  "zscore R (zremrangebyscore R k lo hi r) k' m =
     (case zscore R r k' m of None \<Rightarrow> None
      | Some s \<Rightarrow> if k' = k \<and> lo \<le> s \<and> s \<le> hi then None else Some s)"
  by (force simp: zremrangebyscore_def fold_zrem_zscore zrange_zscore image_iff split: option.splits)

lemma acquire_slots:
  "slots_inv R w \<Longrightarrow> acquireScript R k n ttl (qw_db w) = (ok, db) \<Longrightarrow>
     slots_inv R (w \<lparr> qw_db := db \<rparr>) \<and>
     slots R (w \<lparr> qw_db := db \<rparr>) = (slots R w)(k := slots R w k + (if ok then 1 else 0))"
  by (auto simp: acquireScript_def slots_inv_def slots_def redis_simps fun_eq_iff split: option.splits if_splits)

lemma release_slots:
  "slots_inv R w \<Longrightarrow>
     slots_inv R (snd (releaseSlot R background k ttl w)) \<and>
     slots R (snd (releaseSlot R background k ttl w)) = (slots R w)(k := max 0 (slots R w k - 1))"
  by (auto simp: releaseSlot_def releaseScript_def background_def slots_inv_def slots_def Let_def redis_simps
      fun_eq_iff split: option.splits if_splits)

lemma admit_slots:
  "admitScript R dbl itoa k mn n now ttl db = (ok, db') \<Longrightarrow> intget R db' = intget R db"
  by (auto simp: admitScript_def Let_def redis_simps split: if_splits)

end

sublocale redis_server \<subseteq> rq: quota_store "redis_quota R dbl itoa slotTTL" "slots R" "slots_inv R"
proof (unfold_locales, goal_cases)
  case (1 s c k n)
  then show ?case using acquire_slots [of s k n]
    by (auto simp: redis_quota_def redis_AcquireSlot_def Let_def split: prod.split)
next
  case (2 s c k n f s')
  obtain ok db where run: "acquireScript R k n (slotTTLSeconds slotTTL) (qw_db s) = (ok, db)" by fastforce
  with 2 have f: "f = (\<lambda>v. snd (releaseSlot R background k (slotTTLSeconds slotTTL) v))" "ok" "s' = s \<lparr> qw_db := db \<rparr>"
    by (auto simp: redis_quota_def redis_AcquireSlot_def Let_def split: if_splits)
  have "0 \<le> slots R s k" by (auto simp: slots_def split: option.split)
  then have "slots R (f s') = slots R s"
    using acquire_slots [OF 2(1) run] release_slots [of s' k "slotTTLSeconds slotTTL"] f by (auto simp: fun_eq_iff)
  moreover have "release_ok (slots R) (slots_inv R) (Some f)"
    unfolding release_ok_def run_release_def f(1) using release_slots [of _ k "slotTTLSeconds slotTTL"] by simp
  ultimately show ?case by blast
next
  case (3 s c k n s')
  then show ?case using acquire_slots [of s k n]
    by (auto simp: redis_quota_def redis_AcquireSlot_def Let_def split: prod.splits if_splits)
next
  case (4 s c k n e s')
  then show ?case by (auto simp: redis_quota_def redis_AcquireSlot_def Let_def split: prod.splits if_splits)
next
  case (5 s c k n t)
  then show ?case using admit_slots [of dbl itoa k]
    by (auto simp: redis_quota_def redis_Admit_def Let_def slots_inv_def slots_def fun_eq_iff split: prod.splits)
qed

section \<open>Runs of the store\<close>

text \<open>
  Rate limiting: \<open>admitRun\<close> makes one \<open>Admit\<close> call on a key at each of a list of times and collects the
  times at which the call admitted.
\<close>

fun admitRun :: "'r redis \<Rightarrow> (int \<Rightarrow> real) \<Rightarrow> (int \<Rightarrow> string) \<Rightarrow> string \<Rightarrow> int \<Rightarrow> int \<Rightarrow> int list \<Rightarrow> int list \<times> 'r
    \<Rightarrow> int list \<times> 'r" where
  "admitRun R dbl itoa key limit window [] (adm, db) = (adm, db)"
| "admitRun R dbl itoa key limit window (now # nows) (adm, db) =
     (case redis_Admit R dbl itoa background key limit window \<lparr> qw_now = now, qw_db = db \<rparr> of
        (Inr True, w) \<Rightarrow> admitRun R dbl itoa key limit window nows (now # adm, qw_db w)
      | (_, w) \<Rightarrow> admitRun R dbl itoa key limit window nows (adm, qw_db w))"

definition inWindow :: "(int \<Rightarrow> real) \<Rightarrow> int \<Rightarrow> int \<Rightarrow> int list \<Rightarrow> int set" where
  "inWindow dbl window t adm = {a \<in> set adm. dbl (t - window) < dbl a \<and> a \<le> t}"

definition window_ok :: "'r redis \<Rightarrow> (int \<Rightarrow> real) \<Rightarrow> (int \<Rightarrow> string) \<Rightarrow> string \<Rightarrow> int \<Rightarrow> int \<Rightarrow> int list \<Rightarrow> int list \<times> 'r \<Rightarrow> bool" where
  "window_ok R dbl itoa key limit window later ad \<longleftrightarrow>
     (\<forall>a \<in> set (fst ad). \<forall>now \<in> set later. a < now \<and>
        (dbl (now - window) < dbl a \<longrightarrow> zscore R (snd ad) key (itoa a) = Some (dbl a))) \<and>
     (\<forall>t. int (card (inWindow dbl window t (fst ad))) \<le> max 0 limit)"

context redis_server
begin

lemma zcard_covers:
  assumes "inj itoa" "\<forall>a \<in> A. zscore R db key (itoa a) = Some (dbl a)"
  shows "card A \<le> zcard R db key"
proof -
  have "inj_on (\<lambda>a. (dbl a, itoa a)) A" using assms(1) by (auto simp: inj_on_def)
  moreover have "(\<lambda>a. (dbl a, itoa a)) ` A \<subseteq> set (zrange R db key)" using assms(2) by (auto simp: zrange_zscore)
  ultimately have "card A \<le> card (set (zrange R db key))" by (metis List.finite_set card_image card_mono)
  then show ?thesis by (simp add: zcard_def distinct_card zrange_sorted(2))
qed

lemma admitRun_step:
  assumes dbl: "mono dbl" and itoa: "inj itoa" and ord: "\<forall>t \<in> set nows. now < t"
    and ok: "window_ok R dbl itoa key limit window (now # nows) (adm, db)"
    and run: "redis_Admit R dbl itoa background key limit window \<lparr> qw_now = now, qw_db = db \<rparr> = (res, w)"
  shows "window_ok R dbl itoa key limit window nows (if res = Inr True then now # adm else adm, qw_db w)"
proof -
  let ?db1 = "zremrangebyscore R key 0 (dbl (now - window)) db"
  have kept: "zscore R ?db1 key (itoa a) = Some (dbl a)" if "a \<in> set adm" "dbl (now - window) < dbl a" for a
    using ok that by (auto simp: window_ok_def redis_simps)
  have later: "dbl (now - window) < dbl a" if "t \<in> set nows" "dbl (t - window) < dbl a" for a t
    using monoD [OF dbl, of "now - window" "t - window"] ord that by force
  have cardW: "card {a \<in> set adm. dbl (now - window) < dbl a} \<le> zcard R ?db1 key"
    using kept by (intro zcard_covers [OF itoa]) auto
  show ?thesis
  proof (cases "limit \<le> int (zcard R ?db1 key)")
    case True
    then have "res = Inr False" "qw_db w = ?db1"
      using run by (auto simp: redis_Admit_def background_def admitScript_def Let_def)
    then show ?thesis using ok kept later by (auto simp: window_ok_def)
  next
    case False
    then have r: "res = Inr True" and w: "\<And>a. zscore R (qw_db w) key (itoa a) =
        (if a = now then Some (dbl now) else zscore R ?db1 key (itoa a))"
      using run itoa by (auto simp: redis_Admit_def background_def admitScript_def Let_def redis_simps inj_eq)
    have "int (card (inWindow dbl window t (now # adm))) \<le> max 0 limit" for t
    proof (cases "t < now")
      case True
      then have "inWindow dbl window t (now # adm) = inWindow dbl window t adm" by (auto simp: inWindow_def)
      then show ?thesis using ok by (simp add: window_ok_def)
    next
      case nt: False
      then have "dbl (now - window) \<le> dbl (t - window)" by (intro monoD [OF dbl]) simp
      then have "inWindow dbl window t (now # adm) \<subseteq> insert now {a \<in> set adm. dbl (now - window) < dbl a}"
        by (auto simp: inWindow_def)
      then have "card (inWindow dbl window t (now # adm)) \<le> card (insert now {a \<in> set adm. dbl (now - window) < dbl a})"
        by (rule card_mono [rotated]) simp
      also have "\<dots> \<le> Suc (card {a \<in> set adm. dbl (now - window) < dbl a})" by (simp add: card_insert_if)
      finally have "card (inWindow dbl window t (now # adm)) \<le> Suc (card {a \<in> set adm. dbl (now - window) < dbl a})" .
      then show ?thesis using cardW False by linarith
    qed
    then show ?thesis using r w kept later ok ord by (auto simp: window_ok_def)
  qed
qed

lemma admitRun_ok:
  assumes "mono dbl" "inj itoa" "sorted_wrt (<) nows" "window_ok R dbl itoa key limit window nows (adm, db)"
  shows "window_ok R dbl itoa key limit window [] (admitRun R dbl itoa key limit window nows (adm, db))"
  using assms(3,4)
proof (induction nows arbitrary: adm db)
  case (Cons now nows)
  obtain res w where run: "redis_Admit R dbl itoa background key limit window \<lparr> qw_now = now, qw_db = db \<rparr> = (res, w)"
    by fastforce
  have "window_ok R dbl itoa key limit window nows (if res = Inr True then now # adm else adm, qw_db w)"
    using Cons.prems by (intro admitRun_step [OF assms(1,2) _ _ run]) auto
  then show ?case using Cons.IH Cons.prems(1) run
    by (cases "res = Inr True") (auto split: sum.split bool.split)
qed simp

end

text \<open>
  Concurrency limiting: acquisitions under a limit for each key, releases of outstanding slots in any
  order, rate admissions and the passing of time, from an empty keyspace.
\<close>

inductive slot_reach :: "'r redis \<Rightarrow> (int \<Rightarrow> real) \<Rightarrow> (int \<Rightarrow> string) \<Rightarrow> int \<Rightarrow> (string \<Rightarrow> int) \<Rightarrow> 'r qworld \<Rightarrow> string list \<Rightarrow> bool"
  for R dbl itoa slotTTL L where
  init: "\<forall>k. intget R (qw_db w) k = None \<Longrightarrow> slot_reach R dbl itoa slotTTL L w []"
| acquired: "slot_reach R dbl itoa slotTTL L w ks \<Longrightarrow>
     redis_AcquireSlot R slotTTL c k (L k) w = (Inr (Some f), w') \<Longrightarrow> slot_reach R dbl itoa slotTTL L w' (k # ks)"
| refused: "slot_reach R dbl itoa slotTTL L w ks \<Longrightarrow>
     redis_AcquireSlot R slotTTL c k (L k) w = (x, w') \<Longrightarrow> \<nexists>f. x = Inr (Some f) \<Longrightarrow> slot_reach R dbl itoa slotTTL L w' ks"
| returned: "slot_reach R dbl itoa slotTTL L w ks \<Longrightarrow> k \<in> set ks \<Longrightarrow>
     slot_reach R dbl itoa slotTTL L (snd (releaseSlot R background k (slotTTLSeconds slotTTL) w)) (remove1 k ks)"
| admitted: "slot_reach R dbl itoa slotTTL L w ks \<Longrightarrow>
     slot_reach R dbl itoa slotTTL L (snd (redis_Admit R dbl itoa c k n t w)) ks"
| tick: "slot_reach R dbl itoa slotTTL L w ks \<Longrightarrow> 0 \<le> d \<Longrightarrow> slot_reach R dbl itoa slotTTL L (w \<lparr> qw_now := qw_now w + d \<rparr>) ks"

lemma count_remove1: "count_list (remove1 k ks) j = (if j = k then count_list ks j - 1 else count_list ks j)"
  by (induction ks) auto

context redis_server
begin

lemma acquire_below:
  "acquireScript R k n ttl (qw_db w) = (True, db) \<Longrightarrow> slots_inv R w \<Longrightarrow> slots R w k < n \<or> intget R (qw_db w) k = None"
  by (auto simp: acquireScript_def slots_def slots_inv_def split: option.splits if_splits)

lemma slot_reach_inv:
  assumes "slot_reach R dbl itoa slotTTL L w ks"
  shows "slots_inv R w \<and> (\<forall>k. slots R w k = int (count_list ks k) \<and> int (count_list ks k) \<le> max 1 (L k))"
  using assms
proof induction
  case (init w)
  then show ?case by (simp add: slots_inv_def slots_def le_max_iff_disj)
next
  case (acquired w ks c k f w')
  then obtain db where run: "acquireScript R k (L k) (slotTTLSeconds slotTTL) (qw_db w) = (True, db)" "w' = w \<lparr> qw_db := db \<rparr>"
    by (auto simp: redis_AcquireSlot_def Let_def split: if_splits prod.splits)
  have "slots R w k = 0" if "intget R (qw_db w) k = None" using that by (simp add: slots_def)
  then have "slots R w k < L k \<or> slots R w k = 0"
    using acquire_below [OF run(1)] acquired.IH by metis
  then show ?case using acquire_slots [OF _ run(1)] run(2) acquired.IH by auto
next
  case (refused w ks c k x w')
  then show ?case using acquire_slots [of w k "L k" "slotTTLSeconds slotTTL"]
    by (auto simp: redis_AcquireSlot_def Let_def split: if_splits prod.splits)
next
  case (returned w ks k)
  then have "0 < count_list ks k" by (meson count_list_0_iff gr0I)
  then show ?case using release_slots [of w k "slotTTLSeconds slotTTL"] returned.IH
    by (auto simp: count_remove1 of_nat_diff) (smt (verit))
next
  case (admitted w ks c k n t)
  then show ?case using rq.admit_inv [of w dbl itoa slotTTL c k n t] by (simp add: redis_quota_def)
next
  case (tick w ks d)
  then show ?case by (simp add: slots_inv_def slots_def)
qed

lemma zcard_single:
  assumes "\<forall>m s. zscore R db key m = Some s \<longrightarrow> m = m0"
  shows "zcard R db key \<le> 1"
proof -
  have "set (map snd (zrange R db key)) \<subseteq> {m0}" using assms by (auto simp: zrange_zscore)
  from card_mono [OF _ this] have "card (set (map snd (zrange R db key))) \<le> 1" by simp
  then show ?thesis using distinct_card [OF zrange_members_distinct [of db key]] by (simp add: zcard_def)
qed

lemma admitRun_same:
  assumes "2 \<le> limit" "dbl (now - window) < dbl now" "\<forall>m s. zscore R db key m = Some s \<longrightarrow> m = itoa now"
  shows "fst (admitRun R dbl itoa key limit window (replicate n now) (adm, db)) = replicate n now @ adm"
  using assms(3)
proof (induction n arbitrary: adm db)
  case (Suc n)
  let ?db1 = "zremrangebyscore R key 0 (dbl (now - window)) db"
  have z: "\<forall>m s. zscore R ?db1 key m = Some s \<longrightarrow> m = itoa now"
    using Suc.prems by (auto simp: redis_simps split: option.splits)
  have "int (zcard R ?db1 key) < limit" using zcard_single [OF z] assms(1) by simp
  then have "redis_Admit R dbl itoa background key limit window \<lparr> qw_now = now, qw_db = db \<rparr> =
      (Inr True, \<lparr> qw_now = now, qw_db = expire R key (let t = (window div 1000000000) * 2 in if t \<le> 0 then 3600 else t)
        (zadd R key (dbl now) (itoa now) ?db1) \<rparr>)"
    by (simp add: redis_Admit_def background_def admitScript_def Let_def)
  then show ?case using z
    by (simp add: Suc.IH redis_simps replicate_app_Cons_same)
qed simp

end

section \<open>Properties\<close>





text \<open>
  C33: Calls that fall on the same nanosecond share one member of the sorted set, so any number of
  them is admitted as soon as the limit is at least two.
\<close>

theorem rate_window_same_instant:
  assumes "redis_server R" "2 \<le> limit" "zrange R db key = []" "dbl (now - window) < dbl now"
  shows "fst (admitRun R dbl itoa key limit window (replicate n now) ([], db)) = replicate n now"
  using redis_server.admitRun_same [OF assms(1,2,4), where db = db and key = key and itoa = itoa and adm = "[]"] assms(3)
    redis_server.zrange_zscore [OF assms(1), of _ _ db key] by simp

theorem rate_window_same_instant_witness:
  "fst (admitRun mem_redis real_of_int (\<lambda>_. ''m'') ''q'' 2 10 (replicate 3 5) ([], empty_mem)) = [5, 5, 5]"
  using rate_window_same_instant [OF mr.redis_server_axioms, of 2 empty_mem "''q''" real_of_int 5 10 "\<lambda>_. ''m''" 3]
  by (simp add: mem_redis_def empty_mem_def eval_nat_numeral)

text \<open>
  C32: Quota in front of tier admission: a chain of a classifying quota gate and the tier gate treats a
  request that carries the quota attribute like this. If the backend is not saturated the request
  passes, marked reserved or overflow, and holds its slot. If the backend is saturated, a request
  within its quota waits, an interactive request over its quota is dropped with a result, and every
  other request over its quota is refused; in all three cases, and when the store fails, no slot is
  kept and the list of closures is as before.
\<close>

theorem quota_then_tier:
  assumes "quota_store S obs I" "I s" "PublicRequest msg = Some r" "ReqMetadata r (qg_attribute g) = Some val"
    and "qg_gatingMode g \<noteq> GatingModeBlocking" "label \<noteq> ''''" "label \<noteq> LabelClassification"
    and "quotaAdmission S g ctx (quotaKey g val) s = (x, s1)"
  shows "\<exists>gr. ApplyChain ctx msg [QuotaGate S g, TierPriorityAdmissionGate (DispatchGateFunc (\<lambda>c s. (b, s))) label]
             (Some rels) s = Some gr \<and>
     (case x of
        Inl e \<Rightarrow> gr_err gr = Some e \<and> gr_releases gr = Some rels \<and> obs (gr_state gr) = obs s
      | Inr admitted \<Rightarrow> gr_err gr = None \<and>
          GetClassification (Routing (gr_msg gr)) = (if admitted = None then ClassificationOverflow else ClassificationReserved) \<and>
          (if \<not> f_le b (Fin 0) then Action (gr_verdict gr) = ActionContinue \<and>
             gr_releases gr = Some (rels @ (case admitted of Some (Some f) \<Rightarrow> [Some f] | _ \<Rightarrow> []))
           else gr_releases gr = Some rels \<and> obs (gr_state gr) = obs s \<and>
             Action (gr_verdict gr) =
               (if admitted \<noteq> None then ActionWait
                else if Labels (Routing msg) label = Some TierInteractive then ActionDrop else ActionRefuse) \<and>
             (Action (gr_verdict gr) = ActionDrop \<longrightarrow> (\<exists>res. Result (gr_verdict gr) = Some res \<and> res_ID res = ReqID r))))"
proof (cases x)
  case (Inl e)
  then show ?thesis using assms quota_store.admission_keeps [OF assms(1,2,8)]
    by (simp add: ApplyChain_def QuotaGate_def QuotaGate_Apply_def reply_def rollback_def)
next
  case (Inr admitted)
  note defs = ApplyChain_def QuotaGate_def QuotaGate_Apply_def TierPriorityAdmissionGate_def DispatchGateFunc_def
    tier_verdict_def reply_def rollback_def classify_def SetClassification_def GetClassification_def
    tooManyRequests_def append_release_def Continue_def Refuse_def Wait_def Drop_def Let_def
  show ?thesis
  proof (cases admitted)
    case None
    then show ?thesis using assms Inr quota_store.admission_keeps [OF assms(1,2,8)]
      by (cases "Labels (Routing msg) label") (auto simp: defs)
  next
    case (Some release)
    then show ?thesis using assms Inr quota_store.admission_keeps [OF assms(1,2,8)]
        quota_store.admission_slot [OF assms(1,2), of g ctx "quotaKey g val"]
      by (cases release) (auto simp: defs)
  qed
qed

text \<open>An interactive request of a user whose one slot is taken, at a saturated backend.\<close>

definition demo_quota :: quota_gate where
  "demo_quota = QuotaGate_WithGatingMode GatingModeClassifying (NewQuotaGate ''user'' QuotaModeConcurrency 1 0 ''quota:'')"

definition demo_quota_request :: internal_request where
  "demo_quota_request = NewInternalRequest (empty_routing \<lparr> Labels := [''tier'' \<mapsto> TierInteractive] \<rparr>)
     (RequestMessage (empty_request_message \<lparr> rm_ID := ''r1'', rm_Metadata := [''user'' \<mapsto> ''u''] \<rparr>))"

definition demo_quota_world :: "mem qworld" where
  "demo_quota_world = \<lparr> qw_now = 0, qw_db = empty_mem \<lparr> mem_i := [''quota:user:u'' \<mapsto> 1] \<rparr> \<rparr>"

theorem quota_then_tier_witness:
  "\<exists>gr. ApplyChain background demo_quota_request
      [QuotaGate (redis_quota mem_redis real_of_int (\<lambda>_. '''') 0) demo_quota,
       TierPriorityAdmissionGate (DispatchGateFunc (\<lambda>c s. (Fin 0, s))) ''tier''] (Some []) demo_quota_world = Some gr \<and>
    Action (gr_verdict gr) = ActionDrop \<and> gr_releases gr = Some []"
proof -
  let ?S = "redis_quota mem_redis real_of_int (\<lambda>_. '''') 0"
  let ?r = "RequestMessage (empty_request_message \<lparr> rm_ID := ''r1'', rm_Metadata := [''user'' \<mapsto> ''u''] \<rparr>)"
  have "slots_inv mem_redis demo_quota_world"
    by (simp add: slots_inv_def demo_quota_world_def mem_redis_def empty_mem_def)
  moreover have "PublicRequest demo_quota_request = Some ?r"
    by (simp add: demo_quota_request_def NewInternalRequest_def)
  moreover have "ReqMetadata ?r (qg_attribute demo_quota) = Some ''u''" "qg_gatingMode demo_quota \<noteq> GatingModeBlocking"
    by (simp_all add: demo_quota_def QuotaGate_WithGatingMode_def NewQuotaGate_def ReqMetadata_def)
  moreover have "quotaAdmission ?S demo_quota background (quotaKey demo_quota ''u'') demo_quota_world = (Inr None, demo_quota_world)"
    by (simp add: demo_quota_def QuotaGate_WithGatingMode_def NewQuotaGate_def quotaAdmission_def quotaKey_def redis_quota_def
        redis_AcquireSlot_def acquireScript_def background_def demo_quota_world_def mem_redis_def empty_mem_def Let_def)
  moreover have "Labels (Routing demo_quota_request) ''tier'' = Some TierInteractive"
    by (simp add: demo_quota_request_def NewInternalRequest_def)
  ultimately show ?thesis
    using quota_then_tier [OF mr.rq.quota_store_axioms, of demo_quota_world demo_quota_request ?r demo_quota "''u''" "''tier''"
        real_of_int "\<lambda>_. ''''" 0 background "Inr None" demo_quota_world "Fin 0" "[]"]
    by auto
qed

end
