(* ===== verification/Redis_Gates.thy ===== *)
theory Redis_Gates
  imports Gate Redis
begin

text \<open>
  The two gates whose limits live in Redis: the budget key of \<open>src/pkg/redis/dispatch_gate.go\<close> and the
  leased, pool-wide token bucket of \<open>src/pkg/redis/leased_rate_gate.go\<close>, with the command format of
  \<open>src/api/dispatch_control.go\<close>.

  Texts are converted by Go's \<open>strconv\<close> and, inside the script, by Lua's \<open>tonumber\<close> and \<open>tostring\<close>;
  these are arguments (\<open>lua\<close>, \<open>gotext\<close>). \<open>tostring\<close> of Lua keeps fourteen digits, so reading back a
  stored number gives a rounded one: theorems about the bucket take the rounding error as \<open>eps\<close>.
\<close>

section \<open>Number texts\<close>

record lua =
  tonumber :: "string \<Rightarrow> float64 option"
  luastr :: "float64 \<Rightarrow> string"

record gotext =
  ParseFloat :: "string \<Rightarrow> float64 option"
  ParseInt :: "string \<Rightarrow> int option"

section \<open>The budget key\<close>

text \<open>The world of a gate: Redis \<open>TIME\<close> (seconds, microseconds) and the keyspace.\<close>

record 'r gworld =
  gw_time :: "int \<times> int"
  gw_db :: 'r

definition RedisDispatchGate_Budget :: "'r redis \<Rightarrow> gotext \<Rightarrow> string \<Rightarrow> gctx \<Rightarrow> 'r gworld \<Rightarrow> float64" where
  "RedisDispatchGate_Budget R T key ctx w =
     (if ctx_fail ctx then Fin 0
      else case strget R (gw_db w) key of
        None \<Rightarrow> Fin 1
      | Some val \<Rightarrow> (case ParseFloat T val of
          None \<Rightarrow> Fin 1
        | Some budget \<Rightarrow> if f_lt budget (Fin 0) then Fin 0
                        else if f_lt (Fin 1) budget then Fin 1 else budget))"

definition RedisDispatchGate :: "'r redis \<Rightarrow> gotext \<Rightarrow> string \<Rightarrow> 'r gworld Gate" where
  "RedisDispatchGate R T key = DispatchGateFunc (\<lambda>ctx w. (RedisDispatchGate_Budget R T key ctx w, w))"

section \<open>The leased command\<close>

abbreviation (input) DispatchRateLimitAPIVersion :: string where
  "DispatchRateLimitAPIVersion \<equiv> ''llm-d.ai/v1alpha1''"

record dispatch_rate_limit =
  drl_APIVersion :: string
  drl_PoolID :: string
  drl_MaxAdmissionRPS :: float64
  drl_ValidUntilUnixMillis :: int
  drl_DecisionID :: string

text \<open>The error text, or none.\<close>

definition ValidateAt :: "dispatch_rate_limit \<Rightarrow> int \<Rightarrow> string option" where
  "ValidateAt l nowMs =
     (if drl_APIVersion l \<noteq> DispatchRateLimitAPIVersion then Some ''unsupported api_version''
      else if drl_PoolID l = '''' then Some ''pool_id is required''
      else if \<not> f_is_finite (drl_MaxAdmissionRPS l) \<or> f_lt (drl_MaxAdmissionRPS l) (Fin 0)
        then Some ''max_admission_rps must be finite and non-negative''
      else if drl_ValidUntilUnixMillis l \<le> nowMs then Some ''dispatch-rate lease has expired''
      else if drl_DecisionID l = '''' then Some ''decision_id is required''
      else None)"

record leased_gate =
  lg_controlKey :: string
  lg_stateKey :: string
  lg_poolID :: string
  lg_burstSeconds :: float64

definition NewRedisLeasedRateGate :: "string \<Rightarrow> string \<Rightarrow> string \<Rightarrow> float64 \<Rightarrow> leased_gate" where
  "NewRedisLeasedRateGate controlKey stateKey poolID burstSeconds =
     \<lparr> lg_controlKey = controlKey, lg_stateKey = (if stateKey = '''' then controlKey @ '':state'' else stateKey),
       lg_poolID = poolID, lg_burstSeconds = burstSeconds \<rparr>"

abbreviation (input) commandFields :: "string list" where
  "commandFields \<equiv> [''api_version'', ''pool_id'', ''max_admission_rps'', ''valid_until_unix_ms'', ''decision_id'']"

definition hmget :: "'r redis \<Rightarrow> 'r \<Rightarrow> string \<Rightarrow> string list \<Rightarrow> string option list" where
  "hmget R db key fs = map (hget R db key) fs"

definition unixMilli :: "int \<times> int \<Rightarrow> int" where
  "unixMilli t = fst t * 1000 + snd t div 1000"

definition readLimit :: "'r redis \<Rightarrow> gotext \<Rightarrow> leased_gate \<Rightarrow> gctx \<Rightarrow> 'r gworld \<Rightarrow> string + dispatch_rate_limit" where
  "readLimit R T g ctx w =
     (if ctx_fail ctx then Inl ''read dispatch-rate command and Redis time''
      else case hmget R (gw_db w) (lg_controlKey g) commandFields of
        [Some v0, Some v1, Some v2, Some v3, Some v4] \<Rightarrow>
          (case ParseFloat T v2 of None \<Rightarrow> Inl ''invalid max_admission_rps''
           | Some rate \<Rightarrow> (case ParseInt T v3 of None \<Rightarrow> Inl ''invalid valid_until_unix_ms''
             | Some validUntil \<Rightarrow>
                 let limit = \<lparr> drl_APIVersion = v0, drl_PoolID = v1, drl_MaxAdmissionRPS = rate,
                               drl_ValidUntilUnixMillis = validUntil, drl_DecisionID = v4 \<rparr>
                 in (case ValidateAt limit (unixMilli (gw_time w)) of
                       Some err \<Rightarrow> Inl (''validate dispatch-rate command: '' @ err)
                     | None \<Rightarrow> if drl_PoolID limit \<noteq> lg_poolID g then Inl ''dispatch-rate command is for another pool''
                               else Inr limit)))
      | _ \<Rightarrow> Inl ''dispatch-rate command field is missing'')"

definition LeasedRateGate_Budget :: "'r redis \<Rightarrow> gotext \<Rightarrow> leased_gate \<Rightarrow> gctx \<Rightarrow> 'r gworld \<Rightarrow> float64" where
  "LeasedRateGate_Budget R T g ctx w =
     (case readLimit R T g ctx w of
        Inl _ \<Rightarrow> Fin 0
      | Inr limit \<Rightarrow> if drl_MaxAdmissionRPS limit = Fin 0 then Fin 0 else Fin 1)"

section \<open>The token bucket script\<close>

datatype script_value = SInt int | SText string | SArray "script_value list"

abbreviation (input) closed_reply :: script_value where
  "closed_reply \<equiv> SArray [SInt 0, SInt 0, SText ''0'', SInt 0]"

text \<open>The checks on the command: rate, lease end and burst, or none. A lease end must be a whole number.\<close>

definition leaseOf :: "lua \<Rightarrow> string \<Rightarrow> string \<Rightarrow> string option list \<Rightarrow> float64 option \<Rightarrow> int \<Rightarrow> (real \<times> int \<times> real) option" where
  "leaseOf L apiVersion poolID command burst now =
     (case command of
        [Some c1, Some c2, Some c3, Some c4, Some c5] \<Rightarrow>
          if c1 = '''' \<or> c2 = '''' \<or> c3 = '''' \<or> c4 = '''' \<or> c5 = '''' then None
          else if c1 \<noteq> apiVersion \<or> c2 \<noteq> poolID then None
          else (case (tonumber L c3, tonumber L c4, burst) of
                  (Some (Fin rate), Some (Fin valid_until), Some (Fin burst_seconds)) \<Rightarrow>
                    if rate < 0 \<or> real_of_int \<lfloor>valid_until\<rfloor> \<noteq> valid_until \<or> valid_until \<le> real_of_int now \<or> burst_seconds \<le> 0 then None
                    else Some (rate, \<lfloor>valid_until\<rfloor>, burst_seconds)
                | _ \<Rightarrow> None)
      | _ \<Rightarrow> None)"

text \<open>\<open>math.min(x, y)\<close> of Lua.\<close>

definition lua_min :: "float64 \<Rightarrow> float64 \<Rightarrow> float64" where
  "lua_min x y = (if f_lt y x then y else x)"

text \<open>The bucket after the refill, with the time it is stamped with.\<close>

definition refill :: "real \<Rightarrow> real \<Rightarrow> float64 option \<Rightarrow> float64 option \<Rightarrow> int \<Rightarrow> float64 \<times> float64" where
  "refill rate capacity stored stamp now =
     (case (stored, stamp) of
        (Some tokens, Some last_ms) \<Rightarrow>
          let now' = (if f_lt (Fin (real_of_int now)) last_ms then last_ms else Fin (real_of_int now))
          in (lua_min (Fin capacity) (f_add tokens (f_mul (f_div_pos (f_sub now' last_ms) (Fin 1000)) (Fin rate))), now')
      | _ \<Rightarrow> (Fin capacity, Fin (real_of_int now)))"

definition leasedRateAcquireScript :: "'r redis \<Rightarrow> lua \<Rightarrow> string \<Rightarrow> string \<Rightarrow> string \<Rightarrow> string \<Rightarrow> float64 option
    \<Rightarrow> int \<times> int \<Rightarrow> 'r \<Rightarrow> script_value \<times> 'r" where
  "leasedRateAcquireScript R L controlKey stateKey apiVersion poolID burst time db =
     (let now = unixMilli time in
      case leaseOf L apiVersion poolID (hmget R db controlKey commandFields) burst now of
        None \<Rightarrow> (closed_reply, db)
      | Some (rate, valid_until, burst_seconds) \<Rightarrow>
          if rate = 0 then (SArray [SInt 0, SInt 1, SText ''0'', SInt valid_until], db)
          else let capacity = max 1 (rate * burst_seconds);
                   number = (\<lambda>f. Option.bind (hget R db stateKey f) (tonumber L));
                   (tokens, now') = refill rate capacity (number ''tokens'') (number ''last_ms'') now;
                   allowed = f_le (Fin 1) tokens;
                   tokens' = (if allowed then f_sub tokens (Fin 1) else tokens);
                   db1 = hset R stateKey ''last_ms'' (luastr L now') (hset R stateKey ''tokens'' (luastr L tokens') db);
                   db2 = expire R stateKey (max 1000 (valid_until - now + 1000)) db1
               in (SArray [SInt (if allowed then 1 else 0), SInt 1, SText (luastr L (Fin rate)), SInt valid_until], db2))"

fun resultInt64 :: "gotext \<Rightarrow> script_value \<Rightarrow> string + int" where
  "resultInt64 T (SInt n) = Inr n"
| "resultInt64 T (SText t) = (case ParseInt T t of None \<Rightarrow> Inl ''parse integer script result'' | Some n \<Rightarrow> Inr n)"
| "resultInt64 T (SArray _) = Inl ''parse integer script result''"

fun textOf :: "(int \<Rightarrow> string) \<Rightarrow> script_value \<Rightarrow> string" where
  "textOf itoa (SInt n) = itoa n"
| "textOf itoa (SText t) = t"
| "textOf itoa (SArray _) = ''[]''"

definition parseLeasedRateResult :: "gotext \<Rightarrow> (int \<Rightarrow> string) \<Rightarrow> script_value \<Rightarrow> string + (bool \<times> bool \<times> float64 \<times> int)" where
  "parseLeasedRateResult T itoa raw =
     (case raw of
        SArray [v0, v1, v2, v3] \<Rightarrow>
          bindE (resultInt64 T v0) (\<lambda>allowedInt.
          bindE (resultInt64 T v1) (\<lambda>validInt.
            case ParseFloat T (textOf itoa v2) of
              Some (Fin rate) \<Rightarrow> bindE (resultInt64 T v3) (\<lambda>validUntil.
                 Inr (allowedInt = 1, validInt = 1, Fin rate, validUntil))
            | _ \<Rightarrow> Inl ''invalid rate in script response''))
      | _ \<Rightarrow> Inl ''unexpected script response'')"

definition LeasedRateGate_Apply :: "'r redis \<Rightarrow> lua \<Rightarrow> gotext \<Rightarrow> (int \<Rightarrow> string) \<Rightarrow> leased_gate \<Rightarrow> gctx \<Rightarrow> 'r gworld
    \<Rightarrow> verdict \<times> 'r gworld" where
  "LeasedRateGate_Apply R L T itoa g ctx w =
     (if ctx_fail ctx then (Refuse, w)
      else let (result, db) = leasedRateAcquireScript R L (lg_controlKey g) (lg_stateKey g) DispatchRateLimitAPIVersion
                 (lg_poolID g) (Some (lg_burstSeconds g)) (gw_time w) (gw_db w);
               w' = w \<lparr> gw_db := db \<rparr>
           in (case parseLeasedRateResult T itoa result of
                 Inl _ \<Rightarrow> (Refuse, w')
               | Inr (allowed, _) \<Rightarrow> (if allowed then Continue else Refuse, w')))"

definition LeasedRateGate :: "'r redis \<Rightarrow> lua \<Rightarrow> gotext \<Rightarrow> (int \<Rightarrow> string) \<Rightarrow> leased_gate \<Rightarrow> 'r gworld Gate" where
  "LeasedRateGate R L T itoa g =
     \<lparr> Budget = (\<lambda>ctx w. (LeasedRateGate_Budget R T g ctx w, w)),
       Apply = (\<lambda>ctx msg releases w. let (v, w') = LeasedRateGate_Apply R L T itoa g ctx w
                in reply v None msg releases w') \<rparr>"

section \<open>Contracts\<close>

text \<open>Neither gate reserves anything: the tokens a bucket gives out are not returned.\<close>

interpretation rdg: gate_contract "RedisDispatchGate R T key" "\<lambda>w. w" "\<lambda>_. True"
  unfolding RedisDispatchGate_def by (rule DispatchGateFunc_contract) auto

interpretation lrg: gate_contract "LeasedRateGate R L T itoa g" "\<lambda>_. ()" "\<lambda>_. True"
  by unfold_locales (auto simp: LeasedRateGate_def reply_def passed_def Let_def split_def)

interpretation lrb: gate_budget "LeasedRateGate R L T itoa g" "\<lambda>_. True"
  by unfold_locales (auto simp: LeasedRateGate_def LeasedRateGate_Budget_def split: sum.split)

section \<open>Runs of the bucket\<close>

text \<open>Calls of \<open>Apply\<close> at a list of times; the count of calls that were let through.\<close>

fun bucketRun :: "'r redis \<Rightarrow> lua \<Rightarrow> gotext \<Rightarrow> (int \<Rightarrow> string) \<Rightarrow> leased_gate \<Rightarrow> (int \<times> int) list \<Rightarrow> 'r \<Rightarrow> nat \<times> 'r" where
  "bucketRun R L T itoa g [] db = (0, db)"
| "bucketRun R L T itoa g (t # ts) db =
     (let (v, w) = LeasedRateGate_Apply R L T itoa g background \<lparr> gw_time = t, gw_db = db \<rparr>;
          (n, db') = bucketRun R L T itoa g ts (gw_db w)
      in ((if Action v = ActionContinue then 1 else 0) + n, db'))"

definition command_rate :: "'r redis \<Rightarrow> lua \<Rightarrow> leased_gate \<Rightarrow> 'r \<Rightarrow> real option" where
  "command_rate R L g db = (case hget R db (lg_controlKey g) ''max_admission_rps'' of None \<Rightarrow> None
     | Some t \<Rightarrow> (case tonumber L t of Some (Fin r) \<Rightarrow> Some r | _ \<Rightarrow> None))"

text \<open>What the script relies on: stored integers survive, a stored level is read back at most \<open>eps\<close> higher.\<close>

definition text_ok :: "lua \<Rightarrow> real \<Rightarrow> bool" where
  "text_ok L eps \<longleftrightarrow> 0 \<le> eps \<and> (\<forall>n. tonumber L (luastr L (Fin (real_of_int n))) = Some (Fin (real_of_int n))) \<and>
     (\<forall>x. \<exists>y. tonumber L (luastr L (Fin x)) = Some (Fin y) \<and> y \<le> x + eps)"

text \<open>The level and stamp of the bucket.\<close>

definition bucket :: "'r redis \<Rightarrow> lua \<Rightarrow> leased_gate \<Rightarrow> 'r \<Rightarrow> (real \<times> int) option \<Rightarrow> bool" where
  "bucket R L g db b \<longleftrightarrow> (case b of
     None \<Rightarrow> hget R db (lg_stateKey g) ''tokens'' = None
   | Some (x, l) \<Rightarrow> Option.bind (hget R db (lg_stateKey g) ''tokens'') (tonumber L) = Some (Fin x) \<and>
       Option.bind (hget R db (lg_stateKey g) ''last_ms'') (tonumber L) = Some (Fin (real_of_int l)))"

definition bucket_step :: "real \<Rightarrow> real \<Rightarrow> (real \<times> int) option \<Rightarrow> int \<Rightarrow> real \<times> int" where
  "bucket_step rate cap b now = (case b of None \<Rightarrow> (cap, now)
     | Some (x, l) \<Rightarrow> let m = max now l in (min cap (x + real_of_int (m - l) / 1000 * rate), m))"

lemma refill_bucket_step:
  "refill rate cap (Some (Fin x)) (Some (Fin (real_of_int l))) now =
     (Fin (fst (bucket_step rate cap (Some (x, l)) now)), Fin (real_of_int (snd (bucket_step rate cap (Some (x, l)) now))))"
  by (auto simp: refill_def bucket_step_def lua_min_def f_sub_def Let_def min_def max_def)

lemma parse_allowed:
  assumes "parseLeasedRateResult T itoa (SArray (SInt n # tail)) = Inr (allowed, rest)"
  shows "allowed \<longleftrightarrow> n = 1"
proof -
  obtain v1 v2 v3 where tail: "tail = [v1, v2, v3]"
    using assms by (auto simp: parseLeasedRateResult_def split: list.splits)
  obtain f where f: "ParseFloat T (textOf itoa v2) = Some (Fin f)"
    using assms tail by (cases "ParseFloat T (textOf itoa v2)"; cases "the (ParseFloat T (textOf itoa v2))")
      (auto simp: parseLeasedRateResult_def)
  show ?thesis using assms by (auto simp: parseLeasedRateResult_def tail f)
qed

context redis_server
begin

lemma script_closed:
  "leaseOf L v p (hmget R db ck commandFields) burst (unixMilli t) = None \<Longrightarrow>
   leasedRateAcquireScript R L ck sk v p burst t db = (closed_reply, db)"
  by (simp add: leasedRateAcquireScript_def)

lemma refill_bucket:
  "bucket R L g db b \<Longrightarrow>
   refill rate cap (Option.bind (hget R db (lg_stateKey g) ''tokens'') (tonumber L))
     (Option.bind (hget R db (lg_stateKey g) ''last_ms'') (tonumber L)) now =
     (Fin (fst (bucket_step rate cap b now)), Fin (real_of_int (snd (bucket_step rate cap b now))))"
proof (cases b)
  case None
  then show "bucket R L g db b \<Longrightarrow> ?thesis" by (simp add: bucket_def refill_def bucket_step_def)
next
  case (Some p)
  then show "bucket R L g db b \<Longrightarrow> ?thesis" by (cases p) (simp add: bucket_def refill_bucket_step)
qed

lemma apply_bucket:
  assumes tx: "text_ok L eps" and ne: "lg_stateKey g \<noteq> lg_controlKey g"
    and rate: "command_rate R L g db = Some rate" and burst: "lg_burstSeconds g = Fin bs" and b: "bucket R L g db b"
    and run: "LeasedRateGate_Apply R L T itoa g background \<lparr> gw_time = t, gw_db = db \<rparr> = (v, w)"
  shows "command_rate R L g (gw_db w) = Some rate \<and>
    (Action v \<noteq> ActionContinue \<and> bucket R L g (gw_db w) b \<or>
     (\<exists>y. 0 < rate \<and> bucket R L g (gw_db w) (Some (y, snd (bucket_step rate (max 1 (rate * bs)) b (unixMilli t)))) \<and>
       (let x = fst (bucket_step rate (max 1 (rate * bs)) b (unixMilli t)) in
        (Action v = ActionContinue \<longrightarrow> 1 \<le> x) \<and> y \<le> (if 1 \<le> x then x - 1 else x) + eps)))"
proof -
  let ?lease = "leaseOf L DispatchRateLimitAPIVersion (lg_poolID g) (hmget R db (lg_controlKey g) commandFields)
      (Some (lg_burstSeconds g)) (unixMilli t)"
  let ?x = "fst (bucket_step rate (max 1 (rate * bs)) b (unixMilli t))"
  let ?m = "snd (bucket_step rate (max 1 (rate * bs)) b (unixMilli t))"
  have ref: "Action Refuse \<noteq> ActionContinue" "Action Continue = ActionContinue" by (simp_all add: Refuse_def Continue_def)
  show ?thesis
  proof (cases ?lease)
    case None
    then show ?thesis using run rate b ref
      by (auto simp: LeasedRateGate_Apply_def background_def script_closed parseLeasedRateResult_def
          split: option.splits float64.splits)
  next
    case (Some l)
    then obtain vu where l: "l = (rate, vu, bs)" "0 \<le> rate"
      using rate burst
      by (auto simp: leaseOf_def hmget_def command_rate_def split: option.splits float64.splits if_splits)
    show ?thesis
    proof (cases "rate = 0")
      case True
      then show ?thesis using run rate b ref Some l
        by (auto simp: LeasedRateGate_Apply_def background_def leasedRateAcquireScript_def parseLeasedRateResult_def
            split: option.splits float64.splits)
    next
      case False
      let ?y = "if 1 \<le> ?x then ?x - 1 else ?x"
      obtain y where y: "tonumber L (luastr L (Fin ?y)) = Some (Fin y)" "y \<le> ?y + eps"
        using tx unfolding text_ok_def by blast
      have m: "tonumber L (luastr L (Fin (real_of_int ?m))) = Some (Fin (real_of_int ?m))"
        using tx unfolding text_ok_def by blast
      have script: "\<exists>tail db'. leasedRateAcquireScript R L (lg_controlKey g) (lg_stateKey g) DispatchRateLimitAPIVersion (lg_poolID g)
          (Some (lg_burstSeconds g)) t db = (SArray (SInt (if 1 \<le> ?x then 1 else 0) # tail), db') \<and>
          hget R db' = hget R (hset R (lg_stateKey g) ''last_ms'' (luastr L (Fin (real_of_int ?m)))
            (hset R (lg_stateKey g) ''tokens'' (luastr L (Fin ?y)) db))"
        using False Some l refill_bucket [OF b, of rate "max 1 (rate * bs)" "unixMilli t"] redis_simps
        by (simp add: leasedRateAcquireScript_def Let_def f_sub_def redis_simps)
      then obtain tail db' where s: "leasedRateAcquireScript R L (lg_controlKey g) (lg_stateKey g) DispatchRateLimitAPIVersion
          (lg_poolID g) (Some (lg_burstSeconds g)) t db = (SArray (SInt (if 1 \<le> ?x then 1 else 0) # tail), db')"
        "hget R db' = hget R (hset R (lg_stateKey g) ''last_ms'' (luastr L (Fin (real_of_int ?m)))
            (hset R (lg_stateKey g) ''tokens'' (luastr L (Fin ?y)) db))" by blast
      have w: "gw_db w = db'" "Action v = ActionContinue \<Longrightarrow> 1 \<le> ?x"
        using run s(1) ref parse_allowed [of T itoa "if 1 \<le> ?x then 1 else 0" tail]
        by (auto simp: LeasedRateGate_Apply_def background_def Let_def split: sum.splits if_splits)
      have "bucket R L g db' (Some (y, ?m))" using y(1) m by (simp add: bucket_def s(2) redis_simps)
      moreover have "command_rate R L g db' = Some rate" using rate ne by (simp add: command_rate_def s(2) redis_simps)
      ultimately show ?thesis using w y(2) l False by (auto simp: Let_def)
    qed
  qed
qed

end

text \<open>The calls a bucket still admits: its level, what flows in until \<open>hi\<close>, and the rounding of the calls.\<close>

definition admits :: "real \<Rightarrow> real \<Rightarrow> (real \<times> int) option \<Rightarrow> int \<Rightarrow> int \<Rightarrow> real" where
  "admits rate cap b lo hi = (case b of None \<Rightarrow> cap + rate * real_of_int (hi - lo) / 1000
     | Some (x, l) \<Rightarrow> max 0 x + rate * real_of_int (hi - l) / 1000)"

definition bucket_from :: "(real \<times> int) option \<Rightarrow> int \<Rightarrow> int \<Rightarrow> bool" where
  "bucket_from b lo hi \<longleftrightarrow> lo \<le> hi \<and> (case b of None \<Rightarrow> True | Some (x, l) \<Rightarrow> l \<le> hi)"

lemma level_step:
  fixes x y d cap eps :: real
  assumes "0 \<le> d" "0 \<le> eps"
    and "y \<le> (if 1 \<le> min cap (x + d) then min cap (x + d) - 1 else min cap (x + d)) + eps"
  shows "(if 1 \<le> min cap (x + d) then 1 else 0) + max 0 y \<le> max 0 x + d + eps"
  using assms by (auto simp: min_def max_def split: if_splits)

lemma admits_step:
  assumes rate: "0 < rate" and cap: "1 \<le> cap" and lo: "lo \<le> now" "now \<le> hi" and b: "bucket_from b lo hi"
    and y: "y \<le> (if 1 \<le> fst (bucket_step rate cap b now) then fst (bucket_step rate cap b now) - 1
             else fst (bucket_step rate cap b now)) + eps" and eps: "0 \<le> eps"
  shows "bucket_from (Some (y, snd (bucket_step rate cap b now))) lo hi \<and>
    (if 1 \<le> fst (bucket_step rate cap b now) then 1 else 0) + admits rate cap (Some (y, snd (bucket_step rate cap b now))) lo hi
      \<le> admits rate cap b lo hi + eps"
proof (cases b)
  case None
  have a: "rate * real_of_int (hi - now) / 1000 \<le> rate * real_of_int (hi - lo) / 1000" using rate lo by simp
  have c: "max 0 y \<le> cap - 1 + eps" using None y cap eps by (simp add: bucket_step_def)
  have "1 + (max 0 y + rate * real_of_int (hi - now) / 1000) \<le> 1 + ((cap - 1 + eps) + rate * real_of_int (hi - lo) / 1000)"
    by (intro add_left_mono add_mono a c)
  then have "1 + (max 0 y + rate * real_of_int (hi - now) / 1000) \<le> cap + rate * real_of_int (hi - lo) / 1000 + eps"
    by (simp add: algebra_simps)
  then show ?thesis using None lo cap by (simp add: bucket_step_def admits_def bucket_from_def)
next
  case (Some p)
  obtain x l where p: "p = (x, l)" by fastforce
  let ?m = "max now l"
  let ?lvl = "min cap (x + real_of_int (?m - l) / 1000 * rate)"
  have st: "bucket_step rate cap b now = (?lvl, ?m)" using Some p by (simp add: bucket_step_def Let_def)
  have m: "?m \<le> hi" "l \<le> ?m" using Some p lo b by (auto simp: bucket_from_def)
  have split: "rate * real_of_int (hi - l) / 1000 = rate * real_of_int (hi - ?m) / 1000 + real_of_int (?m - l) / 1000 * rate"
    by (simp add: field_simps)
  have pos: "0 \<le> real_of_int (?m - l) / 1000 * rate" using rate m(2) by simp
  have "(if 1 \<le> ?lvl then 1 else 0) + max 0 y \<le> max 0 x + real_of_int (?m - l) / 1000 * rate + eps"
    using y unfolding st fst_conv by (rule level_step [OF pos eps])
  then have "(if 1 \<le> ?lvl then 1 else 0) + (max 0 y + rate * real_of_int (hi - ?m) / 1000) \<le>
      max 0 x + (rate * real_of_int (hi - ?m) / 1000 + real_of_int (?m - l) / 1000 * rate) + eps" by simp
  moreover have "admits rate cap b lo hi = max 0 x + (rate * real_of_int (hi - ?m) / 1000 + real_of_int (?m - l) / 1000 * rate)"
    unfolding split [symmetric] using Some p by (simp add: admits_def)
  moreover have "admits rate cap (Some (y, ?m)) lo hi = max 0 y + rate * real_of_int (hi - ?m) / 1000" by (simp add: admits_def)
  moreover have "bucket_from (Some (y, ?m)) lo hi" using m lo by (simp add: bucket_from_def)
  ultimately show ?thesis unfolding st fst_conv snd_conv by presburger
qed

context redis_server
begin

lemma bucketRun_bound:
  assumes tx: "text_ok L eps" and ne: "lg_stateKey g \<noteq> lg_controlKey g" and burst: "lg_burstSeconds g = Fin bs"
    and ts: "\<forall>t \<in> set ts. lo \<le> unixMilli t \<and> unixMilli t \<le> hi"
    and b: "command_rate R L g db = Some rate" "bucket R L g db b" "bucket_from b lo hi" "0 \<le> rate"
  shows "real (fst (bucketRun R L T itoa g ts db)) \<le> admits rate (max 1 (rate * bs)) b lo hi + eps * real (length ts)"
  using ts b
proof (induction ts arbitrary: db b)
  case Nil
  have "0 \<le> admits rate (max 1 (rate * bs)) b lo hi"
    using Nil by (auto simp: admits_def bucket_from_def add_nonneg_nonneg le_max_iff_disj split: option.splits)
  then show ?case by simp
next
  case (Cons t ts)
  obtain v w where run: "LeasedRateGate_Apply R L T itoa g background \<lparr> gw_time = t, gw_db = db \<rparr> = (v, w)" by fastforce
  let ?st = "bucket_step rate (max 1 (rate * bs)) b (unixMilli t)"
  have eps: "0 \<le> eps" using tx by (simp add: text_ok_def)
  have n: "real (fst (bucketRun R L T itoa g (t # ts) db)) =
      (if Action v = ActionContinue then 1 else 0) + real (fst (bucketRun R L T itoa g ts (gw_db w)))"
    using run by (simp add: split_def Let_def)
  note step = apply_bucket [OF tx ne Cons.prems(2) burst Cons.prems(3) run]
  show ?case
  proof (cases "Action v \<noteq> ActionContinue \<and> bucket R L g (gw_db w) b")
    case True
    then have "real (fst (bucketRun R L T itoa g ts (gw_db w))) \<le> admits rate (max 1 (rate * bs)) b lo hi + eps * real (length ts)"
      using Cons step by auto
    then show ?thesis using n True eps by (simp add: distrib_left)
  next
    case False
    then obtain y where y: "0 < rate" "bucket R L g (gw_db w) (Some (y, snd ?st))"
        "Action v = ActionContinue \<longrightarrow> 1 \<le> fst ?st" "y \<le> (if 1 \<le> fst ?st then fst ?st - 1 else fst ?st) + eps"
      using step by (auto simp: Let_def)
    have adm: "bucket_from (Some (y, snd ?st)) lo hi"
      "(if 1 \<le> fst ?st then 1 else 0) + admits rate (max 1 (rate * bs)) (Some (y, snd ?st)) lo hi
         \<le> admits rate (max 1 (rate * bs)) b lo hi + eps"
      using admits_step [OF y(1) _ _ _ Cons.prems(4) y(4) eps] Cons.prems(1) by auto
    have "real (fst (bucketRun R L T itoa g ts (gw_db w))) \<le>
        admits rate (max 1 (rate * bs)) (Some (y, snd ?st)) lo hi + eps * real (length ts)"
      using Cons step y(2) adm(1) by auto
    moreover have "(if Action v = ActionContinue then 1 else 0) \<le> (if 1 \<le> fst ?st then 1 else (0 :: real))" using y(3) by simp
    ultimately show ?thesis using n adm(2) by (simp add: distrib_left)
  qed
qed

end

section \<open>Properties\<close>


text \<open>A pool with two requests a second and a burst of one second; the lease ends at 20 ms.\<close>

definition demo_lua :: lua where
  "demo_lua = \<lparr> tonumber = (\<lambda>t. map_option (\<lambda>n. Fin (real_of_int n)) (of_unary t)),
     luastr = (\<lambda>x. case x of Fin r \<Rightarrow> unary \<lfloor>r\<rfloor> | _ \<Rightarrow> '''') \<rparr>"

definition demo_gotext :: gotext where
  "demo_gotext = \<lparr> ParseFloat = (\<lambda>t. map_option (\<lambda>n. Fin (real_of_int n)) (of_unary t)), ParseInt = of_unary \<rparr>"

definition demo_lease_gate :: leased_gate where
  "demo_lease_gate = NewRedisLeasedRateGate ''ctl'' '''' ''pool'' (Fin 1)"

definition demo_lease_db :: mem where
  "demo_lease_db = empty_mem \<lparr> mem_h := (\<lambda>_. Map.empty)(''ctl'' := [''api_version'' \<mapsto> DispatchRateLimitAPIVersion,
     ''pool_id'' \<mapsto> ''pool'', ''max_admission_rps'' \<mapsto> unary 2, ''valid_until_unix_ms'' \<mapsto> unary 20, ''decision_id'' \<mapsto> ''d'']) \<rparr>"

lemma demo_text_ok: "text_ok demo_lua 0"
  by (auto simp: text_ok_def demo_lua_def)


text \<open>The script and \<open>readLimit\<close> read the same command.\<close>

lemma readLimit_lease:
  assumes "ctx_fail ctx = False" "lg_burstSeconds g = Fin bs" "0 < bs" "ParseFloat T '''' = None" "ParseInt T '''' = None"
    and c: "hmget R (gw_db w) (lg_controlKey g) commandFields = [Some c0, Some c1, Some c2, Some c3, Some c4]"
    and f: "tonumber L c2 = ParseFloat T c2" and i: "tonumber L c3 = map_option (\<lambda>n. Fin (real_of_int n)) (ParseInt T c3)"
  shows "(\<exists>l. readLimit R T g ctx w = Inr l) \<longleftrightarrow>
     leaseOf L DispatchRateLimitAPIVersion (lg_poolID g) [Some c0, Some c1, Some c2, Some c3, Some c4]
       (Some (lg_burstSeconds g)) (unixMilli (gw_time w)) \<noteq> None"
proof (cases "ParseInt T c3")
  case None
  then show ?thesis using assms(1) c i
    by (auto simp: readLimit_def leaseOf_def split: option.splits float64.splits)
next
  case (Some n)
  show ?thesis
  proof (cases "ParseFloat T c2")
    case None
    then show ?thesis using assms(1) c f by (simp add: readLimit_def leaseOf_def)
  next
    case f2: (Some x)
    then have "c2 \<noteq> ''''" "c3 \<noteq> ''''" using assms(4,5) Some by auto
    then show ?thesis using assms(1-3) c f i Some f2
      by (cases x) (auto simp: readLimit_def leaseOf_def ValidateAt_def Let_def)
  qed
qed




end
