(* ===== verification/Merge_Policy.thy ===== *)
theory Merge_Policy
  imports Worker
begin

text \<open>
  Merging request channels into the channel of a worker pool:
  \<open>src/pkg/async/mergepolicy\<close> (header stamping, fairness identity, the tier-priority scheduler and the
  random-robin fan-in), with \<open>src/pkg/util/utils.go\<close> and the pool list of \<open>src/pipeline/worker_pool.go\<close>.

  A Go channel is its identity (a string, as \<open>%p\<close> prints it). A Go map is iterated in an unspecified
  order: the caller's headers come as a list, one order of the map. \<open>url.JoinPath\<close> and the \<open>httpguts\<close>
  predicates are arguments.
\<close>

section \<open>Base URLs and paths\<close>

text \<open>\<open>NormalizeBaseURL\<close> indexes the last byte without looking at the length: None is the panic.\<close>

definition NormalizeURLPath :: "string \<Rightarrow> string" where
  "NormalizeURLPath path =
     (case path of [] \<Rightarrow> ''/'' | c # _ \<Rightarrow> if c \<noteq> CHR ''/'' then CHR ''/'' # path else path)"

fun stripSlashes :: "string \<Rightarrow> string option" where
  "stripSlashes [] = None"
| "stripSlashes (c # cs) = (if c = CHR ''/'' then stripSlashes cs else Some (c # cs))"

definition NormalizeBaseURL :: "string \<Rightarrow> string option" where
  "NormalizeBaseURL baseURL = (if baseURL = '''' then Some '''' else map_option rev (stripSlashes (rev baseURL)))"

section \<open>Worker pools\<close>

record worker_pool_config =
  wp_ID :: string
  wp_Workers :: int
  wp_GateType :: string

fun validatePools :: "string set \<Rightarrow> worker_pool_config list \<Rightarrow> string option" where
  "validatePools seen [] = None"
| "validatePools seen (pool # pools) =
     (if wp_ID pool = '''' then Some ''pool config has an empty ID''
      else if wp_Workers pool \<le> 0 then Some ''pool must have at least 1 worker''
      else if wp_ID pool \<in> seen then Some ''duplicate pool ID found''
      else validatePools (insert (wp_ID pool) seen) pools)"

definition LoadWorkerPools :: "worker_pool_config list \<Rightarrow> string + worker_pool_config list" where
  "LoadWorkerPools pools = (case validatePools {} pools of Some err \<Rightarrow> Inl err | None \<Rightarrow> Inr pools)"

section \<open>Headers\<close>

definition header_Set :: "string \<Rightarrow> string \<Rightarrow> strmap \<Rightarrow> strmap" where
  "header_Set name v headers = (\<lambda>k. if k \<noteq> name \<and> EqualFold k name then None else headers k)(name \<mapsto> v)"

definition setAll :: "(string \<times> string) list \<Rightarrow> strmap \<Rightarrow> strmap" where
  "setAll kvs headers = fold (\<lambda>(k, v). header_Set k v) kvs headers"

abbreviation (input) FairnessIDHeader :: string where "FairnessIDHeader \<equiv> ''x-llm-d-inference-fairness-id''"
abbreviation (input) ObjectiveHeader :: string where "ObjectiveHeader \<equiv> ''x-llm-d-inference-objective''"
abbreviation (input) DefaultAttribute :: string where "DefaultAttribute \<equiv> ''userid''"
abbreviation (input) maxIdentityLen :: nat where "maxIdentityLen \<equiv> 256"

record httpguts =
  ValidHeaderFieldName :: "string \<Rightarrow> bool"
  ValidHeaderFieldValue :: "string \<Rightarrow> bool"

definition ResolveHeader :: "httpguts \<Rightarrow> string option \<Rightarrow> string + string" where
  "ResolveHeader H header = (case header of
     None \<Rightarrow> Inr FairnessIDHeader
   | Some h \<Rightarrow> if h \<noteq> '''' \<and> \<not> ValidHeaderFieldName H h
               then Inl ''fairness_header is not a legal HTTP header name'' else Inr h)"

record stamper =
  st_header :: string
  st_attribute :: string

definition NewStamper :: "string \<Rightarrow> string \<Rightarrow> stamper" where
  "NewStamper header attribute =
     \<lparr> st_header = header, st_attribute = (if attribute = '''' then DefaultAttribute else attribute) \<rparr>"

text \<open>The identity a stamper puts on the wire, if any.\<close>

definition identity :: "httpguts \<Rightarrow> stamper \<Rightarrow> Request \<Rightarrow> string option" where
  "identity H s req =
     (let i = (case ReqMetadata req (st_attribute s) of None \<Rightarrow> '''' | Some v \<Rightarrow> v) in
      if st_header s = '''' then None
      else if i = '''' \<or> maxIdentityLen < length i \<or> \<not> ValidHeaderFieldValue H i then None else Some i)"

definition Stamp :: "httpguts \<Rightarrow> stamper \<Rightarrow> Request \<Rightarrow> strmap \<Rightarrow> strmap" where
  "Stamp H s req headers = (case identity H s req of None \<Rightarrow> headers | Some i \<Rightarrow> header_Set (st_header s) i headers)"

section \<open>Request channels\<close>

record request_channel =
  rc_Channel :: string
  rc_IGWBaseURL :: string
  rc_InferenceObjective :: string
  rc_RequestPathURL :: string
  rc_WorkerPoolID :: string

definition requestURL :: "(string \<Rightarrow> string \<Rightarrow> string) \<Rightarrow> request_channel \<Rightarrow> Request \<Rightarrow> string" where
  "requestURL joinPath chMeta req =
     joinPath (rc_IGWBaseURL chMeta) (if ReqEndpoint req \<noteq> '''' then ReqEndpoint req else rc_RequestPathURL chMeta)"

definition poolOf :: "request_channel \<Rightarrow> string" where
  "poolOf ch = (if rc_WorkerPoolID ch = '''' then ''default'' else rc_WorkerPoolID ch)"

section \<open>The lane of a request\<close>

definition tierOf :: "internal_request \<Rightarrow> string \<Rightarrow> string" where
  "tierOf ir tierLabel = (case Labels (Routing ir) tierLabel of None \<Rightarrow> '''' | Some t \<Rightarrow> t)"

definition getPriorityIndex :: "internal_request \<Rightarrow> string \<Rightarrow> nat" where
  "getPriorityIndex ir tierLabel =
     (let tierPri = (if tierOf ir tierLabel = TierInteractive then 0
                     else if tierOf ir tierLabel = TierAsync then 1 else 2);
          classPri = (if GetClassification (Routing ir) = ClassificationReserved then 0 else 1)
      in classPri * 3 + tierPri)"

definition laneKey :: "internal_request \<Rightarrow> string \<Rightarrow> string" where
  "laneKey ir tierLabel =
     (let tier = (if tierOf ir tierLabel = TierInteractive then TierInteractive
                  else if tierOf ir tierLabel = TierAsync then TierAsync else TierBatch);
          class = (if GetClassification (Routing ir) = ClassificationReserved then ''reserved'' else ''overflow'')
      in class @ ''-'' @ tier)"

section \<open>One lane: round robin over sources\<close>

record msgAndMeta =
  mm_ir :: internal_request
  mm_chMeta :: request_channel

record bucket =
  bk_queues :: "string \<rightharpoonup> msgAndMeta list"
  bk_keys :: "string list"
  bk_nextIdx :: nat
  bk_size :: nat

definition newBucket :: bucket where
  "newBucket = \<lparr> bk_queues = Map.empty, bk_keys = [], bk_nextIdx = 0, bk_size = 0 \<rparr>"

definition bucket_push :: "string \<Rightarrow> msgAndMeta \<Rightarrow> bucket \<Rightarrow> bucket" where
  "bucket_push key mm b =
     (let q = (case bk_queues b key of None \<Rightarrow> [] | Some q \<Rightarrow> q) in
      \<lparr> bk_queues = (bk_queues b)(key \<mapsto> q @ [mm]),
        bk_keys = (if bk_queues b key = None then bk_keys b @ [key] else bk_keys b),
        bk_nextIdx = bk_nextIdx b, bk_size = bk_size b + 1 \<rparr>)"

text \<open>An index out of range is a panic.\<close>

datatype pop_result = PopPanic | PopEmpty | Popped msgAndMeta bucket

definition bucket_pop :: "bucket \<Rightarrow> pop_result" where
  "bucket_pop b =
     (if bk_keys b = [] then PopEmpty
      else if length (bk_keys b) \<le> bk_nextIdx b then PopPanic
      else let key = bk_keys b ! bk_nextIdx b in
        (case bk_queues b key of
           None \<Rightarrow> PopPanic | Some [] \<Rightarrow> PopPanic
         | Some (mm # q) \<Rightarrow>
             if q = [] then
               let keys' = take (bk_nextIdx b) (bk_keys b) @ drop (bk_nextIdx b + 1) (bk_keys b)
               in Popped mm \<lparr> bk_queues = (bk_queues b)(key := None), bk_keys = keys',
                    bk_nextIdx = (if keys' \<noteq> [] then bk_nextIdx b mod length keys' else 0), bk_size = bk_size b - 1 \<rparr>
             else Popped mm \<lparr> bk_queues = (bk_queues b)(key \<mapsto> q), bk_keys = bk_keys b,
                    bk_nextIdx = (bk_nextIdx b + 1) mod length (bk_keys b), bk_size = bk_size b - 1 \<rparr>))"

section \<open>The scheduler: six lanes in strict priority\<close>

record scheduler =
  sc_totalBuffered :: nat
  sc_maxBuffered :: nat
  sc_tierLabel :: string
  sc_closed :: bool
  sc_activeReaders :: int
  sc_buckets :: "bucket list"

definition newScheduler :: "nat \<Rightarrow> int \<Rightarrow> string \<Rightarrow> scheduler" where
  "newScheduler maxBuffered activeReaders tierLabel =
     \<lparr> sc_totalBuffered = 0, sc_maxBuffered = maxBuffered, sc_tierLabel = tierLabel, sc_closed = False,
       sc_activeReaders = activeReaders, sc_buckets = replicate 6 newBucket \<rparr>"

text \<open>A call that waits on the condition variable does not return in this state.\<close>

datatype 'a wait_result = Waits | Fails | Returns 'a

definition scheduler_Push :: "internal_request \<Rightarrow> request_channel \<Rightarrow> scheduler \<Rightarrow> scheduler wait_result" where
  "scheduler_Push ir chMeta s =
     (let pri = getPriorityIndex ir (sc_tierLabel s) in
      if sc_maxBuffered s \<le> bk_size (sc_buckets s ! pri) \<and> \<not> sc_closed s then Waits
      else if sc_closed s then Fails
      else Returns (s \<lparr> sc_buckets := (sc_buckets s)[pri :=
                bucket_push (rc_Channel chMeta) \<lparr> mm_ir = ir, mm_chMeta = chMeta \<rparr> (sc_buckets s ! pri)],
              sc_totalBuffered := sc_totalBuffered s + 1 \<rparr>))"

definition AddReader :: "scheduler \<Rightarrow> scheduler" where
  "AddReader s = s \<lparr> sc_activeReaders := sc_activeReaders s + 1 \<rparr>"

definition DecrementReaders :: "scheduler \<Rightarrow> scheduler" where
  "DecrementReaders s = s \<lparr> sc_activeReaders := sc_activeReaders s - 1 \<rparr>"

definition scheduler_Close :: "scheduler \<Rightarrow> scheduler" where
  "scheduler_Close s = s \<lparr> sc_closed := True \<rparr>"

text \<open>The first lane that has something; \<open>PopPanic\<close> is passed on.\<close>

fun popFirst :: "bucket list \<Rightarrow> (msgAndMeta \<times> bucket list) option option" where
  "popFirst [] = Some None"
| "popFirst (b # bs) = (case bucket_pop b of
     PopPanic \<Rightarrow> None
   | Popped mm b' \<Rightarrow> Some (Some (mm, b' # bs))
   | PopEmpty \<Rightarrow> map_option (map_option (\<lambda>(mm, bs'). (mm, b # bs'))) (popFirst bs))"

text \<open>None is a panic, \<open>Fails\<close> the return of false.\<close>

definition scheduler_Pop :: "scheduler \<Rightarrow> (msgAndMeta \<times> scheduler) wait_result option" where
  "scheduler_Pop s =
     (if sc_totalBuffered s = 0 then Some (if sc_closed s then Fails else Waits)
      else (case popFirst (sc_buckets s) of
              None \<Rightarrow> None
            | Some None \<Rightarrow> Some Fails
            | Some (Some (mm, bs)) \<Rightarrow>
                Some (Returns (mm, s \<lparr> sc_buckets := bs, sc_totalBuffered := sc_totalBuffered s - 1 \<rparr>))))"

section \<open>The merged message\<close>

record tier_policy =
  tp_priorityHeader :: string
  tp_tierLabel :: string
  tp_objectiveHeader :: string
  tp_laneObjectives :: strmap
  tp_fairness :: stamper

definition NewTierPriorityPolicy :: "string \<Rightarrow> string \<Rightarrow> string \<Rightarrow> strmap \<Rightarrow> string \<Rightarrow> string \<Rightarrow> tier_policy" where
  "NewTierPriorityPolicy priorityHeader tierLabel objectiveHeader laneObjectives fairnessHeader fairnessAttribute =
     \<lparr> tp_priorityHeader = priorityHeader, tp_tierLabel = (if tierLabel = '''' then ''tier'' else tierLabel),
       tp_objectiveHeader = (if objectiveHeader = '''' then ObjectiveHeader else objectiveHeader),
       tp_laneObjectives = laneObjectives, tp_fairness = NewStamper fairnessHeader fairnessAttribute \<rparr>"

abbreviation (input) queueObjectiveHeader :: string where "queueObjectiveHeader \<equiv> ''x-gateway-inference-objective''"

definition digit :: "nat \<Rightarrow> string" where "digit n = [char_of (48 + n)]"

definition tierHeaders :: "httpguts \<Rightarrow> tier_policy \<Rightarrow> request_channel \<Rightarrow> internal_request \<Rightarrow> Request
    \<Rightarrow> (string \<times> string) list \<Rightarrow> strmap" where
  "tierHeaders H p chMeta ir req callerHeaders =
     (let h0 = [''Content-Type'' \<mapsto> ''application/json''];
          h1 = (if rc_InferenceObjective chMeta \<noteq> '''' then h0(queueObjectiveHeader \<mapsto> rc_InferenceObjective chMeta) else h0);
          h2 = setAll callerHeaders h1;
          h3 = Stamp H (tp_fairness p) req h2;
          h4 = (if tp_priorityHeader p \<noteq> ''''
                then header_Set (tp_priorityHeader p) (digit (getPriorityIndex ir (tp_tierLabel p))) h3 else h3)
      in case tp_laneObjectives p (laneKey ir (tp_tierLabel p)) of
           None \<Rightarrow> h4
         | Some objective \<Rightarrow> if objective \<noteq> '''' then header_Set (tp_objectiveHeader p) objective h4 else h4)"

definition tierMessage :: "httpguts \<Rightarrow> (string \<Rightarrow> string \<Rightarrow> string) \<Rightarrow> tier_policy \<Rightarrow> string \<Rightarrow> msgAndMeta \<Rightarrow> Request
    \<Rightarrow> (string \<times> string) list \<Rightarrow> embelished" where
  "tierMessage H joinPath p workerPoolID mm req callerHeaders =
     \<lparr> em_ir = mm_ir mm, HttpHeaders = tierHeaders H p (mm_chMeta mm) (mm_ir mm) req callerHeaders,
       RequestURL = requestURL joinPath (mm_chMeta mm) req, WorkerPoolID = workerPoolID \<rparr>"

definition stampHeaders :: "httpguts \<Rightarrow> stamper \<Rightarrow> request_channel \<Rightarrow> Request \<Rightarrow> (string \<times> string) list \<Rightarrow> strmap" where
  "stampHeaders H st chMeta req callerHeaders =
     (let h0 = header_Set ''Content-Type'' ''application/json'' Map.empty;
          h1 = (if rc_InferenceObjective chMeta \<noteq> '''' then header_Set queueObjectiveHeader (rc_InferenceObjective chMeta) h0 else h0)
      in Stamp H st req (setAll callerHeaders h1))"

section \<open>Pools and their sources\<close>

text \<open>The sources of each pool, by channel. \<open>addChannels\<close> of both policies: check every channel, then add.\<close>

type_synonym pools = "string \<rightharpoonup> request_channel list"

definition addSource :: "request_channel \<Rightarrow> pools \<Rightarrow> pools" where
  "addSource ch ps = (case ps (poolOf ch) of None \<Rightarrow> ps
     | Some chs \<Rightarrow> if rc_Channel ch \<in> rc_Channel ` set chs then ps else ps(poolOf ch \<mapsto> chs @ [ch]))"

definition addChannels :: "request_channel list \<Rightarrow> pools \<Rightarrow> (string + unit) \<times> pools" where
  "addChannels channels ps =
     (case find (\<lambda>ch. ps (poolOf ch) = None) channels of
        Some ch \<Rightarrow> (Inl (''worker pool '' @ poolOf ch @ '' not found in pools map''), ps)
      | None \<Rightarrow> (Inr (), fold addSource channels ps))"

definition removeSource :: "string \<Rightarrow> string \<Rightarrow> pools \<Rightarrow> pools" where
  "removeSource pool c ps = (case ps pool of None \<Rightarrow> ps
     | Some chs \<Rightarrow> ps(pool \<mapsto> filter (\<lambda>ch. rc_Channel ch \<noteq> c) chs))"

text \<open>\<open>MergeRequestChannels\<close>: an entry for every configured pool, then the sources. None is the panic.\<close>

definition MergeRequestChannels :: "request_channel list \<Rightarrow> string list \<Rightarrow> pools option" where
  "MergeRequestChannels channels configured =
     (if \<exists>ch \<in> set channels. poolOf ch \<notin> set configured then None
      else Some (snd (addChannels channels (\<lambda>p. if p \<in> set configured then Some [] else None))))"

text \<open>
  One turn of the random-robin fan-in: what \<open>reflect.Select\<close> chose, and the message emitted. None is the
  panic on a request without its public part.
\<close>

datatype fan_event = SourcesChanged | SourceClosed string | SourceReceived string "internal_request option"

definition fanTurn :: "httpguts \<Rightarrow> (string \<Rightarrow> string \<Rightarrow> string) \<Rightarrow> stamper \<Rightarrow> (Request \<Rightarrow> (string \<times> string) list) \<Rightarrow> string
    \<Rightarrow> fan_event \<Rightarrow> request_channel list \<Rightarrow> (embelished option \<times> request_channel list) option" where
  "fanTurn H joinPath st order workerPoolID ev sources =
     (case ev of
        SourcesChanged \<Rightarrow> Some (None, sources)
      | SourceClosed c \<Rightarrow> Some (None, filter (\<lambda>ch. rc_Channel ch \<noteq> c) sources)
      | SourceReceived c ir \<Rightarrow>
          (case (ir, find (\<lambda>ch. rc_Channel ch = c) sources) of
             (Some m, Some chMeta) \<Rightarrow>
               map_option (\<lambda>req. (Some \<lparr> em_ir = m, HttpHeaders = stampHeaders H st chMeta req (order req),
                                         RequestURL = requestURL joinPath chMeta req, WorkerPoolID = workerPoolID \<rparr>, sources))
                 (PublicRequest m)
           | _ \<Rightarrow> Some (None, sources)))"

section \<open>The round robin\<close>

text \<open>
  The specification of a lane: the sources that have messages, in the order in which they are served,
  each with its queue. Popping serves the first and puts it last if it has more.
\<close>

fun rr_pop :: "(string \<times> msgAndMeta list) list \<Rightarrow> (msgAndMeta \<times> (string \<times> msgAndMeta list) list) option" where
  "rr_pop [] = None"
| "rr_pop ((k, []) # rest) = None"
| "rr_pop ((k, m # q) # rest) = Some (m, if q = [] then rest else rest @ [(k, q)])"

definition qsize :: "(string \<rightharpoonup> msgAndMeta list) \<Rightarrow> nat" where
  "qsize f = (\<Sum>k\<in>dom f. length (the (f k)))"

definition bucket_inv :: "bucket \<Rightarrow> bool" where
  "bucket_inv b \<longleftrightarrow> distinct (bk_keys b) \<and> set (bk_keys b) = dom (bk_queues b) \<and> Some [] \<notin> range (bk_queues b) \<and>
     (if bk_keys b = [] then bk_nextIdx b = 0 else bk_nextIdx b < length (bk_keys b)) \<and>
     bk_size b = qsize (bk_queues b)"

definition turn_keys :: "bucket \<Rightarrow> string list" where
  "turn_keys b = drop (bk_nextIdx b) (bk_keys b) @ take (bk_nextIdx b) (bk_keys b)"

definition turn :: "bucket \<Rightarrow> (string \<times> msgAndMeta list) list" where
  "turn b = map (\<lambda>k. (k, the (bk_queues b k))) (turn_keys b)"

lemma qsize_rest: "finite (dom f) \<Longrightarrow> qsize f = (case f k of None \<Rightarrow> 0 | Some q \<Rightarrow> length q) + (\<Sum>j\<in>dom f - {k}. length (the (f j)))"
  using sum.remove [of "dom f" k "\<lambda>j. length (the (f j))"] by (cases "f k") (auto simp: qsize_def domIff)

lemma qsize_upd:
  "finite (dom f) \<Longrightarrow> qsize (f(k := v)) + (case f k of None \<Rightarrow> 0 | Some q \<Rightarrow> length q) = qsize f + (case v of None \<Rightarrow> 0 | Some q \<Rightarrow> length q)"
  using qsize_rest [of f k] qsize_rest [of "f(k := v)" k] by (cases v) (simp_all add: insert_Diff_if)

lemma bucket_finite: "bucket_inv b \<Longrightarrow> finite (dom (bk_queues b))"
  unfolding bucket_inv_def by (metis List.finite_set)

lemma newBucket_inv [simp]: "bucket_inv newBucket" "turn newBucket = []"
  by (simp_all add: bucket_inv_def newBucket_def turn_def turn_keys_def qsize_def)

lemma bucket_push_inv:
  assumes "bucket_inv b"
  shows "bucket_inv (bucket_push k mm b)"
  using assms qsize_upd [OF bucket_finite [OF assms], of k "Some ((case bk_queues b k of None \<Rightarrow> [] | Some q \<Rightarrow> q) @ [mm])"]
  by (auto simp: bucket_inv_def bucket_push_def Let_def split: if_splits option.splits)

lemma turn_push:
  assumes "bucket_inv b"
  shows "turn (bucket_push k mm b) =
    (if bk_queues b k = None
     then take (length (bk_keys b) - bk_nextIdx b) (turn b) @ (k, [mm]) # drop (length (bk_keys b) - bk_nextIdx b) (turn b)
     else map (\<lambda>(j, q). (j, if j = k then q @ [mm] else q)) (turn b))"
proof (cases "bk_queues b k")
  case None
  then have "k \<notin> set (bk_keys b)" using assms by (auto simp: bucket_inv_def)
  moreover have "bk_nextIdx b \<le> length (bk_keys b)" using assms by (auto simp: bucket_inv_def split: if_splits)
  ultimately show ?thesis using None
    by (auto simp: turn_def turn_keys_def bucket_push_def Let_def take_map drop_map dest: in_set_takeD in_set_dropD)
next
  case (Some q)
  then show ?thesis by (auto simp: turn_def turn_keys_def bucket_push_def Let_def)
qed

lemma bucket_pop_refines:
  assumes inv: "bucket_inv b"
  shows "case bucket_pop b of PopPanic \<Rightarrow> False | PopEmpty \<Rightarrow> turn b = [] \<and> bk_size b = 0
    | Popped mm b' \<Rightarrow> bucket_inv b' \<and> rr_pop (turn b) = Some (mm, turn b') \<and> bk_size b = bk_size b' + 1"
proof (cases "bk_keys b = []")
  case True
  then show ?thesis using inv by (simp add: bucket_pop_def turn_def turn_keys_def bucket_inv_def qsize_def flip: dom_eq_empty_conv)
next
  case False
  let ?i = "bk_nextIdx b"
  define key A B where "key = bk_keys b ! ?i" and "A = take ?i (bk_keys b)" and "B = drop (Suc ?i) (bk_keys b)"
  have i: "?i < length (bk_keys b)" using inv False by (simp add: bucket_inv_def)
  have eq: "bk_keys b = A @ key # B" and lA: "length A = ?i"
    using id_take_nth_drop [OF i] i by (simp_all add: key_def A_def B_def)
  obtain mm q where q: "bk_queues b key = Some (mm # q)"
    using inv i unfolding bucket_inv_def key_def by (metis (no_types) domD list.exhaust nth_mem rangeI)
  have d: "distinct (A @ key # B)" "set (A @ key # B) = dom (bk_queues b)" "Some [] \<notin> range (bk_queues b)"
    and sz: "bk_size b = qsize (bk_queues b)" using inv eq by (simp_all add: bucket_inv_def)
  have t: "turn_keys b = key # B @ A" using lA by (simp add: turn_keys_def eq)
  note upd = qsize_upd [OF bucket_finite [OF inv], of key]
  have pos: "A \<noteq> [] \<longrightarrow> 0 < ?i" using lA by (metis length_greater_0_conv)
  show ?thesis
  proof (cases "q = []")
    case True
    let ?b = "\<lparr> bk_queues = (bk_queues b)(key := None), bk_keys = A @ B,
      bk_nextIdx = (if A @ B \<noteq> [] then ?i mod length (A @ B) else 0), bk_size = bk_size b - 1 \<rparr>"
    have pop: "bucket_pop b = Popped mm ?b"
      using q True lA by (simp add: bucket_pop_def Let_def eq nth_append)
    have "turn_keys ?b = B @ A"
      using lA by (cases "B = []") (auto simp: turn_keys_def)
    then have "turn ?b = map (\<lambda>k. (k, the (bk_queues b k))) (B @ A)" using d by (auto simp: turn_def)
    moreover have "bucket_inv ?b"
      using d lA sz upd [of None] q True pos by (auto simp: bucket_inv_def)
    ultimately show ?thesis using pop t q True sz upd [of None] by (simp add: turn_def)
  next
    case q': False
    let ?b = "\<lparr> bk_queues = (bk_queues b)(key \<mapsto> q), bk_keys = bk_keys b,
      bk_nextIdx = (?i + 1) mod length (bk_keys b), bk_size = bk_size b - 1 \<rparr>"
    have pop: "bucket_pop b = Popped mm ?b"
      using q q' lA by (simp add: bucket_pop_def Let_def eq nth_append)
    have "turn_keys ?b = B @ A @ [key]"
      using lA by (cases "B = []") (simp_all add: turn_keys_def eq)
    then have "turn ?b = map (\<lambda>k. (k, the (bk_queues b k))) (B @ A) @ [(key, q)]" using d by (auto simp: turn_def)
    moreover have "bucket_inv ?b"
      using d sz upd [of "Some q"] q q' by (auto simp: bucket_inv_def eq)
    ultimately show ?thesis using pop t q q' sz upd [of "Some q"] by (simp add: turn_def)
  qed
qed

text \<open>A sequence of pops, and the specification of a full turn.\<close>

fun bucket_pops :: "nat \<Rightarrow> bucket \<Rightarrow> (msgAndMeta list \<times> bucket) option" where
  "bucket_pops 0 b = Some ([], b)"
| "bucket_pops (Suc n) b = (case bucket_pop b of
     Popped mm b' \<Rightarrow> map_option (\<lambda>(ms, b''). (mm # ms, b'')) (bucket_pops n b') | _ \<Rightarrow> None)"

lemma bucket_pops_turn:
  assumes "bucket_inv b" "turn b = xs @ ys" "\<forall>(k, q) \<in> set xs. q \<noteq> []"
  shows "\<exists>b'. bucket_pops (length xs) b = Some (map (\<lambda>(k, q). hd q) xs, b') \<and> bucket_inv b' \<and>
    turn b' = ys @ filter (\<lambda>(k, q). q \<noteq> []) (map (\<lambda>(k, q). (k, tl q)) xs)"
  using assms
proof (induction xs arbitrary: b ys)
  case (Cons x xs)
  obtain k m q where x: "x = (k, m # q)" using Cons.prems(3) by (cases x; cases "snd x") auto
  have "bucket_pop b \<noteq> PopEmpty" "bucket_pop b \<noteq> PopPanic"
    using bucket_pop_refines [OF Cons.prems(1)] Cons.prems(2) by auto
  then obtain mm b1 where p: "bucket_pop b = Popped mm b1" by (cases "bucket_pop b") auto
  then have b1: "bucket_inv b1" "mm = m" "turn b1 = xs @ ys @ (if q = [] then [] else [(k, q)])"
    using bucket_pop_refines [OF Cons.prems(1)] Cons.prems(2) x by (auto split: if_splits)
  from Cons.IH [OF b1(1) b1(3)] Cons.prems(3) obtain b' where
    "bucket_pops (length xs) b1 = Some (map (\<lambda>(k, q). hd q) xs, b')" "bucket_inv b'"
    "turn b' = (ys @ (if q = [] then [] else [(k, q)])) @ filter (\<lambda>(k, q). q \<noteq> []) (map (\<lambda>(k, q). (k, tl q)) xs)"
    by auto
  then show ?case using p b1(2) x by auto
qed auto

section \<open>The scheduler over time\<close>

inductive sched_reach :: "nat \<Rightarrow> string \<Rightarrow> scheduler \<Rightarrow> msgAndMeta list \<Rightarrow> msgAndMeta list \<Rightarrow> bool" for maxBuffered label where
  init: "sched_reach maxBuffered label (newScheduler maxBuffered n label) [] []"
| push: "sched_reach maxBuffered label s ps qs \<Longrightarrow> scheduler_Push ir ch s = Returns s' \<Longrightarrow>
     sched_reach maxBuffered label s' (ps @ [\<lparr> mm_ir = ir, mm_chMeta = ch \<rparr>]) qs"
| pop: "sched_reach maxBuffered label s ps qs \<Longrightarrow> scheduler_Pop s = Some (Returns (mm, s')) \<Longrightarrow>
     sched_reach maxBuffered label s' ps (qs @ [mm])"
| reader: "sched_reach maxBuffered label s ps qs \<Longrightarrow> s' \<in> {AddReader s, DecrementReaders s, scheduler_Close s} \<Longrightarrow>
     sched_reach maxBuffered label s' ps qs"

definition qof :: "bucket \<Rightarrow> string \<Rightarrow> msgAndMeta list" where
  "qof b k = (case bk_queues b k of None \<Rightarrow> [] | Some q \<Rightarrow> q)"

definition lane_of :: "string \<Rightarrow> msgAndMeta \<Rightarrow> nat" where
  "lane_of label m = getPriorityIndex (mm_ir m) label"

definition from_lane :: "string \<Rightarrow> nat \<Rightarrow> string \<Rightarrow> msgAndMeta list \<Rightarrow> msgAndMeta list" where
  "from_lane label l k ms = filter (\<lambda>m. lane_of label m = l \<and> rc_Channel (mm_chMeta m) = k) ms"

lemma from_lane_simps [simp]:
  "from_lane label l k [] = []" "from_lane label l k (xs @ ys) = from_lane label l k xs @ from_lane label l k ys"
  by (simp_all add: from_lane_def)

lemma qof_newBucket [simp]: "qof newBucket k = []"
  by (simp add: qof_def newBucket_def)

lemma qof_push [simp]: "qof (bucket_push k mm b) j = qof b j @ (if j = k then [mm] else [])"
  by (auto simp: qof_def bucket_push_def Let_def split: option.split)

lemma size_push [simp]: "bk_size (bucket_push k mm b) = bk_size b + 1"
  by (simp add: bucket_push_def Let_def)

lemma qof_pop:
  "bucket_pop b = Popped mm b' \<Longrightarrow> \<exists>k. qof b k = mm # qof b' k \<and> (\<forall>j. j \<noteq> k \<longrightarrow> qof b' j = qof b j)"
  by (auto simp: bucket_pop_def Let_def qof_def split: if_splits option.splits list.splits
      intro!: exI [of _ "bk_keys b ! bk_nextIdx b"])

lemma bucket_pop_ok:
  assumes "bucket_inv b"
  obtains "bucket_pop b = PopEmpty" "bk_size b = 0"
  | mm b' where "bucket_pop b = Popped mm b'" "bucket_inv b'" "bk_size b = bk_size b' + 1"
  using bucket_pop_refines [OF assms] by (cases "bucket_pop b") auto

lemma size_zero_qof:
  assumes "bucket_inv b" "bk_size b = 0"
  shows "qof b k = []"
proof (cases "bk_queues b k")
  case (Some q)
  then have "length q \<le> qsize (bk_queues b)" using qsize_rest [OF bucket_finite [OF assms(1)], of k] by simp
  then show ?thesis using assms Some by (simp add: bucket_inv_def qof_def)
qed (simp add: qof_def)

lemma popFirst_ok:
  assumes "\<forall>b \<in> set bs. bucket_inv b"
  shows "popFirst bs = Some None \<and> (\<forall>b \<in> set bs. bk_size b = 0) \<or>
    (\<exists>i mm b'. i < length bs \<and> popFirst bs = Some (Some (mm, bs[i := b'])) \<and> bucket_pop (bs ! i) = Popped mm b' \<and>
       (\<forall>j < i. bk_size (bs ! j) = 0))"
  using assms
proof (induction bs)
  case (Cons b bs)
  then have "bucket_inv b" by simp
  then show ?case
  proof (cases rule: bucket_pop_ok)
    case 1
    from Cons consider "popFirst bs = Some None" "\<forall>b \<in> set bs. bk_size b = 0"
      | i mm b' where "i < length bs" "popFirst bs = Some (Some (mm, bs[i := b']))" "bucket_pop (bs ! i) = Popped mm b'"
        "\<forall>j < i. bk_size (bs ! j) = 0" by auto
    then show ?thesis
    proof cases
      case c: 2
      then have "\<forall>j < Suc i. bk_size ((b # bs) ! j) = 0" using 1 by (auto simp: less_Suc_eq_0_disj)
      then show ?thesis using 1 c by (intro disjI2 exI [of _ "Suc i"] exI [of _ mm] exI [of _ b']) simp
    qed (use 1 in auto)
  next
    case (2 mm b')
    then show ?thesis by (intro disjI2 exI [of _ 0] exI [of _ mm] exI [of _ b']) simp
  qed
qed simp

definition sched_inv :: "nat \<Rightarrow> string \<Rightarrow> scheduler \<Rightarrow> msgAndMeta list \<Rightarrow> msgAndMeta list \<Rightarrow> bool" where
  "sched_inv maxBuffered label s ps qs \<longleftrightarrow> length (sc_buckets s) = 6 \<and> (\<forall>b \<in> set (sc_buckets s). bucket_inv b) \<and>
     sc_tierLabel s = label \<and> sc_maxBuffered s = maxBuffered \<and>
     sc_totalBuffered s = (\<Sum>b\<leftarrow>sc_buckets s. bk_size b) \<and> length ps = length qs + sc_totalBuffered s \<and>
     (\<forall>b \<in> set (sc_buckets s). bk_size b \<le> maxBuffered) \<and>
     (\<forall>l < 6. \<forall>k. from_lane label l k ps = from_lane label l k qs @ qof (sc_buckets s ! l) k)"

lemma lane_lt_6: "getPriorityIndex ir label < 6"
  by (simp add: getPriorityIndex_def Let_def)

lemma sum_list_update_nat:
  "i < length xs \<Longrightarrow> (\<Sum>x\<leftarrow>xs[i := y]. f x :: nat) + f (xs ! i) = (\<Sum>x\<leftarrow>xs. f x) + f y"
  by (induction xs arbitrary: i) (auto split: nat.split)

lemma push_inv:
  assumes inv: "sched_inv mb label s ps qs" and p: "scheduler_Push ir ch s = Returns s'"
  shows "sched_inv mb label s' (ps @ [\<lparr> mm_ir = ir, mm_chMeta = ch \<rparr>]) qs"
proof -
  let ?l = "getPriorityIndex ir label"
  let ?mm = "\<lparr> mm_ir = ir, mm_chMeta = ch \<rparr>"
  let ?b = "bucket_push (rc_Channel ch) ?mm (sc_buckets s ! ?l)"
  have l: "?l < length (sc_buckets s)" using inv lane_lt_6 by (simp add: sched_inv_def)
  have s': "s' = s \<lparr> sc_buckets := (sc_buckets s)[?l := ?b], sc_totalBuffered := sc_totalBuffered s + 1 \<rparr>"
    and room: "bk_size (sc_buckets s ! ?l) < mb"
    using p inv by (auto simp: scheduler_Push_def sched_inv_def Let_def split: if_splits)
  have "(\<Sum>b\<leftarrow>(sc_buckets s)[?l := ?b]. bk_size b) = (\<Sum>b\<leftarrow>sc_buckets s. bk_size b) + 1"
    using sum_list_update_nat [OF l, of bk_size ?b] by simp
  moreover have "\<forall>b \<in> set ((sc_buckets s)[?l := ?b]). bucket_inv b \<and> bk_size b \<le> mb"
    using inv room l set_update_subset_insert [of "sc_buckets s" ?l ?b] bucket_push_inv [of "sc_buckets s ! ?l"]
    by (fastforce simp: sched_inv_def)
  moreover have "from_lane label j k (ps @ [?mm]) = from_lane label j k qs @ qof ((sc_buckets s)[?l := ?b] ! j) k" if "j < 6" for j k
    using inv that l by (auto simp: sched_inv_def from_lane_def lane_of_def nth_list_update)
  ultimately show ?thesis using inv by (simp add: s' sched_inv_def)
qed

lemma pop_inv:
  assumes inv: "sched_inv mb label s ps qs" and p: "scheduler_Pop s = Some (Returns (mm, s'))"
  shows "sched_inv mb label s' ps (qs @ [mm]) \<and> (\<forall>j < lane_of label mm. bk_size (sc_buckets s ! j) = 0)"
proof -
  have all: "\<forall>b \<in> set (sc_buckets s). bucket_inv b" using inv by (simp add: sched_inv_def)
  obtain i b' where i: "i < length (sc_buckets s)" "bucket_pop (sc_buckets s ! i) = Popped mm b'"
      "\<forall>j < i. bk_size (sc_buckets s ! j) = 0" and pos: "0 < sc_totalBuffered s"
      and s': "s' = s \<lparr> sc_buckets := (sc_buckets s)[i := b'], sc_totalBuffered := sc_totalBuffered s - 1 \<rparr>"
    using popFirst_ok [OF all] p by (auto simp: scheduler_Pop_def split: if_splits)
  have i6: "i < 6" using inv i(1) by (simp add: sched_inv_def)
  have b: "bucket_inv b'" "bk_size (sc_buckets s ! i) = bk_size b' + 1"
    using bucket_pop_refines [of "sc_buckets s ! i"] all i(1,2) by auto
  obtain k where k: "qof (sc_buckets s ! i) k = mm # qof b' k" "\<forall>j. j \<noteq> k \<longrightarrow> qof b' j = qof (sc_buckets s ! i) j"
    using qof_pop [OF i(2)] by blast
  have "from_lane label i k ps = from_lane label i k qs @ qof (sc_buckets s ! i) k"
    using inv i6 by (simp add: sched_inv_def)
  then have "mm \<in> set (from_lane label i k ps)" using k(1) by simp
  then have mm: "lane_of label mm = i" "rc_Channel (mm_chMeta mm) = k" by (simp_all add: from_lane_def)
  have "(\<Sum>b\<leftarrow>(sc_buckets s)[i := b']. bk_size b) = (\<Sum>b\<leftarrow>sc_buckets s. bk_size b) - 1"
    using sum_list_update_nat [OF i(1), of bk_size b'] b(2) by simp
  moreover have "\<forall>x \<in> set ((sc_buckets s)[i := b']). bucket_inv x \<and> bk_size x \<le> mb"
  proof
    fix x
    assume x: "x \<in> set ((sc_buckets s)[i := b'])"
    have "x = b' \<or> x \<in> set (sc_buckets s)"
      using subsetD [OF set_update_subset_insert x] by simp
    moreover have le: "bk_size x \<le> mb" if "x \<in> set (sc_buckets s)" for x using inv that unfolding sched_inv_def by blast
    moreover have "bk_size b' \<le> mb" using le [OF nth_mem [OF i(1)]] b(2) by linarith
    ultimately show "bucket_inv x \<and> bk_size x \<le> mb" using all b(1) by blast
  qed
  moreover have "from_lane label j c ps = from_lane label j c (qs @ [mm]) @ qof ((sc_buckets s)[i := b'] ! j) c" if "j < 6" for j c
  proof -
    have "from_lane label j c ps = from_lane label j c qs @ qof (sc_buckets s ! j) c" using inv that by (simp add: sched_inv_def)
    then show ?thesis using mm k i(1) by (auto simp: from_lane_def nth_list_update)
  qed
  ultimately show ?thesis using inv mm i(3) pos by (auto simp: s' sched_inv_def)
qed

lemma sched_reach_inv: "sched_reach mb label s ps qs \<Longrightarrow> sched_inv mb label s ps qs"
proof (induction rule: sched_reach.induct)
  case (init n)
  then show ?case by (auto simp: sched_inv_def newScheduler_def nth_replicate) (simp_all add: newBucket_def numeral_eq_Suc)
next
  case (push s ps qs ir ch s')
  then show ?case using push_inv by blast
next
  case (pop s ps qs mm s')
  then show ?case using pop_inv by blast
next
  case (reader s ps qs s')
  then show ?case by (auto simp: sched_inv_def AddReader_def DecrementReaders_def scheduler_Close_def)
qed

lemma map_of_filter_graph:
  "map_of (filter (\<lambda>(k, q). q \<noteq> []) (map (\<lambda>k. (k, f k)) ks)) k = (if k \<in> set ks \<and> f k \<noteq> [] then Some (f k) else None)"
  by (induction ks) auto

lemma qof_turn:
  assumes "bucket_inv b"
  shows "qof b k = (case map_of (turn b) k of None \<Rightarrow> [] | Some q \<Rightarrow> q)"
proof -
  have "set (turn_keys b) = dom (bk_queues b)"
    using assms set_append [of "take (bk_nextIdx b) (bk_keys b)" "drop (bk_nextIdx b) (bk_keys b)"]
    by (auto simp: turn_keys_def bucket_inv_def)
  moreover have "map_of (map (\<lambda>k. (k, f k)) ks) k = (if k \<in> set ks then Some (f k) else None)" for f :: "string \<Rightarrow> msgAndMeta list" and ks
    by (induction ks) auto
  ultimately show ?thesis by (auto simp: turn_def qof_def split: option.split)
qed

section \<open>Headers and sources\<close>

text \<open>No two header names that a server would take for the same.\<close>

definition fold_unique :: "strmap \<Rightarrow> bool" where
  "fold_unique h \<longleftrightarrow> (\<forall>a \<in> dom h. \<forall>b \<in> dom h. EqualFold a b \<longrightarrow> a = b)"

lemma EqualFold_equiv: "EqualFold a a" "EqualFold a b \<Longrightarrow> EqualFold b a" "EqualFold a b \<Longrightarrow> EqualFold b c \<Longrightarrow> EqualFold a c"
  by (simp_all add: EqualFold_def)

lemma fold_unique_Set [intro]:
  assumes "fold_unique h"
  shows "fold_unique (header_Set n v h)"
proof -
  have d: "k \<in> dom (header_Set n v h) \<longleftrightarrow> k = n \<or> k \<in> dom h \<and> \<not> EqualFold k n" for k
    by (auto simp: header_Set_def domIff EqualFold_equiv(1))
  show ?thesis unfolding fold_unique_def
  proof (intro ballI impI)
    fix a b
    assume "a \<in> dom (header_Set n v h)" "b \<in> dom (header_Set n v h)" "EqualFold a b"
    then show "a = b" using assms EqualFold_equiv(2) [of a b] unfolding d fold_unique_def by blast
  qed
qed

lemma fold_unique_setAll [intro]: "fold_unique h \<Longrightarrow> fold_unique (setAll kvs h)"
  unfolding setAll_def by (induction kvs arbitrary: h) (auto intro: fold_unique_Set)

lemma fold_unique_Stamp [intro]: "fold_unique h \<Longrightarrow> fold_unique (Stamp H s req h)"
  by (auto simp: Stamp_def split: option.split)

lemma EqualFold_length: "EqualFold a b \<Longrightarrow> length a = length b"
  unfolding EqualFold_def by (rule map_eq_imp_length_eq)

lemma fold_unique_defaults:
  "fold_unique [''Content-Type'' \<mapsto> c]" "fold_unique ([''Content-Type'' \<mapsto> c](queueObjectiveHeader \<mapsto> x))"
  by (auto simp: fold_unique_def dest: EqualFold_length)

lemma Stamp_value: "identity H s req = Some i \<Longrightarrow> Stamp H s req h (st_header s) = Some i"
  by (simp add: Stamp_def header_Set_def)

lemma header_Set_other: "\<not> EqualFold k n \<Longrightarrow> header_Set n v h k = h k"
  by (auto simp: header_Set_def EqualFold_equiv(1))

lemma addSource_pools: "dom (addSource ch ps) = dom ps"
  by (auto simp: addSource_def split: option.splits if_splits)

lemma addSource_other: "p \<noteq> poolOf ch \<Longrightarrow> addSource ch ps p = ps p"
  by (simp add: addSource_def split: option.split)

definition sources_ok :: "pools \<Rightarrow> bool" where
  "sources_ok ps \<longleftrightarrow> (\<forall>p chs. ps p = Some chs \<longrightarrow> distinct (map rc_Channel chs) \<and> (\<forall>ch \<in> set chs. poolOf ch = p))"

lemma addSource_ok: "sources_ok ps \<Longrightarrow> sources_ok (addSource ch ps)"
  by (auto simp: sources_ok_def addSource_def split: option.splits if_splits)

definition registered :: "pools \<Rightarrow> request_channel \<Rightarrow> bool" where
  "registered ps ch \<longleftrightarrow> (\<exists>chs. ps (poolOf ch) = Some chs \<and> rc_Channel ch \<in> rc_Channel ` set chs)"

lemma addSource_registers:
  "poolOf ch \<in> dom ps \<Longrightarrow> registered (addSource ch ps) ch" "registered ps c \<Longrightarrow> registered (addSource ch ps) c"
  by (auto simp: registered_def addSource_def split: option.split)

lemma fold_addSource:
  assumes "\<forall>ch \<in> set chs. poolOf ch \<in> dom ps" "sources_ok ps"
  shows "sources_ok (fold addSource chs ps) \<and> dom (fold addSource chs ps) = dom ps \<and>
    (\<forall>ch. ch \<in> set chs \<or> registered ps ch \<longrightarrow> registered (fold addSource chs ps) ch)"
  using assms
proof (induction chs arbitrary: ps)
  case (Cons c chs)
  then have "\<forall>ch \<in> set chs. poolOf ch \<in> dom (addSource c ps)" by (simp add: addSource_pools)
  from Cons.IH [OF this addSource_ok [OF Cons.prems(2)]] show ?case
    using addSource_registers(1) [of c ps] addSource_registers(2) [of ps _ c] Cons.prems(1) by (auto simp: addSource_pools)
qed simp

definition demo_channel :: "string \<Rightarrow> request_channel" where
  "demo_channel c = \<lparr> rc_Channel = c, rc_IGWBaseURL = ''http://gw'', rc_InferenceObjective = ''gold'',
     rc_RequestPathURL = ''/v1/completions'', rc_WorkerPoolID = '''' \<rparr>"

definition demo_ir :: "string \<Rightarrow> internal_request" where
  "demo_ir i = NewInternalRequest empty_routing (RequestMessage (empty_request_message \<lparr> rm_ID := i \<rparr>))"

lemma demo_ir_lane [simp]: "getPriorityIndex (demo_ir i) label = 5" "laneKey (demo_ir i) label = ''overflow-batch''"
  by (simp_all add: getPriorityIndex_def laneKey_def tierOf_def demo_ir_def NewInternalRequest_def empty_routing_def
      GetClassification_def)

section \<open>Properties\<close>

text \<open>
  C16: The tier-priority scheduler over time: in every run of pushes, pops, reader changes and closing,
  a pop never panics and returns whenever something is buffered; the message it returns is from the
  highest-priority lane that has one; the messages of one source and lane leave in the order they
  came and none is lost or doubled; and no lane holds more than its bound.
\<close>

theorem scheduler_strict_priority_fifo:
  assumes "sched_reach maxBuffered label s pushed popped"
  shows "scheduler_Pop s \<noteq> None
   \<and> (length popped < length pushed \<longleftrightarrow> (\<exists>mm s'. scheduler_Pop s = Some (Returns (mm, s'))))
   \<and> (\<forall>mm s' j k. scheduler_Pop s = Some (Returns (mm, s')) \<longrightarrow> j < lane_of label mm \<longrightarrow> qof (sc_buckets s ! j) k = [])
   \<and> (\<forall>l < 6. \<forall>k. from_lane label l k pushed = from_lane label l k popped @ qof (sc_buckets s ! l) k)
   \<and> (\<forall>l < 6. bk_size (sc_buckets s ! l) \<le> maxBuffered)"
proof -
  note inv = sched_reach_inv [OF assms]
  have all: "\<forall>b \<in> set (sc_buckets s). bucket_inv b" and six: "length (sc_buckets s) = 6"
    and total: "sc_totalBuffered s = (\<Sum>b\<leftarrow>sc_buckets s. bk_size b)" "length pushed = length popped + sc_totalBuffered s"
    and bound: "\<forall>b \<in> set (sc_buckets s). bk_size b \<le> maxBuffered"
    and fifo: "\<forall>l < 6. \<forall>k. from_lane label l k pushed = from_lane label l k popped @ qof (sc_buckets s ! l) k"
    using inv unfolding sched_inv_def by blast+
  have "popFirst (sc_buckets s) \<noteq> None" using popFirst_ok [OF all] by auto
  moreover have "popFirst (sc_buckets s) \<noteq> Some None" if "0 < sc_totalBuffered s"
  proof
    assume "popFirst (sc_buckets s) = Some None"
    then have "\<forall>b \<in> set (sc_buckets s). bk_size b = 0" using popFirst_ok [OF all] by auto
    then have "(\<Sum>b\<leftarrow>sc_buckets s. bk_size b) = 0" by simp
    then show False using that total(1) by linarith
  qed
  moreover have "qof (sc_buckets s ! j) k = []"
    if "scheduler_Pop s = Some (Returns (mm, s'))" "j < lane_of label mm" for mm s' j k
  proof -
    have "j < 6" using that(2) lane_lt_6 [of "mm_ir mm" label] by (simp add: lane_of_def)
    then show ?thesis
      using pop_inv [OF inv that(1)] that(2) all six size_zero_qof nth_mem by metis
  qed
  ultimately show ?thesis using total(2) fifo bound six
    by (auto simp: scheduler_Pop_def split: option.splits if_splits)
qed

theorem scheduler_strict_priority_fifo_witness:
  "\<exists>s. sched_reach 10 ''tier'' s [\<lparr> mm_ir = demo_ir ''1'', mm_chMeta = demo_channel ''a'' \<rparr>] [] \<and>
     (\<exists>mm s'. scheduler_Pop s = Some (Returns (mm, s')))"
proof -
  let ?mm = "\<lparr> mm_ir = demo_ir ''1'', mm_chMeta = demo_channel ''a'' \<rparr>"
  have "\<exists>s. sched_reach 10 ''tier'' s [?mm] []"
    using sched_reach.push [OF sched_reach.init [of 10 "''tier''" 1], of "demo_ir ''1''" "demo_channel ''a''"]
    by (simp add: scheduler_Push_def newScheduler_def newBucket_def Let_def) blast
  then obtain s where s: "sched_reach 10 ''tier'' s [?mm] []" by blast
  from scheduler_strict_priority_fifo [OF s] s show ?thesis by auto
qed

text \<open>
  C36: A full turn of a lane: popping as often as there are sources with messages returns exactly the
  oldest message of each of them, once each and in the order of the rotation, whatever the number of
  messages the sources have queued. So no source waits longer than one message of every other.
\<close>

theorem lane_full_turn:
  assumes "bucket_inv b"
  shows "\<exists>b'. bucket_pops (length (bk_keys b)) b = Some (map (\<lambda>k. hd (qof b k)) (turn_keys b), b') \<and>
     mset (turn_keys b) = mset (bk_keys b) \<and> (\<forall>k. qof b' k = tl (qof b k))"
proof -
  have m: "mset (turn_keys b) = mset (bk_keys b)"
    unfolding turn_keys_def by (metis append_take_drop_id mset_append union_commute)
  note keys = mset_eq_setD [OF m] mset_eq_length [OF m] m
  have q: "the (bk_queues b k) = qof b k" "qof b k \<noteq> []" if "k \<in> set (turn_keys b)" for k
    using assms that keys(1) by (auto simp: bucket_inv_def qof_def split: option.split) (metis rangeI)
  have t: "turn b = map (\<lambda>k. (k, qof b k)) (turn_keys b)" using q by (simp add: turn_def)
  obtain b' where b': "bucket_pops (length (turn b)) b = Some (map (\<lambda>(k, q). hd q) (turn b), b')" "bucket_inv b'"
      "turn b' = filter (\<lambda>(k, q). q \<noteq> []) (map (\<lambda>(k, q). (k, tl q)) (turn b))"
    using bucket_pops_turn [OF assms, of "turn b" "[]"] q t by auto
  have "turn b' = filter (\<lambda>(k, q). q \<noteq> []) (map (\<lambda>k. (k, tl (qof b k))) (turn_keys b))"
    using b'(3) unfolding t by (simp add: comp_def)
  then have "qof b' k = (if k \<in> set (turn_keys b) then tl (qof b k) else [])" for k
    using qof_turn [OF b'(2), of k] by (simp add: map_of_filter_graph)
  moreover have "qof b k = []" if "k \<notin> set (turn_keys b)" for k
    using assms that keys(1) by (auto simp: bucket_inv_def qof_def split: option.split)
  ultimately show ?thesis using b'(1) keys by (auto simp: t comp_def)
qed

theorem lane_full_turn_witness:
  "\<exists>b'. bucket_pops 2 (bucket_push ''b'' \<lparr> mm_ir = demo_ir ''2'', mm_chMeta = demo_channel ''b'' \<rparr>
      (bucket_push ''a'' \<lparr> mm_ir = demo_ir ''1'', mm_chMeta = demo_channel ''a'' \<rparr> newBucket)) =
    Some ([\<lparr> mm_ir = demo_ir ''1'', mm_chMeta = demo_channel ''a'' \<rparr>, \<lparr> mm_ir = demo_ir ''2'', mm_chMeta = demo_channel ''b'' \<rparr>], b')"
proof -
  let ?b = "bucket_push ''b'' \<lparr> mm_ir = demo_ir ''2'', mm_chMeta = demo_channel ''b'' \<rparr>
      (bucket_push ''a'' \<lparr> mm_ir = demo_ir ''1'', mm_chMeta = demo_channel ''a'' \<rparr> newBucket)"
  have "bucket_inv ?b" by (intro bucket_push_inv newBucket_inv)
  from lane_full_turn [OF this] obtain b' where
    b': "bucket_pops (length (bk_keys ?b)) ?b = Some (map (\<lambda>k. hd (qof ?b k)) (turn_keys ?b), b')" by blast
  have "length (bk_keys ?b) = 2" "turn_keys ?b = [''a'', ''b'']"
    by (simp_all add: bucket_push_def newBucket_def turn_keys_def Let_def)
  then show ?thesis using b' by simp
qed

text \<open>
  C37: The headers of a merged message, under both policies and for every set of caller headers: no two
  of its header names coincide up to case, and when the request carries a usable tenant identity the
  fairness header holds exactly that identity, whatever the caller sent under any spelling of it (under
  the tier policy, as long as the priority and objective headers have other names).
\<close>

theorem merged_headers_well_formed:
  "fold_unique (tierHeaders H p chMeta ir req callerHeaders) \<and> fold_unique (stampHeaders H st chMeta req callerHeaders) \<and>
   (\<forall>i. identity H st req = Some i \<longrightarrow> stampHeaders H st chMeta req callerHeaders (st_header st) = Some i) \<and>
   (\<forall>i. identity H (tp_fairness p) req = Some i \<longrightarrow>
      \<not> EqualFold (st_header (tp_fairness p)) (tp_priorityHeader p) \<longrightarrow>
      \<not> EqualFold (st_header (tp_fairness p)) (tp_objectiveHeader p) \<longrightarrow>
      tierHeaders H p chMeta ir req callerHeaders (st_header (tp_fairness p)) = Some i)"
proof (intro conjI allI impI)
  show "fold_unique (tierHeaders H p chMeta ir req callerHeaders)"
    unfolding tierHeaders_def Let_def
    by (auto split: option.split intro!: fold_unique_Stamp fold_unique_setAll fold_unique_Set fold_unique_defaults)
  have "fold_unique Map.empty" by (simp add: fold_unique_def)
  then show "fold_unique (stampHeaders H st chMeta req callerHeaders)"
    unfolding stampHeaders_def Let_def
    by (auto intro!: fold_unique_Stamp fold_unique_setAll fold_unique_Set)
  show "stampHeaders H st chMeta req callerHeaders (st_header st) = Some i" if "identity H st req = Some i" for i
    unfolding stampHeaders_def Let_def by (rule Stamp_value [OF that])
  show "tierHeaders H p chMeta ir req callerHeaders (st_header (tp_fairness p)) = Some i"
    if "identity H (tp_fairness p) req = Some i" "\<not> EqualFold (st_header (tp_fairness p)) (tp_priorityHeader p)"
      "\<not> EqualFold (st_header (tp_fairness p)) (tp_objectiveHeader p)" for i
    unfolding tierHeaders_def Let_def
    by (cases "tp_laneObjectives p (laneKey ir (tp_tierLabel p))") (simp_all add: header_Set_other that Stamp_value)
qed

theorem merged_headers_well_formed_witness:
  "stampHeaders \<lparr> ValidHeaderFieldName = \<lambda>_. True, ValidHeaderFieldValue = \<lambda>_. True \<rparr> (NewStamper FairnessIDHeader '''')
     (demo_channel ''a'') (RequestMessage (empty_request_message \<lparr> rm_Metadata := [''userid'' \<mapsto> ''u''] \<rparr>))
     [(''X-LLM-D-Inference-Fairness-ID'', ''forged'')] FairnessIDHeader = Some ''u''"
proof -
  let ?H = "\<lparr> ValidHeaderFieldName = \<lambda>_. True, ValidHeaderFieldValue = \<lambda>_. True \<rparr>"
  let ?req = "RequestMessage (empty_request_message \<lparr> rm_Metadata := [''userid'' \<mapsto> ''u''] \<rparr>)"
  have "identity ?H (NewStamper FairnessIDHeader '''') ?req = Some ''u''" "st_header (NewStamper FairnessIDHeader '''') = FairnessIDHeader"
    by (simp_all add: identity_def NewStamper_def ReqMetadata_def)
  then show ?thesis
    using merged_headers_well_formed [of ?H "NewTierPriorityPolicy '''' '''' '''' Map.empty '''' ''''" "demo_channel ''a''" "demo_ir ''1''" ?req
        "[(''X-LLM-D-Inference-Fairness-ID'', ''forged'')]" "NewStamper FairnessIDHeader ''''"] by simp
qed

text \<open>
  C38: A lane objective does not replace the objective of the queue: with the default configuration the
  two are stamped under different header names, so a message of a queue with an objective in a lane
  with an objective carries both.
\<close>

theorem lane_objective_does_not_override_queue_objective:
  assumes "rc_InferenceObjective chMeta \<noteq> ''''" "laneObjectives (laneKey ir ''tier'') = Some objective" "objective \<noteq> ''''"
  shows "let h = tierHeaders H (NewTierPriorityPolicy '''' '''' '''' laneObjectives '''' '''') chMeta ir req []
         in h queueObjectiveHeader = Some (rc_InferenceObjective chMeta) \<and> h ObjectiveHeader = Some objective"
  using assms EqualFold_length [of queueObjectiveHeader ObjectiveHeader]
  by (auto simp: tierHeaders_def NewTierPriorityPolicy_def NewStamper_def Stamp_def identity_def setAll_def header_Set_def Let_def)

theorem lane_objective_does_not_override_queue_objective_witness:
  "let h = tierHeaders \<lparr> ValidHeaderFieldName = \<lambda>_. True, ValidHeaderFieldValue = \<lambda>_. True \<rparr>
       (NewTierPriorityPolicy '''' '''' '''' [''overflow-batch'' \<mapsto> ''bulk''] '''' '''') (demo_channel ''a'') (demo_ir ''1'')
       (RequestMessage empty_request_message) []
   in h queueObjectiveHeader = Some ''gold'' \<and> h ObjectiveHeader = Some ''bulk''"
  using lane_objective_does_not_override_queue_objective [of "demo_channel ''a''" "[''overflow-batch'' \<mapsto> ''bulk'']" "demo_ir ''1''"
      "''bulk''" "\<lparr> ValidHeaderFieldName = \<lambda>_. True, ValidHeaderFieldValue = \<lambda>_. True \<rparr>" "RequestMessage empty_request_message"]
  by (simp add: demo_channel_def)

text \<open>
  C39: Adding channels is all or nothing: if one of them names a pool that does not exist nothing
  changes, and otherwise every one of them is registered with its pool, no source is lost or listed
  twice, and the set of pools stays the same.
\<close>

theorem add_channels_all_or_nothing:
  assumes "sources_ok ps" "addChannels channels ps = (res, ps')"
  shows "(\<forall>e. res = Inl e \<longrightarrow> ps' = ps \<and> (\<exists>ch \<in> set channels. ps (poolOf ch) = None)) \<and>
    (res = Inr () \<longrightarrow> sources_ok ps' \<and> dom ps' = dom ps \<and> (\<forall>ch \<in> set channels. registered ps' ch) \<and>
       (\<forall>ch. registered ps ch \<longrightarrow> registered ps' ch))"
  using assms fold_addSource [of channels ps]
  by (auto simp: addChannels_def find_Some_iff find_None_iff domIff split: option.splits)

theorem add_channels_all_or_nothing_witness:
  "addChannels [demo_channel ''a'', demo_channel ''b'', demo_channel ''a''] [''default'' \<mapsto> []] =
     (Inr (), [''default'' \<mapsto> [demo_channel ''a'', demo_channel ''b'']]) \<and>
   sources_ok [''default'' \<mapsto> [demo_channel ''a'', demo_channel ''b'']]"
proof -
  have run: "addChannels [demo_channel ''a'', demo_channel ''b'', demo_channel ''a''] [''default'' \<mapsto> []] =
     (Inr (), [''default'' \<mapsto> [demo_channel ''a'', demo_channel ''b'']])"
    by (simp add: addChannels_def addSource_def poolOf_def demo_channel_def)
  have "sources_ok [''default'' \<mapsto> []]" by (simp add: sources_ok_def)
  from add_channels_all_or_nothing [OF this run] run show ?thesis by simp
qed

text \<open>
  C40: Normalizing a base URL removes the slashes at its end and nothing else, and panics exactly on a
  non-empty string of slashes.
\<close>

theorem normalize_base_url:
  "(NormalizeBaseURL s = None \<longleftrightarrow> s \<noteq> '''' \<and> set s = {CHR ''/''}) \<and>
   (\<forall>u. NormalizeBaseURL s = Some u \<longrightarrow> (\<exists>n. s = u @ replicate n CHR ''/'') \<and> (u = '''' \<longrightarrow> s = '''') \<and>
      (u \<noteq> '''' \<longrightarrow> last u \<noteq> CHR ''/''))"
proof -
  have none: "stripSlashes t = None \<longleftrightarrow> set t \<subseteq> {CHR ''/''}" for t by (induction t) auto
  have some: "stripSlashes t = Some u \<Longrightarrow> (\<exists>n. t = replicate n CHR ''/'' @ u) \<and> u \<noteq> [] \<and> hd u \<noteq> CHR ''/''" for t u
  proof (induction t)
    case (Cons c t)
    then show ?case by (auto split: if_splits simp: append_eq_Cons_conv intro: exI [of _ 0])
        (metis append_Cons replicate_Suc)
  qed simp
  have stripped: "(\<exists>n. s = u @ replicate n CHR ''/'') \<and> u \<noteq> '''' \<and> last u \<noteq> CHR ''/''"
    if m: "map_option rev (stripSlashes (rev s)) = Some u" for u
  proof -
    obtain v where v: "stripSlashes (rev s) = Some v" "u = rev v" using m by auto
    obtain n where n: "rev s = replicate n CHR ''/'' @ v" "v \<noteq> []" "hd v \<noteq> CHR ''/''" using some [OF v(1)] by blast
    have "s = rev v @ replicate n CHR ''/''" using arg_cong [OF n(1), of rev] by simp
    then show ?thesis using v(2) n(2,3) by (auto simp: last_rev)
  qed
  show ?thesis
  proof (cases "s = ''''")
    case True
    then show ?thesis by (simp add: NormalizeBaseURL_def)
  next
    case False
    then have "set s \<subseteq> {CHR ''/''} \<longleftrightarrow> set s = {CHR ''/''}" by (cases s) auto
    then show ?thesis using False none [of "rev s"] stripped by (simp add: NormalizeBaseURL_def del: map_option_eq_Some)
  qed
qed

theorem normalize_base_url_witness: "NormalizeBaseURL ''/'' = None \<and> NormalizeBaseURL ''a//'' = Some ''a''"
  using normalize_base_url [of "''/''"] by (simp add: NormalizeBaseURL_def)

end
