(* ===== verification/Sql_Store.thy ===== *)
theory Sql_Store
  imports Prelude "HOL-Library.Product_Lexorder"
begin

unbundle bit_operations_syntax

text \<open>
  The Postgres queue of \<open>src/producer-sql/sqlqueue/store.go\<close> with the tables and the SQL functions of
  \<open>src/producer-sql/sqlqueue/migrate/migrations/0001_initial_schema.sql\<close>.

  A table is the list of its rows; the primary keys are an invariant that the statements keep. One
  statement (one transaction where the source opens one) is one definition on the tables. The record
  \<open>sql_env\<close> is what a statement cannot choose: whether the call fails, before or after the commit,
  which rows another transaction holds and \<open>SKIP LOCKED\<close> passes over, and the version of
  \<open>async_partitions\<close> in the snapshot of the statement, which may be older than the committed one
  because the statements on requests read that table without a lock on it. Rows of equal sort key are
  picked in table order, and sequence numbers are drawn in the order the rows are picked. Sequences
  and epochs are unbounded, where Postgres fails at the end of \<open>BIGINT\<close>.
\<close>

section \<open>Tables\<close>

record Key =
  key_ID :: string
  key_Token :: string

record Stamp =
  st_Key :: Key
  st_Attempt :: int

record Request =
  rq_ID :: string
  rq_Token :: string
  rq_Queue :: string
  rq_Partition :: int
  rq_Epoch :: int
  rq_Attempt :: int
  rq_Deadline :: int
  rq_Envelope :: string
  rq_Payload :: string
  rq_Cancelled :: bool
  rq_createdAt :: int

definition Request_Key :: "Request \<Rightarrow> Key" where
  "Request_Key r = \<lparr> key_ID = rq_ID r, key_Token = rq_Token r \<rparr>"

definition Request_Stamp :: "Request \<Rightarrow> Stamp" where
  "Request_Stamp r = \<lparr> st_Key = Request_Key r, st_Attempt = rq_Attempt r \<rparr>"

record req_row =
  r_id :: string
  r_token :: string
  r_queue :: string
  r_partition :: int
  r_deadline :: int
  r_not_before :: int
  r_epoch :: int
  r_attempt :: int
  r_cancelled :: bool
  r_envelope :: string
  r_payload :: string
  r_created_at :: int

record part_row =
  p_queue :: string
  p_partition :: int
  p_owner :: string
  p_epoch :: int
  p_draining :: bool
  p_expires_ms :: int

record disp_row =
  d_queue :: string
  d_owner :: string
  d_expires_ms :: int

record res_row =
  s_seq :: int
  s_route :: string
  s_id :: string
  s_token :: string
  s_payload :: string
  s_expires_at :: int
  s_created_at :: int

record sql_db =
  requests :: "req_row list"
  results :: "res_row list"
  partitions :: "part_row list"
  dispatchers :: "disp_row list"
  attempts_seq :: int
  results_seq :: int

definition emptyDb :: sql_db where
  "emptyDb = \<lparr> requests = [], results = [], partitions = [], dispatchers = [], attempts_seq = 0, results_seq = 0 \<rparr>"

definition r_key :: "req_row \<Rightarrow> Key" where
  "r_key r = \<lparr> key_ID = r_id r, key_Token = r_token r \<rparr>"

definition s_key :: "res_row \<Rightarrow> Key" where
  "s_key r = \<lparr> key_ID = s_id r, key_Token = s_token r \<rparr>"

definition p_key :: "part_row \<Rightarrow> string \<times> int" where
  "p_key p = (p_queue p, p_partition p)"

section \<open>Calls to the database\<close>

datatype sql_error = DatabaseError | UniqueViolation | NegativeLimit | ManyRows

text \<open>A call that fails has not run, or has run and its answer did not arrive.\<close>

datatype db_fault = NoFault | NotRun | AnswerLost

record sql_env =
  e_fault :: db_fault
  e_locked :: "Key \<Rightarrow> bool"
  e_plocked :: "int \<Rightarrow> bool"
  e_view :: "part_row list option"

definition quietEnv :: sql_env where
  "quietEnv = \<lparr> e_fault = NoFault, e_locked = (\<lambda>_. False), e_plocked = (\<lambda>_. False), e_view = None \<rparr>"

definition view :: "sql_env \<Rightarrow> sql_db \<Rightarrow> part_row list" where
  "view e db = (case e_view e of None \<Rightarrow> partitions db | Some ps \<Rightarrow> ps)"

definition exec :: "sql_env \<Rightarrow> (sql_error + 'a) \<times> sql_db \<Rightarrow> sql_db \<Rightarrow> (sql_error + 'a) \<times> sql_db" where
  "exec e answer db = (case e_fault e of NoFault \<Rightarrow> answer
     | NotRun \<Rightarrow> (Inl DatabaseError, db) | AnswerLost \<Rightarrow> (Inl DatabaseError, snd answer))"

text \<open>The partition row a request row joins with.\<close>

definition partOf :: "part_row list \<Rightarrow> req_row \<Rightarrow> part_row option" where
  "partOf ps r = find (\<lambda>p. p_queue p = r_queue r \<and> p_partition p = r_partition r) ps"

definition ownedBy :: "string \<Rightarrow> part_row list \<Rightarrow> req_row \<Rightarrow> bool" where
  "ownedBy owner ps r = (case partOf ps r of None \<Rightarrow> False | Some p \<Rightarrow> p_owner p = owner)"

section \<open>Requests\<close>

abbreviation (input) Partitions :: nat where "Partitions \<equiv> 64"
abbreviation (input) enqueueChunk :: nat where "enqueueChunk \<equiv> 1000"

text \<open>\<open>hash/fnv\<close>'s 32-bit FNV-1a.\<close>

definition fnv32a :: "string \<Rightarrow> 32 word" where
  "fnv32a s = fold (\<lambda>c h. (h XOR of_nat (of_char c)) * 16777619) s 2166136261"

definition partitionOf :: "string \<Rightarrow> int" where
  "partitionOf i = int (unat (fnv32a i) mod Partitions)"

definition newRow :: "int \<Rightarrow> Request \<Rightarrow> req_row" where
  "newRow created r = \<lparr> r_id = rq_ID r, r_token = rq_Token r, r_queue = rq_Queue r, r_partition = partitionOf (rq_ID r),
     r_deadline = rq_Deadline r, r_not_before = 0, r_epoch = 0, r_attempt = 0, r_cancelled = False,
     r_envelope = rq_Envelope r, r_payload = rq_Payload r, r_created_at = created \<rparr>"

definition insertRows :: "req_row list \<Rightarrow> req_row list \<Rightarrow> req_row list option" where
  "insertRows new rows = (if distinct (map r_key (rows @ new)) then Some (rows @ new) else None)"

definition chunkRows :: "int \<Rightarrow> nat \<Rightarrow> Request list \<Rightarrow> req_row list" where
  "chunkRows createdAt start chunk = map (\<lambda>(i, r). newRow (createdAt + int (start + i)) r) (enumerate 0 chunk)"

function enqueueLoop :: "int \<Rightarrow> Request list \<Rightarrow> nat \<Rightarrow> req_row list \<Rightarrow> req_row list option" where
  "enqueueLoop createdAt reqs start rows =
     (if start < length reqs then
        (case insertRows (chunkRows createdAt start (take enqueueChunk (drop start reqs))) rows of
           None \<Rightarrow> None
         | Some rows' \<Rightarrow> enqueueLoop createdAt reqs (start + enqueueChunk) rows')
      else Some rows)"
  by pat_completeness auto
termination
  by (relation "measure (\<lambda>(_, reqs, start, _). length reqs - start)") auto

declare enqueueLoop.simps [simp del]

definition enqueueTx :: "int \<Rightarrow> Request list \<Rightarrow> sql_db \<Rightarrow> (sql_error + unit) \<times> sql_db" where
  "enqueueTx createdAt reqs db = (case enqueueLoop createdAt reqs 0 (requests db) of
     None \<Rightarrow> (Inl UniqueViolation, db)
   | Some rows \<Rightarrow> (Inr (), db \<lparr> requests := rows \<rparr>))"

definition Store_Enqueue :: "sql_env \<Rightarrow> int \<Rightarrow> Request list \<Rightarrow> sql_db \<Rightarrow> (sql_error + unit) \<times> sql_db" where
  "Store_Enqueue e createdAt reqs db =
     (if reqs = [] then (Inr (), db) else exec e (enqueueTx createdAt reqs db) db)"

text \<open>
  \<open>async_dispatch\<close>: the rows it may pick, the pick, and the stamps. The subquery of the pick and the join
  of the update name the same partition row, since queue and partition are the key of that table.
\<close>

definition pending :: "req_row \<Rightarrow> bool" where
  "pending r = (r_epoch r = 0)"

definition dispatchable :: "sql_env \<Rightarrow> string \<Rightarrow> string \<Rightarrow> int \<Rightarrow> sql_db \<Rightarrow> req_row \<Rightarrow> bool" where
  "dispatchable e queue owner now db r =
     (r_queue r = queue \<and> pending r \<and> r_not_before r \<le> now
      \<and> (case partOf (view e db) r of None \<Rightarrow> False | Some p \<Rightarrow> p_owner p = owner \<and> \<not> p_draining p)
      \<and> \<not> e_locked e (r_key r))"

definition edf :: "req_row \<Rightarrow> int \<times> int" where
  "edf r = (r_deadline r, r_created_at r)"

definition picked :: "sql_env \<Rightarrow> string \<Rightarrow> string \<Rightarrow> int \<Rightarrow> nat \<Rightarrow> sql_db \<Rightarrow> req_row list" where
  "picked e queue owner now limit db =
     take limit (sort_key edf (filter (dispatchable e queue owner now db) (requests db)))"

definition stampRow :: "sql_env \<Rightarrow> sql_db \<Rightarrow> nat \<Rightarrow> req_row \<Rightarrow> req_row" where
  "stampRow e db i r = (case partOf (view e db) r of
     None \<Rightarrow> r
   | Some p \<Rightarrow> r \<lparr> r_epoch := p_epoch p, r_attempt := attempts_seq db + 1 + int i \<rparr>)"

definition stamped :: "sql_env \<Rightarrow> string \<Rightarrow> string \<Rightarrow> int \<Rightarrow> nat \<Rightarrow> sql_db \<Rightarrow> req_row list" where
  "stamped e queue owner now limit db =
     map (\<lambda>(i, r). stampRow e db i r) (enumerate 0 (picked e queue owner now limit db))"

definition replaceRows :: "req_row list \<Rightarrow> req_row list \<Rightarrow> req_row list" where
  "replaceRows new rows = map (\<lambda>r. case find (\<lambda>n. r_key n = r_key r) new of None \<Rightarrow> r | Some n \<Rightarrow> n) rows"

definition async_dispatch :: "sql_env \<Rightarrow> string \<Rightarrow> string \<Rightarrow> int \<Rightarrow> nat \<Rightarrow> sql_db \<Rightarrow> req_row list \<times> sql_db" where
  "async_dispatch e owner queue now limit db =
     (let new = stamped e queue owner now limit db
      in (new, db \<lparr> requests := replaceRows new (requests db), attempts_seq := attempts_seq db + int (length new) \<rparr>))"

definition scanRow :: "req_row \<Rightarrow> Request" where
  "scanRow r = \<lparr> rq_ID = r_id r, rq_Token = r_token r, rq_Queue = r_queue r, rq_Partition = r_partition r,
     rq_Epoch = r_epoch r, rq_Attempt = r_attempt r, rq_Deadline = r_deadline r, rq_Envelope = r_envelope r,
     rq_Payload = r_payload r, rq_Cancelled = r_cancelled r, rq_createdAt = r_created_at r \<rparr>"

definition Store_Dispatch :: "sql_env \<Rightarrow> string \<Rightarrow> string \<Rightarrow> int \<Rightarrow> int \<Rightarrow> sql_db
    \<Rightarrow> (sql_error + Request list) \<times> sql_db" where
  "Store_Dispatch e queue owner now limit db =
     (if limit < 0 then (Inl NegativeLimit, db)
      else exec e (case async_dispatch e owner queue (now div 1000000000) (nat limit) db of
             (rows, db') \<Rightarrow> (Inr (sort_key (\<lambda>r. (rq_Deadline r, rq_createdAt r)) (map scanRow rows)), db')) db)"

definition Store_InFlight :: "sql_env \<Rightarrow> string \<Rightarrow> string \<Rightarrow> sql_db \<Rightarrow> sql_error + Stamp list" where
  "Store_InFlight e queue owner db =
     (if e_fault e \<noteq> NoFault then Inl DatabaseError
      else Inr (map (\<lambda>r. \<lparr> st_Key = r_key r, st_Attempt = r_attempt r \<rparr>)
        (filter (\<lambda>r. r_queue r = queue \<and> r_epoch r > 0
           \<and> (case partOf (view e db) r of None \<Rightarrow> False | Some p \<Rightarrow> p_owner p = owner \<and> r_epoch r = p_epoch p))
           (requests db))))"

text \<open>\<open>None\<close> for the partitions stands for \<open>nil\<close>, all of them.\<close>

definition stale :: "sql_env \<Rightarrow> string \<Rightarrow> string \<Rightarrow> int list option \<Rightarrow> sql_db \<Rightarrow> req_row \<Rightarrow> bool" where
  "stale e queue owner only db r =
     (r_queue r = queue \<and> r_epoch r > 0
      \<and> (case partOf (view e db) r of None \<Rightarrow> False | Some p \<Rightarrow> p_owner p = owner \<and> r_epoch r < p_epoch p)
      \<and> (case only of None \<Rightarrow> True | Some ps \<Rightarrow> r_partition r \<in> set ps)
      \<and> \<not> e_locked e (r_key r))"

definition resetRows :: "sql_env \<Rightarrow> string \<Rightarrow> string \<Rightarrow> int list option \<Rightarrow> sql_db \<Rightarrow> sql_db" where
  "resetRows e queue owner only db = db \<lparr> requests :=
     map (\<lambda>r. if stale e queue owner only db r then r \<lparr> r_epoch := 0 \<rparr> else r) (requests db) \<rparr>"

definition Store_ResetStale :: "sql_env \<Rightarrow> string \<Rightarrow> string \<Rightarrow> int list option \<Rightarrow> sql_db \<Rightarrow> (sql_error + unit) \<times> sql_db" where
  "Store_ResetStale e queue owner only db =
     (if only = Some [] then (Inr (), db) else exec e (Inr (), resetRows e queue owner only db) db)"

fun uniqueStamps :: "Stamp set \<Rightarrow> Stamp list \<Rightarrow> Stamp list" where
  "uniqueStamps seen [] = []"
| "uniqueStamps seen (st # sts) =
     (if st \<in> seen then uniqueStamps seen sts else st # uniqueStamps (insert st seen) sts)"

text \<open>The fence of the outcome statements: the row still carries the stamp, in a partition of the owner.\<close>

definition carries :: "sql_env \<Rightarrow> string \<Rightarrow> sql_db \<Rightarrow> Stamp \<Rightarrow> req_row \<Rightarrow> bool" where
  "carries e owner db st r =
     (r_key r = st_Key st \<and> r_epoch r > 0 \<and> r_attempt r = st_Attempt st \<and> ownedBy owner (view e db) r)"

definition undispatchRows :: "sql_env \<Rightarrow> string \<Rightarrow> Stamp list \<Rightarrow> int \<Rightarrow> sql_db \<Rightarrow> sql_db" where
  "undispatchRows e owner sts notBefore db = db \<lparr> requests :=
     map (\<lambda>r. if \<exists>st\<in>set sts. carries e owner db st r
              then r \<lparr> r_epoch := 0, r_not_before := max (r_not_before r) notBefore \<rparr> else r) (requests db) \<rparr>"

definition undispatch :: "sql_env \<Rightarrow> string \<Rightarrow> Stamp list \<Rightarrow> int \<Rightarrow> sql_db \<Rightarrow> (sql_error + unit) \<times> sql_db" where
  "undispatch e owner stamps notBefore db =
     (let sts = uniqueStamps {} stamps
      in if sts = [] then (Inr (), db) else exec e (Inr (), undispatchRows e owner sts notBefore db) db)"

definition Store_Undispatch :: "sql_env \<Rightarrow> string \<Rightarrow> Stamp list \<Rightarrow> sql_db \<Rightarrow> (sql_error + unit) \<times> sql_db" where
  "Store_Undispatch e owner stamps db = undispatch e owner stamps 0 db"

definition Store_Defer :: "sql_env \<Rightarrow> string \<Rightarrow> Stamp list \<Rightarrow> int \<Rightarrow> sql_db \<Rightarrow> (sql_error + unit) \<times> sql_db" where
  "Store_Defer e owner stamps notBefore db = undispatch e owner stamps notBefore db"

definition oneRow :: "nat \<Rightarrow> sql_error + bool" where
  "oneRow n = (if n > 1 then Inl ManyRows else Inr (n = 1))"

definition retryRows :: "sql_env \<Rightarrow> string \<Rightarrow> Stamp \<Rightarrow> int \<Rightarrow> string \<Rightarrow> sql_db \<Rightarrow> sql_db" where
  "retryRows e owner st notBefore envelope db = db \<lparr> requests :=
     map (\<lambda>r. if carries e owner db st r
              then r \<lparr> r_epoch := 0, r_not_before := notBefore, r_envelope := envelope \<rparr> else r) (requests db) \<rparr>"

definition Store_Retry :: "sql_env \<Rightarrow> string \<Rightarrow> Stamp \<Rightarrow> int \<Rightarrow> string \<Rightarrow> sql_db \<Rightarrow> (sql_error + bool) \<times> sql_db" where
  "Store_Retry e owner st notBefore envelope db =
     exec e (oneRow (length (filter (carries e owner db st) (requests db))), retryRows e owner st notBefore envelope db) db"

definition cancelRows :: "string list \<Rightarrow> sql_db \<Rightarrow> sql_db" where
  "cancelRows live db = db \<lparr> requests :=
     map (\<lambda>r. if r_id r \<in> set live then r \<lparr> r_cancelled := True \<rparr> else r) (requests db) \<rparr>"

definition Store_Cancel :: "sql_env \<Rightarrow> string list \<Rightarrow> sql_db \<Rightarrow> (sql_error + unit) \<times> sql_db" where
  "Store_Cancel e ids db =
     (let live = filter (\<lambda>i. i \<noteq> []) ids
      in if live = [] then (Inr (), db) else exec e (Inr (), cancelRows live db) db)"

text \<open>The set of the keys mapped to true.\<close>

definition Store_CancelledKeys :: "sql_env \<Rightarrow> Key list \<Rightarrow> sql_db \<Rightarrow> sql_error + Key set" where
  "Store_CancelledKeys e ks db =
     (if ks = [] then Inr {}
      else if e_fault e \<noteq> NoFault then Inl DatabaseError
      else Inr (set (filter (\<lambda>k. k \<in> set ks) (map r_key (filter r_cancelled (requests db))))))"

section \<open>Results\<close>

record Completion =
  c_Key :: Key
  c_Attempt :: int
  c_Route :: string
  c_Payload :: string
  c_ExpiresAt :: int

text \<open>
  The first position of a key in the batch and, for a key that comes again, the completion of the
  highest attempt with its position; \<open>first\<close> and \<open>position\<close> of the source are the indices here.
\<close>

definition addCompletion :: "nat \<times> Completion \<Rightarrow> (nat \<times> Completion) list \<Rightarrow> (nat \<times> Completion) list" where
  "addCompletion ic us =
     (if \<exists>u\<in>set us. c_Key (snd u) = c_Key (snd ic)
      then map (\<lambda>u. if c_Key (snd u) = c_Key (snd ic) \<and> c_Attempt (snd ic) > c_Attempt (snd u) then ic else u) us
      else us @ [ic])"

definition uniqueCompletions :: "Completion list \<Rightarrow> (nat \<times> Completion) list" where
  "uniqueCompletions cs = fold addCompletion (enumerate 0 cs) []"

definition acks :: "sql_env \<Rightarrow> string \<Rightarrow> sql_db \<Rightarrow> Completion \<Rightarrow> req_row \<Rightarrow> bool" where
  "acks e owner db c r =
     (r_key r = c_Key c \<and> r_epoch r > 0 \<and> r_attempt r = c_Attempt c
      \<and> (case partOf (view e db) r of None \<Rightarrow> False | Some p \<Rightarrow> p_owner p = owner \<and> p_epoch p = r_epoch r))"

definition newResult :: "int \<Rightarrow> int \<Rightarrow> Completion \<Rightarrow> res_row" where
  "newResult createdAt seq c = \<lparr> s_seq = seq, s_route = c_Route c, s_id = key_ID (c_Key c), s_token = key_Token (c_Key c),
     s_payload = c_Payload c, s_expires_at = c_ExpiresAt c, s_created_at = createdAt \<rparr>"

definition ackStmt :: "sql_env \<Rightarrow> string \<Rightarrow> int \<Rightarrow> (nat \<times> Completion) list \<Rightarrow> sql_db \<Rightarrow> (nat \<times> Completion) list \<times> sql_db" where
  "ackStmt e owner createdAt us db =
     (let done = filter (\<lambda>u. \<exists>r\<in>set (requests db). acks e owner db (snd u) r) us
      in (done, db \<lparr> requests := filter (\<lambda>r. \<not> (\<exists>u\<in>set us. acks e owner db (snd u) r)) (requests db),
                     results := results db @ map (\<lambda>(i, u). newResult createdAt (results_seq db + 1 + int i) (snd u)) (enumerate 0 done),
                     results_seq := results_seq db + int (length done) \<rparr>))"

definition Store_Ack :: "sql_env \<Rightarrow> string \<Rightarrow> int \<Rightarrow> Completion list \<Rightarrow> sql_db \<Rightarrow> (sql_error + bool list) \<times> sql_db" where
  "Store_Ack e owner createdAt completions db =
     (if completions = [] then (Inr [], db)
      else exec e (case ackStmt e owner createdAt (uniqueCompletions completions) db of
             (done, db') \<Rightarrow> (Inr (map (\<lambda>i. i \<in> fst ` set done) [0..<length completions]), db')) db)"

record Result =
  rs_Seq :: int
  rs_Route :: string
  rs_ID :: string
  rs_Token :: string
  rs_Payload :: string

definition scanResult :: "res_row \<Rightarrow> Result" where
  "scanResult r = \<lparr> rs_Seq = s_seq r, rs_Route = s_route r, rs_ID = s_id r, rs_Token = s_token r, rs_Payload = s_payload r \<rparr>"

definition expired :: "int \<Rightarrow> res_row \<Rightarrow> bool" where
  "expired now r = (s_expires_at r > 0 \<and> s_expires_at r < now)"

definition expireRoute :: "string \<Rightarrow> int \<Rightarrow> sql_db \<Rightarrow> sql_db" where
  "expireRoute route now db = db \<lparr> results := filter (\<lambda>r. \<not> (s_route r = route \<and> expired now r)) (results db) \<rparr>"

text \<open>\<open>rlocked\<close> are the result rows that another transaction holds.\<close>

definition async_pop_results :: "(int \<Rightarrow> bool) \<Rightarrow> string \<Rightarrow> nat \<Rightarrow> sql_db \<Rightarrow> res_row list \<times> sql_db" where
  "async_pop_results rlocked route limit db =
     (let out = take limit (sort_key s_seq (filter (\<lambda>r. s_route r = route \<and> \<not> rlocked (s_seq r)) (results db)))
      in (out, db \<lparr> results := filter (\<lambda>r. \<not> (s_route r = route \<and> s_seq r \<in> s_seq ` set out)) (results db) \<rparr>))"

definition Store_PopResults :: "sql_env \<Rightarrow> sql_env \<Rightarrow> (int \<Rightarrow> bool) \<Rightarrow> string \<Rightarrow> int \<Rightarrow> int \<Rightarrow> sql_db
    \<Rightarrow> (sql_error + Result list) \<times> sql_db" where
  "Store_PopResults e e' rlocked route now limit db =
     (case exec e (Inr (), expireRoute route now db) db of
        (Inl er, db1) \<Rightarrow> (Inl er, db1)
      | (Inr _, db1) \<Rightarrow>
          if limit < 0 then (Inl NegativeLimit, db1)
          else exec e' (case async_pop_results rlocked route (nat limit) db1 of
             (rows, db2) \<Rightarrow> (Inr (sort_key rs_Seq (map scanResult rows)), db2)) db1)"

definition expireRows :: "(int \<Rightarrow> bool) \<Rightarrow> int \<Rightarrow> nat \<Rightarrow> sql_db \<Rightarrow> res_row list \<times> sql_db" where
  "expireRows rlocked now limit db =
     (let gone = take limit (sort_key s_expires_at (filter (\<lambda>r. expired now r \<and> \<not> rlocked (s_seq r)) (results db)))
      in (gone, db \<lparr> results := filter (\<lambda>r. s_seq r \<notin> s_seq ` set gone) (results db) \<rparr>))"

definition Store_ExpireResults :: "sql_env \<Rightarrow> (int \<Rightarrow> bool) \<Rightarrow> int \<Rightarrow> int \<Rightarrow> sql_db \<Rightarrow> (sql_error + int) \<times> sql_db" where
  "Store_ExpireResults e rlocked now limit db =
     (if limit < 0 then (Inl NegativeLimit, db)
      else exec e (case expireRows rlocked now (nat limit) db of (gone, db') \<Rightarrow> (Inr (int (length gone)), db')) db)"

definition Store_HasRequests :: "sql_env \<Rightarrow> string \<Rightarrow> sql_db \<Rightarrow> sql_error + bool" where
  "Store_HasRequests e queue db = (if e_fault e \<noteq> NoFault then Inl DatabaseError
     else Inr (\<exists>r\<in>set (requests db). r_queue r = queue \<and> pending r))"

definition Store_Backlog :: "sql_env \<Rightarrow> string \<Rightarrow> int \<Rightarrow> int list \<Rightarrow> sql_db \<Rightarrow> sql_error + int \<times> int list" where
  "Store_Backlog e queue now windows db =
     (if e_fault e \<noteq> NoFault then Inl DatabaseError
      else let rows = filter (\<lambda>r. r_queue r = queue \<and> pending r) (requests db)
           in Inr (int (length rows), map (\<lambda>w. int (length (filter (\<lambda>r. r_deadline r \<le> now + w) rows))) windows))"

definition Store_ResultDepth :: "sql_env \<Rightarrow> string \<Rightarrow> sql_db \<Rightarrow> sql_error + int" where
  "Store_ResultDepth e route db = (if e_fault e \<noteq> NoFault then Inl DatabaseError
     else Inr (int (length (filter (\<lambda>r. s_route r = route) (results db)))))"

section \<open>Partitions\<close>

record Lease =
  l_Partition :: int
  l_Epoch :: int
  l_Draining :: bool

definition newPart :: "string \<Rightarrow> nat \<Rightarrow> part_row" where
  "newPart queue i = \<lparr> p_queue = queue, p_partition = int i, p_owner = [], p_epoch = 0, p_draining = False, p_expires_ms = 0 \<rparr>"

definition ensureRows :: "string \<Rightarrow> sql_db \<Rightarrow> sql_db" where
  "ensureRows queue db = db \<lparr> partitions := partitions db
     @ filter (\<lambda>p. p_key p \<notin> p_key ` set (partitions db)) (map (newPart queue) [0..<Partitions]) \<rparr>"

definition Store_EnsurePartitions :: "sql_env \<Rightarrow> string \<Rightarrow> sql_db \<Rightarrow> (sql_error + unit) \<times> sql_db" where
  "Store_EnsurePartitions e queue db = exec e (Inr (), ensureRows queue db) db"

definition leaseRow :: "part_row \<Rightarrow> Lease" where
  "leaseRow p = \<lparr> l_Partition = p_partition p, l_Epoch = p_epoch p, l_Draining = p_draining p \<rparr>"

definition queryLeases :: "part_row list \<Rightarrow> Lease list" where
  "queryLeases rows = sort_key l_Partition (map leaseRow rows)"

definition UnixMilli :: "int \<Rightarrow> int" where
  "UnixMilli t = t div 1000000"

definition setMember :: "string \<Rightarrow> string \<Rightarrow> int \<Rightarrow> bool \<Rightarrow> disp_row list \<Rightarrow> disp_row list" where
  "setMember queue owner expires member ds =
     (if \<not> member then filter (\<lambda>d. \<not> (d_queue d = queue \<and> d_owner d = owner)) ds
      else if \<exists>d\<in>set ds. d_queue d = queue \<and> d_owner d = owner
      then map (\<lambda>d. if d_queue d = queue \<and> d_owner d = owner then d \<lparr> d_expires_ms := expires \<rparr> else d) ds
      else ds @ [\<lparr> d_queue = queue, d_owner = owner, d_expires_ms = expires \<rparr>])"

definition memberRows :: "string \<Rightarrow> string \<Rightarrow> int \<Rightarrow> bool \<Rightarrow> sql_db \<Rightarrow> sql_db" where
  "memberRows queue owner expires member db =
     db \<lparr> dispatchers := setMember queue owner expires member (dispatchers db) \<rparr>"

definition expireMembers :: "string \<Rightarrow> int \<Rightarrow> sql_db \<Rightarrow> sql_db" where
  "expireMembers queue nowMs db =
     db \<lparr> dispatchers := filter (\<lambda>d. \<not> (d_queue d = queue \<and> d_expires_ms d < nowMs)) (dispatchers db) \<rparr>"

definition ownRow :: "string \<Rightarrow> string \<Rightarrow> part_row \<Rightarrow> bool" where
  "ownRow queue owner p = (p_queue p = queue \<and> p_owner p = owner)"

definition renewRows :: "string \<Rightarrow> string \<Rightarrow> int \<Rightarrow> sql_db \<Rightarrow> sql_db" where
  "renewRows queue owner expires db = db \<lparr> partitions :=
     map (\<lambda>p. if ownRow queue owner p then p \<lparr> p_expires_ms := expires \<rparr> else p) (partitions db) \<rparr>"

text \<open>The four statements of a heartbeat, each with its own outcome.\<close>

definition Store_Heartbeat :: "(nat \<Rightarrow> sql_env) \<Rightarrow> string \<Rightarrow> string \<Rightarrow> int \<Rightarrow> int \<Rightarrow> bool
    \<Rightarrow> sql_db \<Rightarrow> (sql_error + Lease list \<times> int) \<times> sql_db" where
  "Store_Heartbeat es queue owner now ttl member db =
     (let nowMs = UnixMilli now; expires = UnixMilli (now + ttl) in
      case exec (es 0) (Inr (), memberRows queue owner expires member db) db of
        (Inl er, db1) \<Rightarrow> (Inl er, db1)
      | (Inr _, db1) \<Rightarrow>
          (case exec (es 1) (Inr (), expireMembers queue nowMs db1) db1 of
             (Inl er, db2) \<Rightarrow> (Inl er, db2)
           | (Inr _, db2) \<Rightarrow>
               if e_fault (es 2) \<noteq> NoFault then (Inl DatabaseError, db2)
               else let members = int (length (filter (\<lambda>d. d_queue d = queue) (dispatchers db2)));
                        db3 = renewRows queue owner expires db2
                    in exec (es 3) (Inr (queryLeases (filter (ownRow queue owner) (partitions db3)), members), db3) db2))"

definition free :: "string \<Rightarrow> int \<Rightarrow> part_row \<Rightarrow> bool" where
  "free queue nowMs p = (p_queue p = queue \<and> (p_owner p = [] \<or> p_expires_ms p < nowMs))"

definition takeable :: "sql_env \<Rightarrow> string \<Rightarrow> int \<Rightarrow> nat \<Rightarrow> part_row list \<Rightarrow> part_row list" where
  "takeable e queue nowMs limit ps = take limit (sort_key (\<lambda>p. (p_expires_ms p, p_partition p))
     (filter (\<lambda>p. free queue nowMs p \<and> \<not> e_plocked e (p_partition p)) ps))"

definition takeRow :: "string \<Rightarrow> int \<Rightarrow> part_row \<Rightarrow> part_row" where
  "takeRow owner expires p = p \<lparr> p_owner := owner, p_epoch := p_epoch p + 1, p_draining := False, p_expires_ms := expires \<rparr>"

definition acquirable :: "sql_env \<Rightarrow> string \<Rightarrow> int \<Rightarrow> nat \<Rightarrow> sql_db \<Rightarrow> part_row \<Rightarrow> bool" where
  "acquirable e queue nowMs limit db p =
     (free queue nowMs p \<and> p_partition p \<in> p_partition ` set (takeable e queue nowMs limit (partitions db)))"

definition acquireRows :: "sql_env \<Rightarrow> string \<Rightarrow> string \<Rightarrow> int \<Rightarrow> int \<Rightarrow> nat \<Rightarrow> sql_db \<Rightarrow> part_row list \<times> sql_db" where
  "acquireRows e queue owner nowMs expires limit db =
     (map (takeRow owner expires) (filter (acquirable e queue nowMs limit db) (partitions db)),
      db \<lparr> partitions := map (\<lambda>p. if acquirable e queue nowMs limit db p then takeRow owner expires p else p) (partitions db) \<rparr>)"

definition Store_AcquirePartitions :: "sql_env \<Rightarrow> string \<Rightarrow> string \<Rightarrow> int \<Rightarrow> int \<Rightarrow> int \<Rightarrow> sql_db
    \<Rightarrow> (sql_error + Lease list) \<times> sql_db" where
  "Store_AcquirePartitions e queue owner now ttl limit db =
     (if limit < 0 then (Inl NegativeLimit, db)
      else exec e (case acquireRows e queue owner (UnixMilli now) (UnixMilli (now + ttl)) (nat limit) db of
             (rows, db') \<Rightarrow> (Inr (queryLeases rows), db')) db)"

definition drainRows :: "string \<Rightarrow> string \<Rightarrow> int list \<Rightarrow> bool \<Rightarrow> sql_db \<Rightarrow> sql_db" where
  "drainRows queue owner ps draining db = db \<lparr> partitions :=
     map (\<lambda>p. if ownRow queue owner p \<and> p_partition p \<in> set ps then p \<lparr> p_draining := draining \<rparr> else p) (partitions db) \<rparr>"

definition Store_SetDraining :: "sql_env \<Rightarrow> string \<Rightarrow> string \<Rightarrow> int list \<Rightarrow> bool \<Rightarrow> sql_db \<Rightarrow> (sql_error + unit) \<times> sql_db" where
  "Store_SetDraining e queue owner ps draining db =
     (if ps = [] then (Inr (), db) else exec e (Inr (), drainRows queue owner ps draining db) db)"

definition freeRow :: "part_row \<Rightarrow> part_row" where
  "freeRow p = p \<lparr> p_owner := [], p_draining := False, p_expires_ms := 0 \<rparr>"

definition releaseRows :: "string \<Rightarrow> string \<Rightarrow> int list \<Rightarrow> sql_db \<Rightarrow> sql_db" where
  "releaseRows queue owner ps db = db \<lparr> partitions :=
     map (\<lambda>p. if ownRow queue owner p \<and> p_partition p \<in> set ps then freeRow p else p) (partitions db) \<rparr>"

definition Store_ReleasePartitions :: "sql_env \<Rightarrow> string \<Rightarrow> string \<Rightarrow> int list \<Rightarrow> sql_db \<Rightarrow> (sql_error + unit) \<times> sql_db" where
  "Store_ReleasePartitions e queue owner ps db =
     (if ps = [] then (Inr (), db) else exec e (Inr (), releaseRows queue owner ps db) db)"

definition leaveRows :: "string \<Rightarrow> string \<Rightarrow> sql_db \<Rightarrow> sql_db" where
  "leaveRows queue owner db = db \<lparr>
     partitions := map (\<lambda>p. if ownRow queue owner p then freeRow p else p) (partitions db),
     dispatchers := filter (\<lambda>d. \<not> (d_queue d = queue \<and> d_owner d = owner)) (dispatchers db) \<rparr>"

definition Store_Leave :: "sql_env \<Rightarrow> string \<Rightarrow> string \<Rightarrow> sql_db \<Rightarrow> (sql_error + unit) \<times> sql_db" where
  "Store_Leave e queue owner db = exec e (Inr (), leaveRows queue owner db) db"

section \<open>Statements as steps\<close>

text \<open>
  Everything that the store sends to the database to change it, one constructor per statement or
  transaction, with the keys that it moves as events. A trace is any interleaving of statements of any
  callers. The versions of \<open>async_partitions\<close> committed so far are kept, since a statement may still
  see one of them.
\<close>

datatype sql_stmt =
    SEnqueue int "Request list"
  | SDispatch string string int nat
  | SResetStale string string "int list option"
  | SUndispatch string "Stamp list" int
  | SRetry string Stamp int string
  | SCancel "string list"
  | SAck string int "Completion list"
  | SExpireRoute string int
  | SPop "int \<Rightarrow> bool" string nat
  | SExpire "int \<Rightarrow> bool" int nat
  | SEnsure string
  | SMember string string int bool
  | SExpireMembers string int
  | SRenew string string int
  | SAcquire string string int int nat
  | SSetDraining string string "int list" bool
  | SRelease string string "int list"
  | SLeave string string

datatype sql_event =
    Enqueued Key
  | Dispatched string Key int
  | Acked Key
  | Popped Key
  | Expired Key

fun stmt_run :: "sql_env \<Rightarrow> sql_stmt \<Rightarrow> sql_db \<Rightarrow> sql_event list \<times> sql_db" where
  "stmt_run e (SEnqueue t reqs) db = (case enqueueTx t reqs db of
     (Inl _, db') \<Rightarrow> ([], db') | (Inr _, db') \<Rightarrow> (map (\<lambda>r. Enqueued (Request_Key r)) reqs, db'))"
| "stmt_run e (SDispatch queue owner now limit) db = (case async_dispatch e owner queue now limit db of
     (rows, db') \<Rightarrow> (map (\<lambda>r. Dispatched owner (r_key r) (r_attempt r)) rows, db'))"
| "stmt_run e (SResetStale queue owner only) db = ([], resetRows e queue owner only db)"
| "stmt_run e (SUndispatch owner sts notBefore) db = ([], undispatchRows e owner sts notBefore db)"
| "stmt_run e (SRetry owner st notBefore envelope) db = ([], retryRows e owner st notBefore envelope db)"
| "stmt_run e (SCancel ids) db = ([], cancelRows ids db)"
| "stmt_run e (SAck owner t cs) db = (case ackStmt e owner t (uniqueCompletions cs) db of
     (done, db') \<Rightarrow> (map (\<lambda>u. Acked (c_Key (snd u))) done, db'))"
| "stmt_run e (SExpireRoute route now) db =
     (map (\<lambda>r. Expired (s_key r)) (filter (\<lambda>r. s_route r = route \<and> expired now r) (results db)), expireRoute route now db)"
| "stmt_run e (SPop rlocked route limit) db = (case async_pop_results rlocked route limit db of
     (rows, db') \<Rightarrow> (map (\<lambda>r. Popped (s_key r)) rows, db'))"
| "stmt_run e (SExpire rlocked now limit) db = (case expireRows rlocked now limit db of
     (rows, db') \<Rightarrow> (map (\<lambda>r. Expired (s_key r)) rows, db'))"
| "stmt_run e (SEnsure queue) db = ([], ensureRows queue db)"
| "stmt_run e (SMember queue owner expires member) db = ([], memberRows queue owner expires member db)"
| "stmt_run e (SExpireMembers queue nowMs) db = ([], expireMembers queue nowMs db)"
| "stmt_run e (SRenew queue owner expires) db = ([], renewRows queue owner expires db)"
| "stmt_run e (SAcquire queue owner nowMs expires limit) db = ([], snd (acquireRows e queue owner nowMs expires limit db))"
| "stmt_run e (SSetDraining queue owner ps draining) db = ([], drainRows queue owner ps draining db)"
| "stmt_run e (SRelease queue owner ps) db = ([], releaseRows queue owner ps db)"
| "stmt_run e (SLeave queue owner) db = ([], leaveRows queue owner db)"

text \<open>Dispatchers have names: the empty one is the mark of a free partition.\<close>

fun stmt_ok :: "sql_stmt \<Rightarrow> bool" where
  "stmt_ok (SDispatch queue owner now limit) = (owner \<noteq> [])"
| "stmt_ok (SAcquire queue owner nowMs expires limit) = (owner \<noteq> [])"
| "stmt_ok _ = True"

type_synonym sql_conf = "part_row list list \<times> sql_db"

definition sees :: "sql_env \<Rightarrow> part_row list list \<Rightarrow> bool" where
  "sees e hist = (case e_view e of None \<Rightarrow> True | Some ps \<Rightarrow> ps \<in> set hist)"

inductive sql_trace :: "sql_conf \<Rightarrow> sql_event list \<Rightarrow> sql_conf \<Rightarrow> bool" where
  sql_refl: "sql_trace c [] c"
| sql_step: "sql_trace c evs (hist, db) \<Longrightarrow> stmt_ok stmt \<Longrightarrow> sees e hist \<Longrightarrow> stmt_run e stmt db = (evs', db')
     \<Longrightarrow> sql_trace c (evs @ evs') (partitions db' # hist, db')"

definition sql_start :: sql_conf where
  "sql_start = ([], emptyDb)"

end
