(* ===== verification/Sql_Trace.thy ===== *)
theory Sql_Trace
  imports Sql_Store
begin

text \<open>
  What holds of the tables of \<open>Sql_Store\<close> after any interleaving of statements of any callers, lost
  answers and old snapshots included: the invariant of the tables, the balance of requests and results,
  the fence of the attempt stamps, the order of dispatch, and what a new owner of a partition finds.
\<close>

section \<open>Invariant of the tables\<close>

definition parts_ok :: "part_row list \<Rightarrow> bool" where
  "parts_ok ps \<longleftrightarrow> distinct (map p_key ps) \<and> (\<forall>p\<in>set ps. 0 \<le> p_epoch p \<and> (p_owner p \<noteq> [] \<longrightarrow> 1 \<le> p_epoch p)
     \<and> 0 \<le> p_partition p \<and> p_partition p < int Partitions)"

definition parts_le :: "part_row list \<Rightarrow> part_row list \<Rightarrow> bool" where
  "parts_le ps qs \<longleftrightarrow> (\<forall>p\<in>set ps. \<exists>q\<in>set qs. p_key q = p_key p \<and> p_epoch p \<le> p_epoch q)"

definition row_ok :: "sql_db \<Rightarrow> req_row \<Rightarrow> bool" where
  "row_ok db r \<longleftrightarrow> 0 \<le> r_epoch r \<and> r_attempt r \<le> attempts_seq db \<and> r_partition r = partitionOf (r_id r)
     \<and> (0 < r_epoch r \<longrightarrow> (\<exists>p\<in>set (partitions db). p_key p = (r_queue r, r_partition r) \<and> r_epoch r \<le> p_epoch p))"

definition rows_ok :: "sql_db \<Rightarrow> bool" where
  "rows_ok db \<longleftrightarrow> distinct (map r_key (requests db)) \<and> (\<forall>r\<in>set (requests db). row_ok db r)"

definition results_ok :: "sql_db \<Rightarrow> bool" where
  "results_ok db \<longleftrightarrow> distinct (map s_seq (results db)) \<and> (\<forall>r\<in>set (results db). s_seq r \<le> results_seq db)"

fun sql_inv :: "sql_conf \<Rightarrow> bool" where
  "sql_inv (hist, db) \<longleftrightarrow> parts_ok (partitions db) \<and> (\<forall>ps\<in>set hist. parts_ok ps \<and> parts_le ps (partitions db))
     \<and> rows_ok db \<and> results_ok db \<and> 0 \<le> attempts_seq db"

subsection \<open>Partition statements\<close>

lemma parts_le_refl [simp]: "parts_le ps ps"
  by (auto simp: parts_le_def)

lemma parts_le_trans: "parts_le ps qs \<Longrightarrow> parts_le qs rs \<Longrightarrow> parts_le ps rs"
  unfolding parts_le_def by (metis order_trans)

definition part_step :: "part_row \<Rightarrow> part_row \<Rightarrow> bool" where
  "part_step p q \<longleftrightarrow> p_key q = p_key p \<and> p_epoch p \<le> p_epoch q \<and> (p_owner q \<noteq> [] \<longrightarrow> 1 \<le> p_epoch q \<or> p_owner q = p_owner p)"

lemma parts_map:
  assumes "\<And>p. p \<in> set ps \<Longrightarrow> 0 \<le> p_epoch p \<Longrightarrow> part_step p (f p)" and "parts_ok ps"
  shows "parts_ok (map f ps) \<and> parts_le ps (map f ps)"
proof -
  have *: "part_step p (f p)" if "p \<in> set ps" for p
    using assms that by (auto simp: parts_ok_def)
  then have "map p_key (map f ps) = map p_key ps" by (auto simp: part_step_def)
  then have "distinct (map p_key (map f ps))" using assms(2) by (simp only: parts_ok_def)
  moreover have "\<forall>p\<in>set ps. p_partition (f p) = p_partition p" using * by (auto simp: part_step_def p_key_def)
  ultimately show ?thesis using assms(2) * by (fastforce simp: parts_ok_def parts_le_def part_step_def)
qed

lemma part_step_simps [simp]:
  "part_step p p"
  "part_step p (p \<lparr> p_expires_ms := x \<rparr>)"
  "part_step p (p \<lparr> p_draining := d \<rparr>)"
  "part_step p (freeRow p)"
  "0 \<le> p_epoch p \<Longrightarrow> part_step p (takeRow owner t p)"
  by (auto simp: part_step_def p_key_def freeRow_def takeRow_def)

lemma newPart_simps [simp]:
  "p_key (newPart queue i) = (queue, int i)" "p_epoch (newPart queue i) = 0" "p_owner (newPart queue i) = []"
  "p_queue (newPart queue i) = queue" "p_partition (newPart queue i) = int i"
  by (simp_all add: newPart_def p_key_def)

lemma parts_ensure:
  assumes "parts_ok (partitions db)"
  shows "parts_ok (partitions (ensureRows queue db)) \<and> parts_le (partitions db) (partitions (ensureRows queue db))"
proof -
  let ?new = "filter (\<lambda>p. p_key p \<notin> p_key ` set (partitions db)) (map (newPart queue) [0..<Partitions])"
  have "distinct (map p_key (map (newPart queue) [0..<Partitions]))"
    by (simp add: distinct_map inj_on_def)
  then have "distinct (map p_key ?new)" by (rule distinct_map_filter)
  then have "distinct (map p_key (partitions db @ ?new))"
    using assms by (auto simp: parts_ok_def)
  moreover have "partitions (ensureRows queue db) = partitions db @ ?new"
    by (simp add: ensureRows_def)
  moreover have "\<forall>p\<in>set (partitions db @ ?new). 0 \<le> p_epoch p \<and> (p_owner p \<noteq> [] \<longrightarrow> 1 \<le> p_epoch p)
      \<and> 0 \<le> p_partition p \<and> p_partition p < int Partitions"
    using assms by (auto simp: parts_ok_def)
  ultimately show ?thesis by (auto simp: parts_ok_def parts_le_def)
qed

lemma rows_ok_parts:
  assumes "rows_ok db" "parts_le (partitions db) (partitions db')"
    and "requests db' = requests db" "attempts_seq db' = attempts_seq db"
  shows "rows_ok db'"
proof -
  have "row_ok db' r" if "row_ok db r" for r
    using that assms(2,4) unfolding row_ok_def parts_le_def by (metis order_trans)
  then show ?thesis using assms(1,3) by (auto simp: rows_ok_def)
qed

fun part_stmt :: "sql_stmt \<Rightarrow> bool" where
  "part_stmt (SEnsure _) = True"
| "part_stmt (SMember _ _ _ _) = True"
| "part_stmt (SExpireMembers _ _) = True"
| "part_stmt (SRenew _ _ _) = True"
| "part_stmt (SAcquire _ _ _ _ _) = True"
| "part_stmt (SSetDraining _ _ _ _) = True"
| "part_stmt (SRelease _ _ _) = True"
| "part_stmt (SLeave _ _) = True"
| "part_stmt _ = False"

lemmas part_stmt_defs = ensureRows_def memberRows_def expireMembers_def renewRows_def acquireRows_def drainRows_def
  releaseRows_def leaveRows_def Let_def

lemma part_stmt_frame:
  assumes "part_stmt stmt" "stmt_run e stmt db = (evs, db')"
  shows "evs = [] \<and> requests db' = requests db \<and> results db' = results db
    \<and> attempts_seq db' = attempts_seq db \<and> results_seq db' = results_seq db"
  using assms by (cases stmt) (auto simp: part_stmt_defs)

lemma part_stmt_parts:
  assumes "part_stmt stmt" "stmt_run e stmt db = (evs, db')" "parts_ok (partitions db)"
  shows "parts_ok (partitions db') \<and> parts_le (partitions db) (partitions db')"
proof (cases "\<exists>queue. stmt = SEnsure queue")
  case True
  with assms parts_ensure show ?thesis by auto
next
  case False
  have "\<exists>f. partitions db' = map f (partitions db) \<and> (\<forall>p. 0 \<le> p_epoch p \<longrightarrow> part_step p (f p))"
  proof (cases stmt)
    case (SMember q ow t m)
    with assms(2) show ?thesis by (intro exI [of _ id]) (auto simp: part_stmt_defs)
  next
    case (SExpireMembers q t)
    with assms(2) show ?thesis by (intro exI [of _ id]) (auto simp: part_stmt_defs)
  next
    case (SRenew q ow t)
    with assms(2) show ?thesis
      by (intro exI [of _ "\<lambda>p. if ownRow q ow p then p \<lparr> p_expires_ms := t \<rparr> else p"]) (auto simp: part_stmt_defs)
  next
    case (SAcquire q ow n t lim)
    with assms(2) show ?thesis
      by (intro exI [of _ "\<lambda>p. if acquirable e q n lim db p then takeRow ow t p else p"]) (auto simp: part_stmt_defs)
  next
    case (SSetDraining q ow ps d)
    with assms(2) show ?thesis
      by (intro exI [of _ "\<lambda>p. if ownRow q ow p \<and> p_partition p \<in> set ps then p \<lparr> p_draining := d \<rparr> else p"])
        (auto simp: part_stmt_defs)
  next
    case (SRelease q ow ps)
    with assms(2) show ?thesis
      by (intro exI [of _ "\<lambda>p. if ownRow q ow p \<and> p_partition p \<in> set ps then freeRow p else p"])
        (auto simp: part_stmt_defs)
  next
    case (SLeave q ow)
    with assms(2) show ?thesis
      by (intro exI [of _ "\<lambda>p. if ownRow q ow p then freeRow p else p"]) (auto simp: part_stmt_defs)
  qed (use assms(1) False in auto)
  with parts_map [OF _ assms(3)] show ?thesis by metis
qed

subsection \<open>Statements that give requests back\<close>

definition relabels :: "(req_row \<Rightarrow> req_row) \<Rightarrow> bool" where
  "relabels g \<longleftrightarrow> (\<forall>r. r_id (g r) = r_id r \<and> r_token (g r) = r_token r \<and> r_queue (g r) = r_queue r
     \<and> r_partition (g r) = r_partition r \<and> r_attempt (g r) = r_attempt r \<and> (r_epoch (g r) = r_epoch r \<or> r_epoch (g r) = 0))"

lemma relabels_key: "relabels g \<Longrightarrow> r_key (g r) = r_key r"
  by (simp add: relabels_def r_key_def)

lemma relabels_keys: "relabels g \<Longrightarrow> map r_key (map g rows) = map r_key rows"
  by (simp add: relabels_key)

lemma relabel_rows_ok:
  assumes "relabels g" "rows_ok db"
  shows "rows_ok (db \<lparr> requests := map g (requests db) \<rparr>)"
proof -
  have "row_ok (db \<lparr> requests := map g (requests db) \<rparr>) (g r)" if "row_ok db r" for r
  proof -
    have "r_epoch (g r) = r_epoch r \<or> r_epoch (g r) = 0" using assms(1) by (simp add: relabels_def)
    then show ?thesis using that assms(1) by (elim disjE) (auto simp: row_ok_def relabels_def)
  qed
  moreover have "distinct (map r_key (map g (requests db)))"
    using assms by (simp only: relabels_keys rows_ok_def)
  ultimately show ?thesis using assms(2) by (auto simp: rows_ok_def)
qed

fun relabel_stmt :: "sql_stmt \<Rightarrow> bool" where
  "relabel_stmt (SResetStale _ _ _) = True"
| "relabel_stmt (SUndispatch _ _ _) = True"
| "relabel_stmt (SRetry _ _ _ _) = True"
| "relabel_stmt (SCancel _) = True"
| "relabel_stmt _ = False"

lemma relabel_stmt_map:
  assumes "relabel_stmt stmt" "stmt_run e stmt db = (evs, db')"
  shows "evs = [] \<and> (\<exists>g. relabels g \<and> db' = db \<lparr> requests := map g (requests db) \<rparr>)"
proof (cases stmt)
  case (SResetStale q ow only)
  with assms(2) show ?thesis
    by (intro conjI exI [of _ "\<lambda>r. if stale e q ow only db r then r \<lparr> r_epoch := 0 \<rparr> else r"])
      (auto simp: resetRows_def relabels_def)
next
  case (SUndispatch ow sts nb)
  with assms(2) show ?thesis
    by (intro conjI exI [of _ "\<lambda>r. if \<exists>st\<in>set sts. carries e ow db st r
          then r \<lparr> r_epoch := 0, r_not_before := max (r_not_before r) nb \<rparr> else r"])
      (auto simp: undispatchRows_def relabels_def)
next
  case (SRetry ow st nb env)
  with assms(2) show ?thesis
    by (intro conjI exI [of _ "\<lambda>r. if carries e ow db st r
          then r \<lparr> r_epoch := 0, r_not_before := nb, r_envelope := env \<rparr> else r"])
      (auto simp: retryRows_def relabels_def)
next
  case (SCancel ids)
  with assms(2) show ?thesis
    by (intro conjI exI [of _ "\<lambda>r. if r_id r \<in> set ids then r \<lparr> r_cancelled := True \<rparr> else r"])
      (auto simp: cancelRows_def relabels_def)
qed (use assms(1) in auto)

subsection \<open>Enqueue\<close>

lemma newRow_simps [simp]:
  "r_key (newRow t r) = Request_Key r" "r_epoch (newRow t r) = 0" "r_attempt (newRow t r) = 0" "r_id (newRow t r) = rq_ID r"
  "r_partition (newRow t r) = partitionOf (rq_ID r)" "r_queue (newRow t r) = rq_Queue r" "r_deadline (newRow t r) = rq_Deadline r"
  "r_created_at (newRow t r) = t" "r_not_before (newRow t r) = 0"
  by (simp_all add: newRow_def r_key_def Request_Key_def)

lemma chunkRows_Nil [simp]: "chunkRows t n [] = []"
  by (simp add: chunkRows_def)

lemma chunkRows_append: "chunkRows t n (xs @ ys) = chunkRows t n xs @ chunkRows t (n + length xs) ys"
proof -
  have "map (\<lambda>(i, r). newRow (t + int (n + i)) r) (enumerate m zs)
      = map (\<lambda>(i, r). newRow (t + int (n + m + i)) r) (enumerate 0 zs)" for m zs
    by (rule nth_equalityI) (auto simp: nth_enumerate_eq add.assoc)
  from this [of "length xs" ys] show ?thesis
    by (simp add: chunkRows_def enumerate_append_eq)
qed

lemma chunkRows_keys [simp]: "map r_key (chunkRows t n reqs) = map Request_Key reqs"
  by (rule nth_equalityI) (auto simp: chunkRows_def nth_enumerate_eq)

text \<open>The chunked loop is one insert of all rows: the chunk size shows in no outcome.\<close>

lemma enqueueLoop_insert:
  assumes "distinct (map r_key rows)"
  shows "enqueueLoop t reqs start rows = insertRows (chunkRows t start (drop start reqs)) rows"
  using assms
proof (induction t reqs start rows rule: enqueueLoop.induct)
  case (1 t reqs start rows)
  let ?c = "take enqueueChunk (drop start reqs)"
  let ?rest = "drop (start + enqueueChunk) reqs"
  show ?case
  proof (cases "start < length reqs")
    case False
    then show ?thesis using 1(2) by (simp add: enqueueLoop.simps [of t reqs] insertRows_def)
  next
    case True
    have split: "?c @ ?rest = drop start reqs"
      by (metis append_take_drop_id drop_drop add.commute)
    have rest: "chunkRows t (start + length ?c) ?rest = chunkRows t (start + enqueueChunk) ?rest"
    proof (cases "?rest = []")
      case False
      then have "start + enqueueChunk < length reqs" by simp
      then have "length ?c = enqueueChunk" by simp
      then show ?thesis by presburger
    qed (simp only: chunkRows_Nil)
    show ?thesis
    proof (cases "insertRows (chunkRows t start ?c) rows")
      case None
      then have "\<not> distinct (map r_key (rows @ chunkRows t start ?c))" by (auto simp: insertRows_def split: if_splits)
      then have "\<not> distinct (map r_key (rows @ chunkRows t start (?c @ ?rest)))"
        unfolding chunkRows_append by auto
      then have "insertRows (chunkRows t start (drop start reqs)) rows = None"
        unfolding split by (simp only: insertRows_def if_False)
      with None True show ?thesis by (simp add: enqueueLoop.simps [of t reqs])
    next
      case (Some rows')
      then have r': "rows' = rows @ chunkRows t start ?c" "distinct (map r_key rows')"
        by (auto simp: insertRows_def split: if_splits)
      have "enqueueLoop t reqs start rows = enqueueLoop t reqs (start + enqueueChunk) rows'"
        using True Some by (simp add: enqueueLoop.simps [of t reqs start])
      also have "\<dots> = insertRows (chunkRows t (start + enqueueChunk) ?rest) rows'"
        using 1(1) [OF True Some r'(2)] .
      also have "\<dots> = insertRows (chunkRows t start (?c @ ?rest)) rows"
        unfolding chunkRows_append rest r'(1) insertRows_def append_assoc ..
      finally show ?thesis by (simp only: split)
    qed
  qed
qed

lemma enqueueTx_eq:
  assumes "rows_ok db"
  shows "enqueueTx t reqs db =
    (if distinct (map r_key (requests db) @ map Request_Key reqs)
     then (Inr (), db \<lparr> requests := requests db @ chunkRows t 0 reqs \<rparr>) else (Inl UniqueViolation, db))"
  using assms enqueueLoop_insert [of "requests db" t reqs 0]
  by (simp add: enqueueTx_def rows_ok_def insertRows_def)

lemma chunkRows_row_ok: "r \<in> set (chunkRows t n reqs) \<Longrightarrow> 0 \<le> attempts_seq db \<Longrightarrow> row_ok db r"
  by (auto simp: chunkRows_def row_ok_def)

lemma enqueue_rows_ok:
  assumes "rows_ok db" "0 \<le> attempts_seq db"
  shows "rows_ok (snd (enqueueTx t reqs db))"
proof -
  have *: "row_ok (db \<lparr> requests := rs \<rparr>) r = row_ok db r" for rs r by (simp add: row_ok_def)
  have "distinct (map r_key (requests db @ chunkRows t 0 reqs))"
    if "distinct (map r_key (requests db) @ map Request_Key reqs)"
    using that by (simp only: map_append chunkRows_keys)
  then show ?thesis using assms chunkRows_row_ok [of _ t 0 reqs db]
    by (auto simp: enqueueTx_eq rows_ok_def * simp del: distinct_append map_append)
qed

subsection \<open>Dispatch\<close>

lemma partOf_Some: "partOf ps r = Some p \<Longrightarrow> p \<in> set ps \<and> p_key p = (r_queue r, r_partition r)"
  by (auto simp: partOf_def find_Some_iff p_key_def)

lemma partOf_unique:
  assumes "distinct (map p_key ps)" "p \<in> set ps" "p_key p = (r_queue r, r_partition r)"
  shows "partOf ps r = Some p"
proof -
  have "find (\<lambda>q. p_queue q = r_queue r \<and> p_partition q = r_partition r) ps \<noteq> None"
    using assms(2,3) by (auto simp: find_None_iff p_key_def)
  then obtain q where q: "partOf ps r = Some q" by (auto simp: partOf_def)
  then have "q \<in> set ps" "p_key q = p_key p" using partOf_Some assms(3) by (metis, metis)
  then have "q = p" using assms(1,2) by (metis inj_onD distinct_map)
  with q show ?thesis by simp
qed

lemma view_inv:
  assumes "sql_inv (hist, db)" "sees e hist"
  shows "parts_ok (view e db) \<and> parts_le (view e db) (partitions db)"
  using assms by (auto simp: view_def sees_def split: option.splits)

lemma dispatchable_part:
  assumes "dispatchable e queue owner now db r"
  obtains p where "partOf (view e db) r = Some p" "p_owner p = owner" "\<not> p_draining p"
  using assms by (auto simp: dispatchable_def split: option.splits)

lemma picked_dispatchable: "r \<in> set (picked e queue owner now limit db) \<Longrightarrow> r \<in> set (requests db) \<and> dispatchable e queue owner now db r"
  by (auto simp: picked_def dest: in_set_takeD)

lemma distinct_take_sort_filter: "distinct (map k rows) \<Longrightarrow> distinct (map k (take n (sort_key f (filter P rows))))"
proof -
  assume "distinct (map k rows)"
  then have "distinct (map k (filter P rows))" by (rule distinct_map_filter)
  then have "distinct (map k (sort_key f (filter P rows)))" by (simp add: distinct_map)
  then show ?thesis by (metis distinct_take take_map)
qed

lemma stampRow_simps [simp]:
  "r_id (stampRow e db i r) = r_id r" "r_token (stampRow e db i r) = r_token r" "r_queue (stampRow e db i r) = r_queue r"
  "r_partition (stampRow e db i r) = r_partition r" "r_key (stampRow e db i r) = r_key r"
  "r_deadline (stampRow e db i r) = r_deadline r" "r_created_at (stampRow e db i r) = r_created_at r"
  "r_envelope (stampRow e db i r) = r_envelope r" "r_payload (stampRow e db i r) = r_payload r"
  "r_cancelled (stampRow e db i r) = r_cancelled r" "edf (stampRow e db i r) = edf r"
  by (auto simp: stampRow_def r_key_def edf_def split: option.splits)

lemma length_stamped: "length (stamped e queue owner now limit db) = length (picked e queue owner now limit db)"
  by (simp add: stamped_def)

lemma nth_stamped: "i < length (picked e queue owner now limit db)
    \<Longrightarrow> stamped e queue owner now limit db ! i = stampRow e db i (picked e queue owner now limit db ! i)"
  by (simp add: stamped_def nth_enumerate_eq)

lemma stamped_keys: "map r_key (stamped e queue owner now limit db) = map r_key (picked e queue owner now limit db)"
  by (rule nth_equalityI) (simp_all add: length_stamped nth_stamped)

lemma stamped_attempts:
  "map r_attempt (stamped e queue owner now limit db)
     = map (\<lambda>i. attempts_seq db + 1 + int i) [0..<length (picked e queue owner now limit db)]"
proof (rule nth_equalityI)
  fix i assume "i < length (map r_attempt (stamped e queue owner now limit db))"
  then have i: "i < length (picked e queue owner now limit db)" by (simp add: length_stamped)
  then have "dispatchable e queue owner now db (picked e queue owner now limit db ! i)"
    using picked_dispatchable nth_mem by metis
  with i show "map r_attempt (stamped e queue owner now limit db) ! i
      = map (\<lambda>i. attempts_seq db + 1 + int i) [0..<length (picked e queue owner now limit db)] ! i"
    by (auto simp: length_stamped nth_stamped stampRow_def elim: dispatchable_part)
qed (simp add: length_stamped)

text \<open>A stamped row: the request it was, the epoch of its partition, an attempt that is new.\<close>

lemma stamped_cases:
  assumes "n \<in> set (stamped e queue owner now limit db)"
  obtains i r p where "n = stampRow e db i r" "r \<in> set (requests db)" "dispatchable e queue owner now db r"
    "i < length (picked e queue owner now limit db)" "r = picked e queue owner now limit db ! i"
    "partOf (view e db) r = Some p" "p_owner p = owner" "r_epoch n = p_epoch p" "r_attempt n = attempts_seq db + 1 + int i"
proof -
  from assms obtain i where i: "i < length (picked e queue owner now limit db)"
    and n: "n = stampRow e db i (picked e queue owner now limit db ! i)"
    by (auto simp: in_set_conv_nth length_stamped nth_stamped)
  let ?r = "picked e queue owner now limit db ! i"
  have r: "?r \<in> set (requests db)" "dispatchable e queue owner now db ?r"
    using picked_dispatchable [OF nth_mem [OF i]] by auto
  then obtain p where p: "partOf (view e db) ?r = Some p" "p_owner p = owner" by (auto elim: dispatchable_part)
  then have "r_epoch n = p_epoch p" "r_attempt n = attempts_seq db + 1 + int i"
    unfolding n by (simp_all add: stampRow_def)
  with i n r p show thesis using that by blast
qed

lemma replaceRows_cases:
  assumes "r' \<in> set (replaceRows new rows)"
  shows "r' \<in> set new \<or> r' \<in> set rows \<and> r_key r' \<notin> r_key ` set new"
proof -
  from assms obtain r where r: "r \<in> set rows" "r' = (case find (\<lambda>n. r_key n = r_key r) new of None \<Rightarrow> r | Some n \<Rightarrow> n)"
    by (auto simp: replaceRows_def)
  show ?thesis
  proof (cases "find (\<lambda>n. r_key n = r_key r) new")
    case None
    with r show ?thesis by (auto simp: find_None_iff)
  next
    case (Some n)
    with r show ?thesis by (auto simp: find_Some_iff)
  qed
qed

lemma replaceRows_keys: "map r_key (replaceRows new rows) = map r_key rows"
  by (induction rows) (auto simp: replaceRows_def find_Some_iff split: option.splits)

lemma async_dispatch_simps [simp]:
  "fst (async_dispatch e owner queue now limit db) = stamped e queue owner now limit db"
  "requests (snd (async_dispatch e owner queue now limit db)) = replaceRows (stamped e queue owner now limit db) (requests db)"
  "partitions (snd (async_dispatch e owner queue now limit db)) = partitions db"
  "results (snd (async_dispatch e owner queue now limit db)) = results db"
  "results_seq (snd (async_dispatch e owner queue now limit db)) = results_seq db"
  "attempts_seq (snd (async_dispatch e owner queue now limit db)) = attempts_seq db + int (length (stamped e queue owner now limit db))"
  by (simp_all add: async_dispatch_def Let_def)

lemma stamped_row_ok:
  assumes inv: "sql_inv (hist, db)" "sees e hist" and "owner \<noteq> []" and n: "n \<in> set (stamped e queue owner now limit db)"
  shows "row_ok (snd (async_dispatch e owner queue now limit db)) n \<and> 0 < r_epoch n"
proof -
  from n obtain i r p where *: "n = stampRow e db i r" "r \<in> set (requests db)"
      "i < length (picked e queue owner now limit db)" "partOf (view e db) r = Some p"
      "p_owner p = owner" "r_epoch n = p_epoch p" "r_attempt n = attempts_seq db + 1 + int i"
    by (rule stamped_cases)
  have p: "p \<in> set (view e db)" "p_key p = (r_queue r, r_partition r)" using partOf_Some [OF *(4)] by auto
  then have ep: "1 \<le> p_epoch p"
    using view_inv [OF inv] *(5) \<open>owner \<noteq> []\<close> by (auto simp: parts_ok_def)
  obtain q where q: "q \<in> set (partitions db)" "p_key q = p_key p" "p_epoch p \<le> p_epoch q"
    using view_inv [OF inv] p(1) by (auto simp: parts_le_def)
  have "r_partition r = partitionOf (r_id r)"
    using inv(1) *(2) by (auto simp: rows_ok_def row_ok_def)
  moreover have "\<exists>q\<in>set (partitions db). p_key q = (r_queue n, r_partition n) \<and> r_epoch n \<le> p_epoch q"
    using q p(2) *(1,6) by (intro bexI [of _ q]) simp_all
  ultimately show ?thesis using * ep by (auto simp: row_ok_def length_stamped)
qed

lemma dispatch_rows_ok:
  assumes inv: "sql_inv (hist, db)" "sees e hist" and "owner \<noteq> []"
  shows "rows_ok (snd (async_dispatch e owner queue now limit db))" (is "rows_ok ?db'")
proof -
  have "row_ok ?db' r'" if r': "r' \<in> set (requests ?db')" for r'
  proof (cases "r' \<in> set (stamped e queue owner now limit db)")
    case True
    with stamped_row_ok [OF inv \<open>owner \<noteq> []\<close>] show ?thesis by simp
  next
    case False
    then have "row_ok db r'"
      using replaceRows_cases r' inv(1) by (fastforce simp: rows_ok_def)
    then show ?thesis by (auto simp: row_ok_def)
  qed
  then show ?thesis using inv(1) by (simp add: rows_ok_def replaceRows_keys)
qed

subsection \<open>Acknowledgement\<close>

lemma mset_map_filter_partition:
  "mset (map f xs) = mset (map f (filter P xs)) + mset (map f (filter (\<lambda>x. \<not> P x) xs))"
  by (induction xs) auto

definition u_key :: "nat \<times> Completion \<Rightarrow> Key" where
  "u_key u = c_Key (snd u)"

lemma addCompletion_def':
  "addCompletion ic us =
     (if u_key ic \<in> u_key ` set us
      then map (\<lambda>u. if u_key u = u_key ic \<and> c_Attempt (snd ic) > c_Attempt (snd u) then ic else u) us
      else us @ [ic])"
proof -
  have "(\<exists>u\<in>set us. c_Key (snd u) = c_Key (snd ic)) \<longleftrightarrow> u_key ic \<in> u_key ` set us"
    unfolding u_key_def image_iff by (rule bex_cong) auto
  then show ?thesis by (simp only: addCompletion_def u_key_def)
qed

lemma addCompletion_keys:
  "map u_key (addCompletion ic us) = (if u_key ic \<in> u_key ` set us then map u_key us else map u_key us @ [u_key ic])"
  by (simp add: addCompletion_def')

lemma distinct_addCompletion:
  "distinct (map u_key us) \<Longrightarrow> distinct (map u_key (fold addCompletion ics us))"
proof (induction ics arbitrary: us)
  case (Cons ic ics)
  have "distinct (map u_key (addCompletion ic us))"
    unfolding addCompletion_keys using Cons.prems by simp
  then show ?case using Cons.IH by simp
qed simp

lemma uniqueCompletions_distinct: "distinct (map u_key (uniqueCompletions cs))"
  unfolding uniqueCompletions_def by (rule distinct_addCompletion) simp

lemma addCompletion_subset: "set (addCompletion ic us) \<subseteq> insert ic (set us)"
  by (auto simp: addCompletion_def)

lemma fold_addCompletion_subset: "set (fold addCompletion ics us) \<subseteq> set us \<union> set ics"
proof (induction ics arbitrary: us)
  case (Cons ic ics)
  show ?case using Cons.IH [of "addCompletion ic us"] addCompletion_subset [of ic us] by auto
qed simp

lemma uniqueCompletions_nth:
  assumes "u \<in> set (uniqueCompletions cs)"
  shows "fst u < length cs \<and> cs ! fst u = snd u"
proof -
  have "u \<in> set (enumerate 0 cs)"
    using assms fold_addCompletion_subset [of "enumerate 0 cs" "[]"] by (auto simp: uniqueCompletions_def)
  then show ?thesis by (auto simp: in_set_enumerate_eq)
qed

text \<open>Every completion of the batch is covered by the one that is kept for its key, of an attempt as high.\<close>

definition covers :: "(nat \<times> Completion) list \<Rightarrow> Completion \<Rightarrow> bool" where
  "covers us c \<longleftrightarrow> (\<exists>u\<in>set us. u_key u = c_Key c \<and> c_Attempt c \<le> c_Attempt (snd u))"

lemma covers_addCompletion:
  assumes "covers us c"
  shows "covers (addCompletion ic us) c"
proof -
  from assms obtain u where u: "u \<in> set us" "u_key u = c_Key c" "c_Attempt c \<le> c_Attempt (snd u)"
    by (auto simp: covers_def)
  let ?f = "\<lambda>u. if u_key u = u_key ic \<and> c_Attempt (snd ic) > c_Attempt (snd u) then ic else u"
  have "u_key (?f u) = c_Key c" "c_Attempt c \<le> c_Attempt (snd (?f u))" using u by simp_all
  moreover have "?f u \<in> set (addCompletion ic us) \<or> u \<in> set (addCompletion ic us)"
    using u(1) by (cases "u_key ic \<in> u_key ` set us") (simp_all add: addCompletion_def')
  ultimately show ?thesis using u unfolding covers_def by blast
qed

lemma covers_addCompletion_self: "covers (addCompletion ic us) (snd ic)"
proof (cases "u_key ic \<in> u_key ` set us")
  case True
  then obtain u where u: "u \<in> set us" "u_key u = u_key ic" by auto
  let ?f = "\<lambda>u. if u_key u = u_key ic \<and> c_Attempt (snd ic) > c_Attempt (snd u) then ic else u"
  have "u_key (?f u) = u_key ic" "c_Attempt (snd ic) \<le> c_Attempt (snd (?f u))" using u by auto
  moreover have "?f u \<in> set (addCompletion ic us)" using True u by (simp add: addCompletion_def')
  ultimately show ?thesis unfolding covers_def u_key_def by blast
qed (simp add: covers_def addCompletion_def' u_key_def)

lemma covers_fold: "covers us c \<or> c \<in> snd ` set ics \<Longrightarrow> covers (fold addCompletion ics us) c"
proof (induction ics arbitrary: us)
  case (Cons ic ics)
  then have "covers (addCompletion ic us) c \<or> c \<in> snd ` set ics"
    using covers_addCompletion [of us c ic] covers_addCompletion_self [of ic us] by auto
  then show ?case using Cons.IH by simp
qed simp

lemma uniqueCompletions_covers: "c \<in> set cs \<Longrightarrow> covers (uniqueCompletions cs) c"
  unfolding uniqueCompletions_def by (rule covers_fold) (metis map_snd_enumerate list.set_map)

definition doneCompletions :: "sql_env \<Rightarrow> string \<Rightarrow> Completion list \<Rightarrow> sql_db \<Rightarrow> (nat \<times> Completion) list" where
  "doneCompletions e owner cs db = filter (\<lambda>u. \<exists>r\<in>set (requests db). acks e owner db (snd u) r) (uniqueCompletions cs)"

lemma ackStmt_simps [simp]:
  "fst (ackStmt e owner t (uniqueCompletions cs) db) = doneCompletions e owner cs db"
  "requests (snd (ackStmt e owner t us db)) = filter (\<lambda>r. \<not> (\<exists>u\<in>set us. acks e owner db (snd u) r)) (requests db)"
  "partitions (snd (ackStmt e owner t us db)) = partitions db"
  "attempts_seq (snd (ackStmt e owner t us db)) = attempts_seq db"
  "results (snd (ackStmt e owner t (uniqueCompletions cs) db)) = results db @
     map (\<lambda>(i, u). newResult t (results_seq db + 1 + int i) (snd u)) (enumerate 0 (doneCompletions e owner cs db))"
  "results_seq (snd (ackStmt e owner t (uniqueCompletions cs) db)) = results_seq db + int (length (doneCompletions e owner cs db))"
  by (simp_all add: ackStmt_def doneCompletions_def Let_def)

lemma newResult_simps [simp]: "s_seq (newResult t n c) = n" "s_key (newResult t n c) = c_Key c"
  "s_route (newResult t n c) = c_Route c" "s_payload (newResult t n c) = c_Payload c"
  by (simp_all add: newResult_def s_key_def)

text \<open>The keys of the rows that an acknowledgement deletes are the keys of the results that it writes.\<close>

lemma ack_moves_keys:
  assumes "rows_ok db"
  shows "mset (map r_key (requests db)) = mset (map r_key (requests (snd (ackStmt e owner t (uniqueCompletions cs) db))))
    + mset (map u_key (doneCompletions e owner cs db))"
proof -
  let ?hit = "\<lambda>r. \<exists>u\<in>set (uniqueCompletions cs). acks e owner db (snd u) r"
  have "distinct (map r_key (filter ?hit (requests db)))"
    using assms by (simp add: rows_ok_def distinct_map_filter)
  moreover have "distinct (map u_key (doneCompletions e owner cs db))"
    unfolding doneCompletions_def by (rule distinct_map_filter) (rule uniqueCompletions_distinct)
  moreover have "set (map r_key (filter ?hit (requests db))) = set (map u_key (doneCompletions e owner cs db))"
    unfolding doneCompletions_def set_map set_filter
  proof (intro set_eqI iffI)
    fix k assume "k \<in> r_key ` {r \<in> set (requests db). ?hit r}"
    then obtain r u where "r \<in> set (requests db)" "k = r_key r" "u \<in> set (uniqueCompletions cs)" "acks e owner db (snd u) r"
      by auto
    moreover from this have "k = u_key u" by (simp add: acks_def u_key_def)
    ultimately show "k \<in> u_key ` {u \<in> set (uniqueCompletions cs). \<exists>r\<in>set (requests db). acks e owner db (snd u) r}" by blast
  next
    fix k assume "k \<in> u_key ` {u \<in> set (uniqueCompletions cs). \<exists>r\<in>set (requests db). acks e owner db (snd u) r}"
    then obtain r u where "r \<in> set (requests db)" "k = u_key u" "u \<in> set (uniqueCompletions cs)" "acks e owner db (snd u) r"
      by auto
    moreover from this have "k = r_key r" by (simp add: acks_def u_key_def)
    ultimately show "k \<in> r_key ` {r \<in> set (requests db). ?hit r}" by blast
  qed
  ultimately have "mset (map r_key (filter ?hit (requests db))) = mset (map u_key (doneCompletions e owner cs db))"
    by (simp only: set_eq_iff_mset_eq_distinct)
  moreover have "mset (map r_key (requests db))
      = mset (map r_key (filter ?hit (requests db))) + mset (map r_key (filter (\<lambda>r. \<not> ?hit r) (requests db)))"
    by (rule mset_map_filter_partition)
  ultimately show ?thesis by simp
qed

lemma ack_result_keys:
  "map s_key (results (snd (ackStmt e owner t (uniqueCompletions cs) db)))
     = map s_key (results db) @ map u_key (doneCompletions e owner cs db)"
proof -
  have "map s_key (map (\<lambda>(i, u). newResult t (k + int i) (snd u)) (enumerate 0 us)) = map u_key us" for k us
    by (rule nth_equalityI) (auto simp: nth_enumerate_eq u_key_def)
  then show ?thesis by simp
qed

lemma ack_rows_ok:
  assumes "rows_ok db"
  shows "rows_ok (snd (ackStmt e owner t us db))"
proof -
  have "row_ok (snd (ackStmt e owner t us db)) r = row_ok db r" for r by (simp add: row_ok_def)
  then show ?thesis using assms by (simp add: rows_ok_def distinct_map_filter)
qed

lemma ack_results_ok:
  assumes "results_ok db"
  shows "results_ok (snd (ackStmt e owner t (uniqueCompletions cs) db))"
proof -
  let ?done = "doneCompletions e owner cs db"
  have seqs: "map s_seq (map (\<lambda>(i, u). newResult t (results_seq db + 1 + int i) (snd u)) (enumerate 0 ?done))
      = map (\<lambda>i. results_seq db + 1 + int i) [0..<length ?done]"
    by (rule nth_equalityI) (auto simp: nth_enumerate_eq)
  have "distinct (map s_seq (results db) @ map (\<lambda>i. results_seq db + 1 + int i) [0..<length ?done])"
    using assms by (force simp: results_ok_def distinct_map inj_on_def)
  then have "distinct (map s_seq (results (snd (ackStmt e owner t (uniqueCompletions cs) db))))"
    by (simp only: ackStmt_simps map_append seqs)
  then show ?thesis using assms unfolding results_ok_def
    by (auto simp: in_set_enumerate_eq simp del: map_append)
qed

subsection \<open>Statements on results\<close>

lemma delete_by_seq:
  assumes "distinct (map s_seq rows)" "set gone \<subseteq> set rows" "distinct (map s_seq gone)"
  shows "mset rows = mset (filter (\<lambda>r. s_seq r \<notin> s_seq ` set gone) rows) + mset gone"
proof -
  have "set (filter (\<lambda>r. s_seq r \<in> s_seq ` set gone) rows) = set gone"
    using assms(1,2) by (auto simp: distinct_map inj_on_def)
  moreover have "distinct (filter (\<lambda>r. s_seq r \<in> s_seq ` set gone) rows)"
    using assms(1) by (simp add: distinct_map)
  moreover have "distinct gone" using assms(3) by (simp add: distinct_map)
  ultimately have *: "mset (filter (\<lambda>r. s_seq r \<in> s_seq ` set gone) rows) = mset gone"
    by (simp only: set_eq_iff_mset_eq_distinct)
  show ?thesis unfolding * [symmetric] by (subst add.commute) (rule mset_filter_partition)
qed

lemma pop_moves:
  assumes "results_ok db" "async_pop_results rlocked route limit db = (out, db')"
  shows "mset (results db) = mset (results db') + mset out"
proof -
  have out: "out = take limit (sort_key s_seq (filter (\<lambda>r. s_route r = route \<and> \<not> rlocked (s_seq r)) (results db)))"
    and res: "results db' = filter (\<lambda>r. \<not> (s_route r = route \<and> s_seq r \<in> s_seq ` set out)) (results db)"
    using assms(2) by (auto simp: async_pop_results_def Let_def)
  have sub: "set out \<subseteq> set (results db)" "\<forall>r\<in>set out. s_route r = route"
    unfolding out by (auto dest: in_set_takeD)
  have d: "distinct (map s_seq (results db))" using assms(1) by (simp add: results_ok_def)
  have "results db' = filter (\<lambda>r. s_seq r \<notin> s_seq ` set out) (results db)"
    unfolding res
  proof (rule filter_cong [OF refl])
    fix r assume "r \<in> set (results db)"
    then have "s_seq r \<in> s_seq ` set out \<Longrightarrow> r \<in> set out"
      using sub(1) d by (auto simp: distinct_map inj_on_def)
    then show "(\<not> (s_route r = route \<and> s_seq r \<in> s_seq ` set out)) = (s_seq r \<notin> s_seq ` set out)"
      using sub(2) by blast
  qed
  then show ?thesis using delete_by_seq [OF d sub(1)] distinct_take_sort_filter [OF d] out by metis
qed

lemma expireRows_moves:
  assumes "results_ok db" "expireRows rlocked now limit db = (gone, db')"
  shows "mset (results db) = mset (results db') + mset gone"
proof -
  have gone: "gone = take limit (sort_key s_expires_at (filter (\<lambda>r. expired now r \<and> \<not> rlocked (s_seq r)) (results db)))"
    and res: "results db' = filter (\<lambda>r. s_seq r \<notin> s_seq ` set gone) (results db)"
    using assms(2) by (auto simp: expireRows_def Let_def)
  have "set gone \<subseteq> set (results db)" unfolding gone by (auto dest: in_set_takeD)
  moreover have d: "distinct (map s_seq (results db))" using assms(1) by (simp add: results_ok_def)
  ultimately show ?thesis using delete_by_seq distinct_take_sort_filter [OF d] gone res by metis
qed

section \<open>What every trace keeps\<close>

lemma results_ok_filter: "results_ok db \<Longrightarrow> results db' = filter P (results db) \<Longrightarrow> results_seq db' = results_seq db \<Longrightarrow> results_ok db'"
  by (auto simp: results_ok_def distinct_map_filter)

lemma results_ok_frame: "results_ok db \<Longrightarrow> results db' = results db \<Longrightarrow> results_seq db' = results_seq db \<Longrightarrow> results_ok db'"
  by (simp add: results_ok_def)

lemma rows_ok_frame: "rows_ok db \<Longrightarrow> requests db' = requests db \<Longrightarrow> partitions db' = partitions db
    \<Longrightarrow> attempts_seq db' = attempts_seq db \<Longrightarrow> rows_ok db'"
  by (rule rows_ok_parts) simp_all

lemma enqueueTx_frame:
  "partitions (snd (enqueueTx t reqs db)) = partitions db" "results (snd (enqueueTx t reqs db)) = results db"
  "results_seq (snd (enqueueTx t reqs db)) = results_seq db" "attempts_seq (snd (enqueueTx t reqs db)) = attempts_seq db"
  by (simp_all add: enqueueTx_def split: option.splits)

lemma stmt_run_snd:
  "snd (stmt_run e (SEnqueue t reqs) db) = snd (enqueueTx t reqs db)"
  "snd (stmt_run e (SDispatch queue owner now limit) db) = snd (async_dispatch e owner queue now limit db)"
  "snd (stmt_run e (SAck owner t cs) db) = snd (ackStmt e owner t (uniqueCompletions cs) db)"
  "snd (stmt_run e (SPop rlocked route limit) db) = snd (async_pop_results rlocked route limit db)"
  "snd (stmt_run e (SExpire rlocked now n) db) = snd (expireRows rlocked now n db)"
  by (auto split: prod.splits sum.splits)

lemmas result_stmt_defs = async_pop_results_def expireRows_def expireRoute_def Let_def

lemma result_stmt_frame:
  assumes "stmt = SPop rlocked route n \<or> stmt = SExpire rlocked now n \<or> stmt = SExpireRoute route now"
  shows "(\<exists>P. results (snd (stmt_run e stmt db)) = filter P (results db)) \<and> requests (snd (stmt_run e stmt db)) = requests db
    \<and> partitions (snd (stmt_run e stmt db)) = partitions db \<and> attempts_seq (snd (stmt_run e stmt db)) = attempts_seq db
    \<and> results_seq (snd (stmt_run e stmt db)) = results_seq db"
  using assms by (elim disjE)
    (auto simp: result_stmt_defs split: prod.splits)

text \<open>Statements on requests and results leave the partitions alone.\<close>

lemma stmt_partitions: "\<not> part_stmt stmt \<Longrightarrow> partitions (snd (stmt_run e stmt db)) = partitions db"
  by (cases stmt) (auto simp: stmt_run_snd enqueueTx_frame result_stmt_defs resetRows_def undispatchRows_def retryRows_def
    cancelRows_def simp del: stmt_run.simps(1,2,7,9,10))

lemma stmt_rows_ok:
  assumes "sql_inv (hist, db)" "stmt_ok stmt" "sees e hist" "\<not> part_stmt stmt"
  shows "rows_ok (snd (stmt_run e stmt db))"
proof -
  have ok: "rows_ok db" "0 \<le> attempts_seq db" using assms(1) by auto
  consider (enq) t reqs where "stmt = SEnqueue t reqs" | (disp) q ow n lim where "stmt = SDispatch q ow n lim"
    | (ack) ow t cs where "stmt = SAck ow t cs" | (lab) "relabel_stmt stmt"
    | (res) rl ro n now where "stmt = SPop rl ro n \<or> stmt = SExpire rl now n \<or> stmt = SExpireRoute ro now"
    using assms(4) by (cases stmt) auto
  then show ?thesis
  proof cases
    case enq
    then show ?thesis using enqueue_rows_ok ok by (simp only: stmt_run_snd)
  next
    case disp
    then show ?thesis using dispatch_rows_ok [OF assms(1,3)] assms(2) by (simp only: stmt_run_snd stmt_ok.simps)
  next
    case ack
    then show ?thesis using ack_rows_ok ok by (simp only: stmt_run_snd)
  next
    case lab
    obtain evs db' where r: "stmt_run e stmt db = (evs, db')" by fastforce
    with relabel_stmt_map [OF lab r] relabel_rows_ok ok show ?thesis by auto
  next
    case res
    then show ?thesis using rows_ok_frame [OF ok(1)] result_stmt_frame by metis
  qed
qed

lemma stmt_results_ok:
  assumes "results_ok db"
  shows "results_ok (snd (stmt_run e stmt db))"
proof -
  consider (enq) t reqs where "stmt = SEnqueue t reqs" | (disp) q ow n lim where "stmt = SDispatch q ow n lim"
    | (ack) ow t cs where "stmt = SAck ow t cs" | (lab) "relabel_stmt stmt" | (part) "part_stmt stmt"
    | (res) rl ro n now where "stmt = SPop rl ro n \<or> stmt = SExpire rl now n \<or> stmt = SExpireRoute ro now"
    by (cases stmt) auto
  then show ?thesis
  proof cases
    case enq
    then show ?thesis using results_ok_frame assms enqueueTx_frame by (simp only: stmt_run_snd)
  next
    case disp
    then show ?thesis using results_ok_frame assms by (simp only: stmt_run_snd async_dispatch_simps)
  next
    case ack
    then show ?thesis using ack_results_ok assms by (simp only: stmt_run_snd)
  next
    case lab
    obtain evs db' where r: "stmt_run e stmt db = (evs, db')" by fastforce
    with relabel_stmt_map [OF lab r] show ?thesis by (auto intro: results_ok_frame [OF assms])
  next
    case part
    obtain evs db' where r: "stmt_run e stmt db = (evs, db')" by fastforce
    with part_stmt_frame [OF part r] show ?thesis by (auto intro: results_ok_frame [OF assms])
  next
    case res
    then show ?thesis using results_ok_filter [OF assms] result_stmt_frame by metis
  qed
qed

lemma stmt_attempts: "attempts_seq db \<le> attempts_seq (snd (stmt_run e stmt db))"
  by (cases stmt) (auto simp: stmt_run_snd enqueueTx_frame result_stmt_defs resetRows_def undispatchRows_def retryRows_def
    cancelRows_def part_stmt_defs simp del: stmt_run.simps(1,2,7,9,10))

lemma stmt_inv:
  assumes "sql_inv (hist, db)" "stmt_ok stmt" "sees e hist" "stmt_run e stmt db = (evs, db')"
  shows "sql_inv (partitions db' # hist, db')"
proof -
  have db': "db' = snd (stmt_run e stmt db)" using assms(4) by simp
  have ok: "parts_ok (partitions db)" "rows_ok db" "results_ok db" "0 \<le> attempts_seq db" using assms(1) by auto
  have parts: "parts_ok (partitions db') \<and> parts_le (partitions db) (partitions db')"
    using part_stmt_parts [OF _ assms(4) ok(1)] stmt_partitions [of stmt e db] ok(1) unfolding db'
    by (cases "part_stmt stmt") auto
  moreover have "rows_ok db'"
  proof (cases "part_stmt stmt")
    case True
    then show ?thesis using part_stmt_frame [OF True assms(4)] rows_ok_parts [OF ok(2)] parts by blast
  next
    case False
    then show ?thesis using stmt_rows_ok [OF assms(1-3)] by (simp add: db')
  qed
  moreover have "results_ok db'" using stmt_results_ok [OF ok(3)] by (simp add: db')
  moreover have "0 \<le> attempts_seq db'" using stmt_attempts [of db e stmt] ok(4) by (simp add: db')
  ultimately show ?thesis using assms(1) parts_le_trans by auto
qed

lemma sql_trace_inv: "sql_trace c evs c' \<Longrightarrow> sql_inv c \<Longrightarrow> sql_inv c'"
  by (induction rule: sql_trace.induct) (auto intro: stmt_inv simp del: sql_inv.simps)

lemma sql_start_inv: "sql_inv sql_start"
  by (simp add: sql_start_def emptyDb_def parts_ok_def rows_ok_def results_ok_def)

section \<open>Requests are neither lost nor answered twice\<close>

fun enqueued_key :: "sql_event \<Rightarrow> Key list" where
  "enqueued_key (Enqueued k) = [k]" | "enqueued_key _ = []"

fun acked_key :: "sql_event \<Rightarrow> Key list" where
  "acked_key (Acked k) = [k]" | "acked_key _ = []"

fun out_key :: "sql_event \<Rightarrow> Key list" where
  "out_key (Popped k) = [k]" | "out_key (Expired k) = [k]" | "out_key _ = []"

definition enqueuedKeys :: "sql_event list \<Rightarrow> Key multiset" where
  "enqueuedKeys evs = mset (concat (map enqueued_key evs))"

definition ackedKeys :: "sql_event list \<Rightarrow> Key multiset" where
  "ackedKeys evs = mset (concat (map acked_key evs))"

text \<open>Results that left the table: handed to a caller of \<open>PopResults\<close>, or past their expiry.\<close>

definition outKeys :: "sql_event list \<Rightarrow> Key multiset" where
  "outKeys evs = mset (concat (map out_key evs))"

lemma keys_append [simp]:
  "enqueuedKeys (xs @ ys) = enqueuedKeys xs + enqueuedKeys ys"
  "ackedKeys (xs @ ys) = ackedKeys xs + ackedKeys ys"
  "outKeys (xs @ ys) = outKeys xs + outKeys ys"
  by (simp_all add: enqueuedKeys_def ackedKeys_def outKeys_def)

lemma keys_Nil [simp]: "enqueuedKeys [] = {#}" "ackedKeys [] = {#}" "outKeys [] = {#}"
  by (simp_all add: enqueuedKeys_def ackedKeys_def outKeys_def)

lemma concat_single: "concat (map (\<lambda>x. [f x]) xs) = map f xs"
  by (induction xs) auto

lemma concat_empty: "concat (map (\<lambda>x. []) xs) = []"
  by (induction xs) auto

lemma keys_map [simp]:
  "enqueuedKeys (map (\<lambda>x. Enqueued (f x)) xs) = mset (map f xs)" "enqueuedKeys (map (\<lambda>x. Dispatched o1 (f x) (g x)) xs) = {#}"
  "enqueuedKeys (map (\<lambda>x. Acked (f x)) xs) = {#}" "enqueuedKeys (map (\<lambda>x. Popped (f x)) xs) = {#}"
  "enqueuedKeys (map (\<lambda>x. Expired (f x)) xs) = {#}"
  "ackedKeys (map (\<lambda>x. Enqueued (f x)) xs) = {#}" "ackedKeys (map (\<lambda>x. Dispatched o1 (f x) (g x)) xs) = {#}"
  "ackedKeys (map (\<lambda>x. Acked (f x)) xs) = mset (map f xs)" "ackedKeys (map (\<lambda>x. Popped (f x)) xs) = {#}"
  "ackedKeys (map (\<lambda>x. Expired (f x)) xs) = {#}"
  "outKeys (map (\<lambda>x. Enqueued (f x)) xs) = {#}" "outKeys (map (\<lambda>x. Dispatched o1 (f x) (g x)) xs) = {#}"
  "outKeys (map (\<lambda>x. Acked (f x)) xs) = {#}" "outKeys (map (\<lambda>x. Popped (f x)) xs) = mset (map f xs)"
  "outKeys (map (\<lambda>x. Expired (f x)) xs) = mset (map f xs)"
  by (simp_all add: enqueuedKeys_def ackedKeys_def outKeys_def comp_def concat_single concat_empty)

definition liveKeys :: "sql_db \<Rightarrow> Key multiset" where
  "liveKeys db = mset (map r_key (requests db))"

definition resultKeys :: "sql_db \<Rightarrow> Key multiset" where
  "resultKeys db = mset (map s_key (results db))"

definition balanced :: "sql_db \<Rightarrow> sql_event list \<Rightarrow> sql_db \<Rightarrow> bool" where
  "balanced db evs db' \<longleftrightarrow> liveKeys db + enqueuedKeys evs = liveKeys db' + ackedKeys evs
     \<and> resultKeys db + ackedKeys evs = resultKeys db' + outKeys evs"

lemma stmt_balanced:
  assumes "sql_inv (hist, db)" "stmt_run e stmt db = (evs, db')"
  shows "balanced db evs db'"
proof -
  have ok: "rows_ok db" "results_ok db" using assms(1) by auto
  consider (enq) t reqs where "stmt = SEnqueue t reqs" | (disp) q ow n lim where "stmt = SDispatch q ow n lim"
    | (ack) ow t cs where "stmt = SAck ow t cs" | (lab) "relabel_stmt stmt" | (part) "part_stmt stmt"
    | (pop) rl ro n where "stmt = SPop rl ro n" | (exp) rl now n where "stmt = SExpire rl now n"
    | (expr) ro now where "stmt = SExpireRoute ro now"
    by (cases stmt) auto
  then show ?thesis
  proof cases
    case enq
    then show ?thesis using assms(2) ok(1)
      by (auto simp: enqueueTx_eq balanced_def liveKeys_def resultKeys_def simp flip: mset_map split: if_splits)
  next
    case disp
    then have "evs = map (\<lambda>r. Dispatched ow (r_key r) (r_attempt r)) (fst (async_dispatch e ow q n lim db))"
      "db' = snd (async_dispatch e ow q n lim db)" using assms(2)
      by (auto split: prod.splits simp del: async_dispatch_simps)
    then show ?thesis by (simp add: balanced_def liveKeys_def resultKeys_def replaceRows_keys del: mset_map)
  next
    case ack
    then have "evs = map (\<lambda>u. Acked (u_key u)) (fst (ackStmt e ow t (uniqueCompletions cs) db))"
      "db' = snd (ackStmt e ow t (uniqueCompletions cs) db)" using assms(2)
      by (auto simp: u_key_def split: prod.splits simp del: ackStmt_simps)
    then show ?thesis using ack_moves_keys [OF ok(1), of e ow t cs]
      by (simp add: balanced_def liveKeys_def resultKeys_def ack_result_keys del: mset_map ackStmt_simps(2,5))
  next
    case lab
    with relabel_stmt_map [OF lab assms(2)] show ?thesis
      by (auto simp: balanced_def liveKeys_def resultKeys_def relabels_keys simp del: mset_map map_map)
  next
    case part
    with part_stmt_frame [OF part assms(2)] show ?thesis
      by (simp add: balanced_def liveKeys_def resultKeys_def)
  next
    case pop
    obtain out where out: "async_pop_results rl ro n db = (out, db')" "evs = map (\<lambda>r. Popped (s_key r)) out"
      using assms(2) pop by (auto split: prod.splits)
    then have "requests db' = requests db" by (auto simp: async_pop_results_def Let_def)
    with pop_moves [OF ok(2) out(1)] out(2) show ?thesis by (simp add: balanced_def liveKeys_def resultKeys_def)
  next
    case exp
    obtain out where out: "expireRows rl now n db = (out, db')" "evs = map (\<lambda>r. Expired (s_key r)) out"
      using assms(2) exp by (auto split: prod.splits)
    then have "requests db' = requests db" by (auto simp: expireRows_def Let_def)
    with expireRows_moves [OF ok(2) out(1)] out(2) show ?thesis by (simp add: balanced_def liveKeys_def resultKeys_def)
  next
    case expr
    have "mset (results db) = mset (filter (\<lambda>r. \<not> (s_route r = ro \<and> expired now r)) (results db))
        + mset (filter (\<lambda>r. s_route r = ro \<and> expired now r) (results db))"
      by (subst add.commute) (rule mset_filter_partition)
    then have "mset (map s_key (results db)) = mset (map s_key (filter (\<lambda>r. \<not> (s_route r = ro \<and> expired now r)) (results db)))
        + mset (map s_key (filter (\<lambda>r. s_route r = ro \<and> expired now r) (results db)))"
      by (simp only: mset_map image_mset_union)
    with expr assms(2) show ?thesis
      by (auto simp: balanced_def liveKeys_def resultKeys_def expireRoute_def simp del: mset_map mset_filter)
  qed
qed

lemma balanced_trans: "balanced a xs b \<Longrightarrow> balanced b ys c \<Longrightarrow> balanced a (xs @ ys) c"
  unfolding balanced_def by (simp add: add.assoc [symmetric])

lemma trace_balanced: "sql_trace c evs c' \<Longrightarrow> sql_inv c \<Longrightarrow> balanced (snd c) evs (snd c')"
proof (induction rule: sql_trace.induct)
  case (sql_refl c)
  then show ?case by (simp add: balanced_def)
next
  case (sql_step c evs hist db stmt e evs' db')
  then have "sql_inv (hist, db)" using sql_trace_inv by blast
  then have "balanced db evs' db'" using stmt_balanced sql_step by blast
  with sql_step show ?case using balanced_trans by simp
qed

section \<open>Fencing\<close>

definition live_stamp :: "Stamp \<Rightarrow> sql_db \<Rightarrow> bool" where
  "live_stamp st db \<longleftrightarrow> (\<exists>r\<in>set (requests db). r_key r = st_Key st \<and> 0 < r_epoch r \<and> r_attempt r = st_Attempt st)"

text \<open>An attempt that has been drawn and is not on its row any more does not come back.\<close>

definition dead_stamp :: "Stamp \<Rightarrow> sql_db \<Rightarrow> bool" where
  "dead_stamp st db \<longleftrightarrow> st_Attempt st \<le> attempts_seq db \<and> \<not> live_stamp st db"

lemma dead_stamp_rows:
  assumes "dead_stamp st db" "attempts_seq db \<le> attempts_seq db'"
    and "\<And>r'. r' \<in> set (requests db') \<Longrightarrow> r_epoch r' = 0 \<or> attempts_seq db < r_attempt r'
           \<or> (\<exists>r\<in>set (requests db). r_key r = r_key r' \<and> r_epoch r = r_epoch r' \<and> r_attempt r = r_attempt r')"
  shows "dead_stamp st db'"
proof -
  have "\<not> live_stamp st db'"
  proof
    assume "live_stamp st db'"
    then obtain r' where r': "r' \<in> set (requests db')" "r_key r' = st_Key st" "0 < r_epoch r'" "r_attempt r' = st_Attempt st"
      by (auto simp: live_stamp_def)
    with assms(3) [OF r'(1)] assms(1) have "\<exists>r\<in>set (requests db). r_key r = r_key r' \<and> r_epoch r = r_epoch r' \<and> r_attempt r = r_attempt r'"
      by (auto simp: dead_stamp_def)
    with r' assms(1) show False by (auto simp: dead_stamp_def live_stamp_def)
  qed
  with assms(1,2) show ?thesis by (simp add: dead_stamp_def)
qed

lemma stmt_dead_stamp:
  assumes "sql_inv (hist, db)" "stmt_run e stmt db = (evs, db')" "dead_stamp st db"
  shows "dead_stamp st db'"
proof (rule dead_stamp_rows [OF assms(3)])
  show "attempts_seq db \<le> attempts_seq db'" using stmt_attempts [of db e stmt] assms(2) by simp
next
  fix r' assume r': "r' \<in> set (requests db')"
  have ok: "rows_ok db" using assms(1) by auto
  consider (enq) t reqs where "stmt = SEnqueue t reqs" | (disp) q ow n lim where "stmt = SDispatch q ow n lim"
    | (ack) ow t cs where "stmt = SAck ow t cs" | (lab) "relabel_stmt stmt" | (part) "part_stmt stmt"
    | (res) rl ro n now where "stmt = SPop rl ro n \<or> stmt = SExpire rl now n \<or> stmt = SExpireRoute ro now"
    by (cases stmt) auto
  then show "r_epoch r' = 0 \<or> attempts_seq db < r_attempt r'
      \<or> (\<exists>r\<in>set (requests db). r_key r = r_key r' \<and> r_epoch r = r_epoch r' \<and> r_attempt r = r_attempt r')"
  proof cases
    case enq
    then have "r' \<in> set (requests db) \<or> r' \<in> set (chunkRows t 0 reqs)"
      using assms(2) ok r' by (auto simp: enqueueTx_eq split: if_splits)
    then show ?thesis by (auto simp: chunkRows_def)
  next
    case disp
    then have "db' = snd (async_dispatch e ow q n lim db)" using stmt_run_snd(2) assms(2) by (metis snd_conv)
    with r' have "r' \<in> set (stamped e q ow n lim db) \<or> r' \<in> set (requests db)"
      using replaceRows_cases by fastforce
    then show ?thesis by (auto elim: stamped_cases)
  next
    case ack
    then have "db' = snd (ackStmt e ow t (uniqueCompletions cs) db)" using stmt_run_snd(3) assms(2) by (metis snd_conv)
    with r' show ?thesis by auto
  next
    case lab
    obtain g where g: "relabels g" "db' = db \<lparr> requests := map g (requests db) \<rparr>"
      using relabel_stmt_map [OF lab assms(2)] by auto
    then obtain r where r: "r \<in> set (requests db)" "r' = g r" using r' by auto
    have "r_epoch (g r) = r_epoch r \<or> r_epoch (g r) = 0" "r_attempt (g r) = r_attempt r" "r_key (g r) = r_key r"
      using g(1) relabels_key by (auto simp: relabels_def)
    with r show ?thesis by metis
  next
    case part
    then show ?thesis using part_stmt_frame [OF part assms(2)] r' by auto
  next
    case res
    then have "requests db' = requests db" using result_stmt_frame assms(2) by (metis snd_conv)
    with r' show ?thesis by auto
  qed
qed

lemma trace_dead_stamp: "sql_trace c evs c' \<Longrightarrow> sql_inv c \<Longrightarrow> dead_stamp st (snd c) \<Longrightarrow> dead_stamp st (snd c')"
proof (induction rule: sql_trace.induct)
  case (sql_step c evs hist db stmt e evs' db')
  then have "sql_inv (hist, db)" using sql_trace_inv by blast
  with sql_step show ?case using stmt_dead_stamp by auto
qed simp

lemma dead_stamp_carries: "dead_stamp st db \<Longrightarrow> r \<in> set (requests db) \<Longrightarrow> \<not> carries e owner db st r"
  by (auto simp: dead_stamp_def live_stamp_def carries_def)

lemma dead_stamp_undispatch:
  assumes "\<forall>st\<in>set sts. dead_stamp st db"
  shows "undispatchRows e owner sts notBefore db = db"
proof -
  have "map (\<lambda>r. if \<exists>st\<in>set sts. carries e owner db st r
      then r \<lparr> r_epoch := 0, r_not_before := max (r_not_before r) notBefore \<rparr> else r) (requests db) = requests db"
    using assms dead_stamp_carries by (intro map_idI) auto
  then show ?thesis by (simp add: undispatchRows_def)
qed

lemma uniqueStamps_subset: "set (uniqueStamps seen sts) \<subseteq> set sts"
  by (induction seen sts rule: uniqueStamps.induct) auto

lemma dead_stamp_retry:
  assumes "dead_stamp st db"
  shows "retryRows e owner st notBefore envelope db = db \<and> filter (carries e owner db st) (requests db) = []"
proof -
  have "map (\<lambda>r. if carries e owner db st r
      then r \<lparr> r_epoch := 0, r_not_before := notBefore, r_envelope := envelope \<rparr> else r) (requests db) = requests db"
    using assms dead_stamp_carries by (intro map_idI) auto
  then show ?thesis using assms dead_stamp_carries by (auto simp: retryRows_def filter_empty_conv)
qed

lemma dead_stamp_acks:
  "dead_stamp \<lparr> st_Key = c_Key c, st_Attempt = c_Attempt c \<rparr> db \<Longrightarrow> r \<in> set (requests db) \<Longrightarrow> \<not> acks e owner db c r"
  by (auto simp: dead_stamp_def live_stamp_def acks_def)

lemma exec_same: "snd answer = db \<Longrightarrow> snd (exec e answer db) = db"
  by (simp add: exec_def split: db_fault.splits)

section \<open>Order of dispatch\<close>

lemma sort_take_least:
  assumes "x \<in> set xs" "x \<notin> set (take n (sort_key f xs))"
  shows "length (take n (sort_key f xs)) = n \<and> (\<forall>y\<in>set (take n (sort_key f xs)). f y \<le> f x)"
proof -
  have split: "sort_key f xs = take n (sort_key f xs) @ drop n (sort_key f xs)" by simp
  have "x \<in> set (sort_key f xs)" using assms(1) by simp
  then have x: "x \<in> set (drop n (sort_key f xs))"
    using assms(2) split by (metis Un_iff set_append)
  then have "n \<le> length (sort_key f xs)" by (metis drop_all empty_iff list.set(1) nle_le)
  moreover have "sorted (map f (take n (sort_key f xs)) @ map f (drop n (sort_key f xs)))"
    by (metis split map_append sorted_sort_key)
  ultimately show ?thesis using x by (auto simp: sorted_append)
qed

lemma picked_sorted: "sorted (map edf (picked e queue owner now limit db))"
  unfolding picked_def by (metis sorted_sort_key sorted_wrt_take take_map)

lemma stamped_edf: "map edf (stamped e queue owner now limit db) = map edf (picked e queue owner now limit db)"
  by (rule nth_equalityI) (simp_all add: length_stamped nth_stamped)

lemma stamped_edf_ball:
  assumes "\<forall>m\<in>set (picked e queue owner now limit db). edf m \<le> x" "n \<in> set (stamped e queue owner now limit db)"
  shows "edf n \<le> x"
proof -
  have "edf n \<in> edf ` set (picked e queue owner now limit db)"
    using assms(2) unfolding list.set_map [symmetric] stamped_edf [symmetric] by simp
  with assms(1) show ?thesis by auto
qed

lemma scanRow_simps [simp]: "Request_Key (scanRow r) = r_key r" "rq_Attempt (scanRow r) = r_attempt r" "rq_Epoch (scanRow r) = r_epoch r"
  "(rq_Deadline (scanRow r), rq_createdAt (scanRow r)) = edf r" "Request_Stamp (scanRow r) = \<lparr> st_Key = r_key r, st_Attempt = r_attempt r \<rparr>"
  by (simp_all add: scanRow_def Request_Key_def Request_Stamp_def r_key_def edf_def)

lemma map_scanRow_edf: "map (\<lambda>q. (rq_Deadline q, rq_createdAt q)) (map scanRow rows) = map edf rows"
  by simp

lemma Store_Dispatch_rows:
  assumes "e_fault e = NoFault" "0 \<le> limit"
  shows "Store_Dispatch e queue owner now limit db =
    (Inr (map scanRow (stamped e queue owner (now div 1000000000) (nat limit) db)),
     snd (async_dispatch e owner queue (now div 1000000000) (nat limit) db))"
proof -
  let ?st = "stamped e queue owner (now div 1000000000) (nat limit) db"
  have "map (\<lambda>r. (rq_Deadline r, rq_createdAt r)) (map scanRow ?st) = map edf ?st" by simp
  then have "sorted (map (\<lambda>r. (rq_Deadline r, rq_createdAt r)) (map scanRow ?st))"
    using picked_sorted stamped_edf by metis
  then have "sort_key (\<lambda>r. (rq_Deadline r, rq_createdAt r)) (map scanRow ?st) = map scanRow ?st"
    by (rule sort_key_id_if_sorted)
  then show ?thesis using assms by (simp add: Store_Dispatch_def exec_def async_dispatch_def Let_def)
qed

lemma stamped_in_table:
  assumes "sql_inv (hist, db)" "n \<in> set (stamped e queue owner now limit db)"
  shows "n \<in> set (replaceRows (stamped e queue owner now limit db) (requests db))"
proof -
  let ?new = "stamped e queue owner now limit db"
  from assms(2) obtain i r where r: "n = stampRow e db i r" "r \<in> set (requests db)" by (rule stamped_cases)
  have "distinct (map r_key (picked e queue owner now limit db))"
    unfolding picked_def using assms(1) by (intro distinct_take_sort_filter) (simp add: rows_ok_def)
  then have d: "inj_on r_key (set ?new)" by (metis distinct_map stamped_keys)
  have "find (\<lambda>m. r_key m = r_key r) ?new \<noteq> None" using assms(2) r(1) by (auto simp: find_None_iff)
  then obtain m where m: "find (\<lambda>m. r_key m = r_key r) ?new = Some m" by auto
  then have "m \<in> set ?new" "r_key m = r_key n" using r(1) by (auto simp: find_Some_iff)
  then have "m = n" using d assms(2) by (simp add: inj_on_def)
  with m r(2) show ?thesis by (force simp: replaceRows_def)
qed

text \<open>
  C11: On every reachable state, and whatever snapshot of the partitions the statement sees, a dispatch
  returns at most \<open>limit\<close> requests in deadline order, ties in submission order. Each was pending, due, and
  in a partition that its caller holds and does not drain; each is stamped in the table with a fresh
  attempt and a positive epoch. A request that could have been returned and was not is no earlier than
  any that was, and is left only because the limit is reached.
\<close>

theorem dispatch_earliest_deadline_first:
  assumes "sql_trace sql_start evs (hist, db)" "sees e hist" "owner \<noteq> []" "e_fault e = NoFault" "0 \<le> limit"
    and "Store_Dispatch e queue owner now limit db = (res, db')"
  shows "\<exists>out. res = Inr out \<and> length out \<le> nat limit
    \<and> sorted (map (\<lambda>q. (rq_Deadline q, rq_createdAt q)) out) \<and> distinct (map Request_Key out)
    \<and> (\<forall>q\<in>set out. \<exists>r\<in>set (requests db). r_key r = Request_Key q \<and> dispatchable e queue owner (now div 1000000000) db r
         \<and> attempts_seq db < rq_Attempt q \<and> 0 < rq_Epoch q \<and> live_stamp (Request_Stamp q) db')
    \<and> (\<forall>r\<in>set (requests db). dispatchable e queue owner (now div 1000000000) db r \<longrightarrow> r_key r \<notin> Request_Key ` set out
         \<longrightarrow> length out = nat limit \<and> (\<forall>q\<in>set out. (rq_Deadline q, rq_createdAt q) \<le> (r_deadline r, r_created_at r)))"
proof -
  let ?now = "now div 1000000000"
  let ?st = "stamped e queue owner ?now (nat limit) db"
  let ?pk = "picked e queue owner ?now (nat limit) db"
  have inv: "sql_inv (hist, db)" using sql_trace_inv [OF assms(1) sql_start_inv] .
  have res: "res = Inr (map scanRow ?st)" "db' = snd (async_dispatch e owner queue ?now (nat limit) db)"
    using Store_Dispatch_rows [OF assms(4,5)] assms(6) by auto
  have len: "length ?pk \<le> nat limit" by (simp add: picked_def)
  have "sorted (map edf ?st)" using picked_sorted stamped_edf by metis
  then have sorted: "sorted (map (\<lambda>q. (rq_Deadline q, rq_createdAt q)) (map scanRow ?st))"
    by (simp only: map_scanRow_edf)
  have "distinct (map r_key ?pk)"
    unfolding picked_def using inv by (intro distinct_take_sort_filter) (simp add: rows_ok_def)
  then have "distinct (map r_key ?st)" by (simp only: stamped_keys)
  then have dist: "distinct (map Request_Key (map scanRow ?st))" by (simp add: comp_def)
  have each: "\<exists>r\<in>set (requests db). r_key r = r_key n \<and> dispatchable e queue owner ?now db r
       \<and> attempts_seq db < r_attempt n \<and> 0 < r_epoch n \<and> live_stamp \<lparr> st_Key = r_key n, st_Attempt = r_attempt n \<rparr> db'"
    if n: "n \<in> set ?st" for n
  proof -
    have "0 < r_epoch n" using stamped_row_ok [OF inv assms(2,3) n] by simp
    moreover from this have "live_stamp \<lparr> st_Key = r_key n, st_Attempt = r_attempt n \<rparr> db'"
      unfolding live_stamp_def res(2) async_dispatch_simps using stamped_in_table [OF inv n] by (intro bexI [of _ n]) simp_all
    moreover from n obtain i r where "n = stampRow e db i r" "r \<in> set (requests db)" "dispatchable e queue owner ?now db r"
      "r_attempt n = attempts_seq db + 1 + int i" by (rule stamped_cases)
    ultimately show ?thesis by (intro bexI [of _ r]) simp_all
  qed
  have rest: "length ?pk = nat limit \<and> (\<forall>n\<in>set ?st. edf n \<le> edf r)"
    if r: "r \<in> set (requests db)" "dispatchable e queue owner ?now db r" "r_key r \<notin> r_key ` set ?st" for r
  proof -
    have "r \<notin> set ?pk" using r(3) stamped_keys by (metis image_eqI list.set_map)
    then have "length ?pk = nat limit \<and> (\<forall>n\<in>set ?pk. edf n \<le> edf r)"
      unfolding picked_def using r(1,2) by (intro sort_take_least) auto
    then show ?thesis using stamped_edf_ball by blast
  qed
  have "Request_Key ` set (map scanRow ?st) = r_key ` set ?st" by (simp add: image_image)
  then show ?thesis using len sorted dist each rest
    by (intro exI [of _ "map scanRow ?st"]) (simp add: res length_stamped edf_def [symmetric])
qed

lemma trace_attempts:
  "sql_trace c evs c' \<Longrightarrow> sql_inv c \<Longrightarrow> Dispatched owner k a \<in> set evs \<Longrightarrow> a \<le> attempts_seq (snd c')"
proof (induction rule: sql_trace.induct)
  case (sql_step c evs hist db stmt e evs' db')
  have mono: "attempts_seq db \<le> attempts_seq db'" using stmt_attempts [of db e stmt] sql_step.hyps(4) by simp
  show ?case
  proof (cases "Dispatched owner k a \<in> set evs")
    case True
    with sql_step mono show ?thesis by simp
  next
    case False
    then have ev: "Dispatched owner k a \<in> set evs'" using sql_step.prems by simp
    have "\<exists>q ow n lim. stmt = SDispatch q ow n lim"
    proof (cases "part_stmt stmt \<or> relabel_stmt stmt")
      case True
      then show ?thesis using part_stmt_frame [OF _ sql_step.hyps(4)] relabel_stmt_map [OF _ sql_step.hyps(4)] ev by auto
    next
      case False
      then show ?thesis using sql_step.hyps(4) ev
        by (cases stmt) (auto split: prod.splits sum.splits)
    qed
    then obtain q ow n lim where st: "stmt = SDispatch q ow n lim" by blast
    then have "evs' = map (\<lambda>r. Dispatched ow (r_key r) (r_attempt r)) (stamped e q ow n lim db)"
      and db': "db' = snd (async_dispatch e ow q n lim db)"
      using sql_step.hyps(4) by (auto simp: async_dispatch_def Let_def)
    then obtain r where "r \<in> set (stamped e q ow n lim db)" "a = r_attempt r" using ev by auto
    then have "a \<in> set (map r_attempt (stamped e q ow n lim db))" by simp
    then show ?thesis unfolding stamped_attempts by (auto simp: db' length_stamped)
  qed
qed simp

lemma sql_start_trace_inv: "sql_trace sql_start evs (hist, db) \<Longrightarrow> sql_inv (hist, db)"
  using sql_trace_inv sql_start_inv by blast

section \<open>The properties of traces\<close>

text \<open>
  C2: Whatever the callers do, in whatever order their statements commit and whichever answers are lost,
  every accepted request is, counted with multiplicity, still in the queue, or in the result table, or
  its result was handed out or expired: no request is lost and none has two results.
\<close>

theorem requests_are_conserved:
  assumes "sql_trace sql_start evs (hist, db)"
  shows "enqueuedKeys evs = liveKeys db + resultKeys db + outKeys evs \<and> ackedKeys evs = resultKeys db + outKeys evs
    \<and> distinct (map r_key (requests db))"
proof -
  have "balanced emptyDb evs db" using trace_balanced [OF assms sql_start_inv] by (simp add: sql_start_def)
  then show ?thesis using sql_start_trace_inv [OF assms]
    by (auto simp: balanced_def liveKeys_def resultKeys_def emptyDb_def rows_ok_def)
qed

text \<open>
  C4: Once a request no longer carries the attempt of a dispatch, because it was reset, given back,
  retried, acknowledged or dispatched anew, the holder of that attempt can change nothing, at any later
  time: its acknowledgement writes no result and reports false, its retry reports false, and its
  undispatch and its deferral leave the tables as they are.
\<close>

theorem stale_attempt_is_fenced:
  assumes "sql_trace sql_start evs (hist, db)" "Dispatched owner k a \<in> set evs"
    and "\<not> live_stamp \<lparr> st_Key = k, st_Attempt = a \<rparr> db" "sql_trace (hist, db) evs' (hist', db')"
  shows "snd (Store_Retry e owner \<lparr> st_Key = k, st_Attempt = a \<rparr> notBefore envelope db') = db'
    \<and> (e_fault e = NoFault \<longrightarrow> fst (Store_Retry e owner \<lparr> st_Key = k, st_Attempt = a \<rparr> notBefore envelope db') = Inr False)
    \<and> snd (Store_Undispatch e owner [\<lparr> st_Key = k, st_Attempt = a \<rparr>] db') = db'
    \<and> snd (Store_Defer e owner [\<lparr> st_Key = k, st_Attempt = a \<rparr>] notBefore db') = db'
    \<and> snd (Store_Ack e owner t [\<lparr> c_Key = k, c_Attempt = a, c_Route = route, c_Payload = payload, c_ExpiresAt = x \<rparr>] db') = db'
    \<and> (e_fault e = NoFault \<longrightarrow>
         fst (Store_Ack e owner t [\<lparr> c_Key = k, c_Attempt = a, c_Route = route, c_Payload = payload, c_ExpiresAt = x \<rparr>] db') = Inr [False])"
proof -
  let ?st = "\<lparr> st_Key = k, st_Attempt = a \<rparr>"
  let ?c = "\<lparr> c_Key = k, c_Attempt = a, c_Route = route, c_Payload = payload, c_ExpiresAt = x \<rparr>"
  have "a \<le> attempts_seq db" using trace_attempts [OF assms(1)] assms(2) sql_start_inv by simp
  then have "dead_stamp ?st db" using assms(3) by (simp add: dead_stamp_def)
  then have dead: "dead_stamp ?st db'"
    using trace_dead_stamp [OF assms(4) sql_start_trace_inv [OF assms(1)]] by simp
  have "ackStmt e owner t (uniqueCompletions [?c]) db' = ([], db')"
    using dead_stamp_acks [of ?c db'] dead by (simp add: ackStmt_def uniqueCompletions_def addCompletion_def filter_empty_conv)
  then have "snd (Store_Ack e owner t [?c] db') = db'" "e_fault e = NoFault \<Longrightarrow> fst (Store_Ack e owner t [?c] db') = Inr [False]"
    by (simp_all add: Store_Ack_def exec_same) (simp add: exec_def)
  moreover have "snd (undispatch e owner [?st] nb db') = db'" for nb
    using dead_stamp_undispatch [of "[?st]" db'] dead by (simp add: undispatch_def exec_same)
  moreover have "snd (Store_Retry e owner ?st notBefore envelope db') = db'"
      "e_fault e = NoFault \<Longrightarrow> fst (Store_Retry e owner ?st notBefore envelope db') = Inr False"
    using dead_stamp_retry [OF dead] by (simp_all add: Store_Retry_def exec_same) (simp add: exec_def oneRow_def)
  ultimately show ?thesis by (simp add: Store_Undispatch_def Store_Defer_def)
qed

lemma chunkRows_upt: "chunkRows t 0 reqs = map (\<lambda>i. newRow (t + int i) (reqs ! i)) [0..<length reqs]"
  by (rule nth_equalityI) (simp_all add: chunkRows_def nth_enumerate_eq)

text \<open>
  C25: An enqueue is one insertion of all its requests, as if it had no chunks, and stamps them with
  consecutive creation times: it succeeds, when the database answers, exactly when all keys are new; a
  failed call has inserted nothing, or everything if only the answer was lost.
\<close>

theorem enqueue_is_one_insert:
  assumes "sql_trace sql_start evs (hist, db)" "Store_Enqueue e t reqs db = (res, db')"
  shows "(res = Inr () \<longrightarrow> requests db' = requests db @ map (\<lambda>i. newRow (t + int i) (reqs ! i)) [0..<length reqs])
    \<and> (\<forall>er. res = Inl er \<longrightarrow> requests db' = requests db
         \<or> e_fault e = AnswerLost \<and> requests db' = requests db @ map (\<lambda>i. newRow (t + int i) (reqs ! i)) [0..<length reqs])
    \<and> (e_fault e = NoFault \<longrightarrow> (res = Inr () \<longleftrightarrow> distinct (map r_key (requests db) @ map Request_Key reqs)))"
proof -
  have ok: "rows_ok db" using sql_start_trace_inv [OF assms(1)] by simp
  show ?thesis using assms(2) ok
    by (cases "e_fault e")
      (auto simp: Store_Enqueue_def exec_def enqueueTx_eq chunkRows_upt rows_ok_def split: if_splits)
qed

lemma Store_Ack_done:
  assumes "e_fault e = NoFault" "cs \<noteq> []"
  shows "Store_Ack e owner t cs db =
    (Inr (map (\<lambda>i. i \<in> fst ` set (doneCompletions e owner cs db)) [0..<length cs]), snd (ackStmt e owner t (uniqueCompletions cs) db))"
  using assms by (simp add: Store_Ack_def exec_def ackStmt_def doneCompletions_def Let_def)

lemma doneCompletions_nth:
  assumes "i \<in> fst ` set (doneCompletions e owner cs db)"
  shows "i < length cs \<and> (i, cs ! i) \<in> set (doneCompletions e owner cs db)"
proof -
  from assms obtain c where "(i, c) \<in> set (doneCompletions e owner cs db)" by auto
  moreover from this have "(i, c) \<in> set (uniqueCompletions cs)" by (auto simp: doneCompletions_def)
  ultimately show ?thesis using uniqueCompletions_nth [of "(i, c)" cs] by auto
qed

lemma done_result:
  assumes "(i, c) \<in> set (doneCompletions e owner cs db)"
  shows "\<exists>s\<in>set (results (snd (ackStmt e owner t (uniqueCompletions cs) db))).
    s_key s = c_Key c \<and> s_route s = c_Route c \<and> s_payload s = c_Payload c"
proof -
  from assms obtain j where j: "j < length (doneCompletions e owner cs db)" "doneCompletions e owner cs db ! j = (i, c)"
    by (auto simp: in_set_conv_nth)
  then have "(j, (i, c)) \<in> set (enumerate 0 (doneCompletions e owner cs db))" by (simp add: in_set_enumerate_eq)
  then have "newResult t (results_seq db + 1 + int j) c \<in> set (results (snd (ackStmt e owner t (uniqueCompletions cs) db)))"
    by (force simp: image_iff)
  then show ?thesis by (intro bexI) simp_all
qed

lemma length_filter_upt_card: "length (filter P [0..<n]) = card {i. i < n \<and> P i}"
  using distinct_card [of "filter P [0..<n]"] by (simp add: conj_commute)

lemma done_distinct: "distinct (map u_key (doneCompletions e owner cs db))"
  unfolding doneCompletions_def by (rule distinct_map_filter) (rule uniqueCompletions_distinct)

lemma done_finishes:
  assumes "rows_ok db" "i \<in> fst ` set (doneCompletions e owner cs db)"
  shows "(\<exists>r\<in>set (requests db). acks e owner db (cs ! i) r)
    \<and> c_Key (cs ! i) \<notin> r_key ` set (requests (snd (ackStmt e owner t (uniqueCompletions cs) db)))"
proof -
  have "(i, cs ! i) \<in> set (doneCompletions e owner cs db)" using doneCompletions_nth [OF assms(2)] by simp
  then obtain r where r: "r \<in> set (requests db)" "acks e owner db (cs ! i) r" "(i, cs ! i) \<in> set (uniqueCompletions cs)"
    by (auto simp: doneCompletions_def)
  have "r' = r" if "r' \<in> set (requests db)" "r_key r' = c_Key (cs ! i)" for r'
    using that r assms(1) by (simp add: rows_ok_def distinct_map acks_def inj_on_def)
  then have "\<forall>r'\<in>set (requests db). (\<forall>u\<in>set (uniqueCompletions cs). \<not> acks e owner db (snd u) r') \<longrightarrow> r_key r' \<noteq> c_Key (cs ! i)"
    using r(2,3) by fastforce
  then have "c_Key (cs ! i) \<notin> r_key ` set (requests (snd (ackStmt e owner t (uniqueCompletions cs) db)))" by auto
  with r(1,2) show ?thesis by blast
qed

lemma done_once:
  assumes "i \<in> fst ` set (doneCompletions e owner cs db)" "j \<in> fst ` set (doneCompletions e owner cs db)"
    and "c_Key (cs ! i) = c_Key (cs ! j)"
  shows "i = j"
proof -
  have "(i, cs ! i) \<in> set (doneCompletions e owner cs db)" "(j, cs ! j) \<in> set (doneCompletions e owner cs db)"
    using doneCompletions_nth assms(1,2) by (blast, blast)
  moreover have "inj_on u_key (set (doneCompletions e owner cs db))" using done_distinct by (simp add: distinct_map)
  moreover have "u_key (i, cs ! i) = u_key (j, cs ! j)" by (simp add: u_key_def assms(3))
  ultimately have "(i, cs ! i) = (j, cs ! j)" by (meson inj_onD)
  then show ?thesis by simp
qed

lemma done_count:
  "length (filter id (map (\<lambda>i. i \<in> fst ` set (doneCompletions e owner cs db)) [0..<length cs])) = length (doneCompletions e owner cs db)"
proof -
  let ?done = "doneCompletions e owner cs db"
  have "cs ! fst u = snd u" if "u \<in> set ?done" for u
    using that uniqueCompletions_nth by (auto simp: doneCompletions_def)
  then have "inj_on fst (set ?done)" by (metis inj_onI prod.expand)
  moreover have "distinct ?done" using done_distinct by (simp add: distinct_map)
  ultimately have "card (fst ` set ?done) = length ?done" by (simp add: card_image distinct_card)
  moreover have "{i. i < length cs \<and> i \<in> fst ` set ?done} = fst ` set ?done" using doneCompletions_nth by blast
  ultimately show ?thesis by (simp add: filter_map comp_def length_filter_upt_card)
qed

lemma done_or_higher:
  assumes "i < length cs" "r \<in> set (requests db)" "acks e owner db (cs ! i) r"
  shows "\<exists>j<length cs. c_Key (cs ! j) = c_Key (cs ! i)
    \<and> (j \<in> fst ` set (doneCompletions e owner cs db) \<or> c_Attempt (cs ! i) < c_Attempt (cs ! j))"
proof -
  obtain u where u: "u \<in> set (uniqueCompletions cs)" "u_key u = c_Key (cs ! i)" "c_Attempt (cs ! i) \<le> c_Attempt (snd u)"
    using uniqueCompletions_covers [of "cs ! i" cs] assms(1) by (auto simp: covers_def)
  have n: "fst u < length cs" "cs ! fst u = snd u" using uniqueCompletions_nth [OF u(1)] by auto
  have "u \<in> set (doneCompletions e owner cs db)" if "c_Attempt (snd u) = c_Attempt (cs ! i)"
    using that u assms by (auto simp: doneCompletions_def acks_def u_key_def)
  then have "fst u \<in> fst ` set (doneCompletions e owner cs db) \<or> c_Attempt (cs ! i) < c_Attempt (cs ! fst u)"
    using u(3) n(2) by fastforce
  then show ?thesis using n u(2) by (intro exI [of _ "fst u"]) (simp add: u_key_def)
qed

text \<open>
  C12: An acknowledgement answers per completion whether its request was finished by it. A completion
  that reports true carried the stamp of its row in a partition of the caller and of the current
  epoch, its row is gone, and its result is in the table under its route; no key reports true twice,
  as many results appear as completions report true, and a completion that carries the stamp of its
  row is refused only if another of the same key has a higher attempt or already reports true.
\<close>

theorem ack_reports_what_it_did:
  assumes "sql_trace sql_start evs (hist, db)" "e_fault e = NoFault" "cs \<noteq> []"
    and "Store_Ack e owner t cs db = (res, db')"
  shows "\<exists>acked. res = Inr acked \<and> length acked = length cs
    \<and> (\<forall>i<length cs. acked ! i \<longrightarrow> (\<exists>r\<in>set (requests db). acks e owner db (cs ! i) r) \<and> c_Key (cs ! i) \<notin> r_key ` set (requests db')
         \<and> (\<exists>s\<in>set (results db'). s_key s = c_Key (cs ! i) \<and> s_route s = c_Route (cs ! i) \<and> s_payload s = c_Payload (cs ! i)))
    \<and> (\<forall>i<length cs. \<forall>j<length cs. acked ! i \<longrightarrow> acked ! j \<longrightarrow> c_Key (cs ! i) = c_Key (cs ! j) \<longrightarrow> i = j)
    \<and> length (results db') = length (results db) + length (filter id acked)
    \<and> (\<forall>i<length cs. \<forall>r\<in>set (requests db). acks e owner db (cs ! i) r \<longrightarrow>
         (\<exists>j<length cs. c_Key (cs ! j) = c_Key (cs ! i) \<and> (acked ! j \<or> c_Attempt (cs ! i) < c_Attempt (cs ! j))))"
    (is "\<exists>acked. _ = _ \<and> _ \<and> ?finished acked \<and> ?once acked \<and> ?count acked \<and> ?refused acked")
proof -
  let ?done = "doneCompletions e owner cs db"
  let ?acked = "map (\<lambda>i. i \<in> fst ` set ?done) [0..<length cs]"
  have res: "res = Inr ?acked" "db' = snd (ackStmt e owner t (uniqueCompletions cs) db)"
    using Store_Ack_done [OF assms(2,3)] assms(4) by auto
  have ok: "rows_ok db" using sql_start_trace_inv [OF assms(1)] by simp
  have one: "(\<exists>r\<in>set (requests db). acks e owner db (cs ! i) r) \<and> c_Key (cs ! i) \<notin> r_key ` set (requests db')
       \<and> (\<exists>s\<in>set (results db'). s_key s = c_Key (cs ! i) \<and> s_route s = c_Route (cs ! i) \<and> s_payload s = c_Payload (cs ! i))"
    if "i \<in> fst ` set ?done" for i
    using done_finishes [OF ok that, of t] doneCompletions_nth [OF that] done_result [of i "cs ! i" e owner cs db t]
    unfolding res(2) by blast
  then have "?finished ?acked" by simp
  moreover have "?once ?acked" using done_once [of _ e owner cs db] by simp
  moreover have "?count ?acked" unfolding done_count res(2) by simp
  moreover have "?refused ?acked"
  proof (intro allI impI ballI)
    fix i r assume "i < length cs" "r \<in> set (requests db)" "acks e owner db (cs ! i) r"
    from done_or_higher [OF this] obtain j where "j < length cs" "c_Key (cs ! j) = c_Key (cs ! i)"
      "j \<in> fst ` set ?done \<or> c_Attempt (cs ! i) < c_Attempt (cs ! j)" by blast
    then show "\<exists>j<length cs. c_Key (cs ! j) = c_Key (cs ! i) \<and> (?acked ! j \<or> c_Attempt (cs ! i) < c_Attempt (cs ! j))"
      by (intro exI [of _ j]) simp
  qed
  ultimately show ?thesis unfolding res(1) by (intro exI [of _ ?acked] conjI refl) simp_all
qed

section \<open>Takeover\<close>

lemma quietEnv_simps [simp]: "e_fault quietEnv = NoFault" "e_locked quietEnv k = False" "e_plocked quietEnv i = False"
  "view quietEnv db = partitions db" "sees quietEnv hist" "exec quietEnv answer db = answer"
  by (simp_all add: quietEnv_def view_def sees_def exec_def)

lemma queue_parts_bound:
  assumes "parts_ok ps"
  shows "length (filter (\<lambda>p. p_queue p = queue \<and> P p) ps) \<le> Partitions"
proof -
  let ?qs = "filter (\<lambda>p. p_queue p = queue \<and> P p) ps"
  have "distinct (map p_key ?qs)" using assms by (simp add: parts_ok_def distinct_map_filter)
  then have "distinct (map p_partition ?qs)" by (auto simp: distinct_map inj_on_def p_key_def)
  then have "length ?qs = card (set (map p_partition ?qs))" using distinct_card by fastforce
  also have "\<dots> \<le> card {0..<int Partitions}"
    using assms by (intro card_mono) (auto simp: parts_ok_def)
  finally show ?thesis by simp
qed

lemma takeable_all:
  assumes "parts_ok ps" "Partitions \<le> n"
  shows "set (takeable quietEnv queue nowMs n ps) = {p \<in> set ps. free queue nowMs p}"
proof -
  have "filter (free queue nowMs) ps = filter (\<lambda>p. p_queue p = queue \<and> free queue nowMs p) ps"
    by (rule filter_cong) (auto simp: free_def)
  then have "length (filter (free queue nowMs) ps) \<le> n"
    using queue_parts_bound [OF assms(1), of queue "free queue nowMs"] assms(2) by simp
  then show ?thesis by (simp add: takeable_def)
qed

lemma acquire_all:
  assumes "parts_ok (partitions db)" "Partitions \<le> n" "p \<in> set (partitions db)" "free queue nowMs p"
    and "acquireRows quietEnv queue owner nowMs expires n db = (rows, db')"
  shows "takeRow owner expires p \<in> set (partitions db') \<and> takeRow owner expires p \<in> set rows"
proof -
  have "acquirable quietEnv queue nowMs n db p"
    using takeable_all [OF assms(1,2)] assms(3,4) by (auto simp: acquirable_def)
  then show ?thesis using assms(3,5) by (force simp: acquireRows_def)
qed

lemma reset_makes_pending:
  assumes "parts_ok (partitions db)" "r \<in> set (requests db)" "p \<in> set (partitions db)" "p_key p = (r_queue r, r_partition r)"
    and "p_owner p = owner" "0 < r_epoch r" "r_epoch r < p_epoch p" "r_partition r \<in> set ps"
  shows "r \<lparr> r_epoch := 0 \<rparr> \<in> set (requests (resetRows quietEnv (r_queue r) owner (Some ps) db))"
proof -
  have "partOf (partitions db) r = Some p" using partOf_unique assms(1,3,4) by (auto simp: parts_ok_def)
  then have "stale quietEnv (r_queue r) owner (Some ps) db r" using assms by (simp add: stale_def)
  with assms(2) show ?thesis by (force simp: resetRows_def)
qed

lemma dispatch_all:
  assumes "r \<in> set (requests db)" "dispatchable e queue owner (now div 1000000000) db r" "e_fault e = NoFault"
    and "int (length (requests db)) \<le> limit" "Store_Dispatch e queue owner now limit db = (res, db')"
  shows "\<exists>out i. res = Inr out \<and> scanRow (stampRow e db i r) \<in> set out"
proof -
  let ?now = "now div 1000000000"
  have "length (filter (dispatchable e queue owner ?now db) (requests db)) \<le> length (requests db)"
    by (rule length_filter_le)
  also have "\<dots> \<le> nat limit" using assms(4) by simp
  finally have "r \<in> set (picked e queue owner ?now (nat limit) db)" using assms(1,2) by (simp add: picked_def)
  then obtain i where "i < length (picked e queue owner ?now (nat limit) db)" "picked e queue owner ?now (nat limit) db ! i = r"
    by (auto simp: in_set_conv_nth)
  then have "stampRow e db i r \<in> set (stamped e queue owner ?now (nat limit) db)"
    using nth_stamped length_stamped by (metis nth_mem)
  moreover have "res = Inr (map scanRow (stamped e queue owner ?now (nat limit) db))"
    using Store_Dispatch_rows [OF assms(3), of limit queue owner now db] assms(4,5) by simp
  ultimately show ?thesis by auto
qed

lemma set_queryLeases: "set (queryLeases rows) = leaseRow ` set rows"
  by (simp add: queryLeases_def)

lemma takeover_pending:
  assumes inv: "sql_inv (hist, db)" and "owner \<noteq> []" "r \<in> set (requests db)" "0 < r_epoch r"
    and "p \<in> set (partitions db)" "p_key p = (r_queue r, r_partition r)" "free (r_queue r) nowMs p"
    and rows: "acquireRows quietEnv (r_queue r) owner nowMs expires Partitions db = (rows, db1)"
    and db2: "db2 = resetRows quietEnv (r_queue r) owner (Some (map l_Partition (queryLeases rows))) db1"
  shows "r \<lparr> r_epoch := 0 \<rparr> \<in> set (requests db2)" "partOf (partitions db2) (r \<lparr> r_epoch := 0 \<rparr>) = Some (takeRow owner expires p)"
    "\<exists>hist'. sql_inv (hist', db2)" "length (requests db2) = length (requests db)" "attempts_seq db2 = attempts_seq db"
proof -
  let ?p = "takeRow owner expires p"
  have run: "stmt_run quietEnv (SAcquire (r_queue r) owner nowMs expires Partitions) db = ([], db1)" using rows by simp
  have inv1: "sql_inv (partitions db1 # hist, db1)" using stmt_inv [OF inv _ _ run] assms(2) by simp
  have same: "requests db1 = requests db" "attempts_seq db1 = attempts_seq db" using part_stmt_frame [OF _ run] by simp_all
  have p: "?p \<in> set (partitions db1)" "?p \<in> set rows" using acquire_all [OF _ _ assms(5,7) rows] inv by auto
  have pk: "p_key ?p = (r_queue r, r_partition r)" "p_owner ?p = owner" "p_epoch ?p = p_epoch p + 1"
    using assms(6) by (simp_all add: takeRow_def p_key_def)
  obtain p0 where "p0 \<in> set (partitions db)" "p_key p0 = p_key p" "r_epoch r \<le> p_epoch p0"
    using inv assms(3,4,6) by (auto simp: rows_ok_def row_ok_def)
  then have ep: "r_epoch r \<le> p_epoch p" using inv assms(5) by (auto simp: parts_ok_def distinct_map inj_on_def)
  have lp: "r_partition r \<in> set (map l_Partition (queryLeases rows))"
    using p(2) pk(1) by (force simp: queryLeases_def leaseRow_def p_key_def)
  show "r \<lparr> r_epoch := 0 \<rparr> \<in> set (requests db2)"
    unfolding db2 using inv1 assms(3,4) p(1) pk ep lp same by (intro reset_makes_pending [where p = ?p]) auto
  have same2: "partitions db2 = partitions db1" by (simp add: db2 resetRows_def)
  show "partOf (partitions db2) (r \<lparr> r_epoch := 0 \<rparr>) = Some ?p"
    using inv1 p(1) pk(1) by (intro partOf_unique) (auto simp: same2 parts_ok_def)
  have "stmt_run quietEnv (SResetStale (r_queue r) owner (Some (map l_Partition (queryLeases rows)))) db1 = ([], db2)" by (simp add: db2)
  from stmt_inv [OF inv1 _ _ this] show "\<exists>hist'. sql_inv (hist', db2)" by force
  show "length (requests db2) = length (requests db)" "attempts_seq db2 = attempts_seq db"
    by (simp_all add: db2 resetRows_def same)
qed


section \<open>A run\<close>

text \<open>
  A run of statements from the empty tables, for instances: a dispatcher takes the partitions of a queue,
  a request arrives and is dispatched, and then given back.
\<close>

lemma sql_trace_next:
  "sql_trace c evs (hist, db) \<Longrightarrow> stmt_run quietEnv stmt db = (evs', db') \<Longrightarrow> stmt_ok stmt
    \<Longrightarrow> sql_trace c (evs @ evs') (partitions db' # hist, db')"
  by (rule sql_step) simp_all

definition demo_request :: Request where
  "demo_request = \<lparr> rq_ID = ''r'', rq_Token = ''t'', rq_Queue = ''q'', rq_Partition = 0, rq_Epoch = 0, rq_Attempt = 0,
     rq_Deadline = 9, rq_Envelope = ''e'', rq_Payload = ''p'', rq_Cancelled = False, rq_createdAt = 0 \<rparr>"

definition demo_key :: Key where
  "demo_key = \<lparr> key_ID = ''r'', key_Token = ''t'' \<rparr>"

definition demo_parts :: "part_row list" where
  "demo_parts = map (takeRow ''a'' 5 \<circ> newPart ''q'') [0..<Partitions]"

definition demo_row :: "int \<Rightarrow> req_row" where
  "demo_row n = (newRow 3 demo_request) \<lparr> r_epoch := n, r_attempt := n \<rparr>"

definition demo_db :: "req_row list \<Rightarrow> int \<Rightarrow> sql_db" where
  "demo_db rows n = \<lparr> requests = rows, results = [], partitions = demo_parts, dispatchers = [], attempts_seq = n, results_seq = 0 \<rparr>"

lemma partitionOf_range: "0 \<le> partitionOf s \<and> partitionOf s < int Partitions"
  by (simp add: partitionOf_def)

lemma demo_row_simps [simp]: "r_queue (demo_row n) = ''q''" "r_partition (demo_row n) = partitionOf ''r''" "r_epoch (demo_row n) = n"
  "r_attempt (demo_row n) = n" "r_not_before (demo_row n) = 0" "r_key (demo_row n) = demo_key"
  by (simp_all add: demo_row_def demo_request_def demo_key_def newRow_def r_key_def)

lemma demo_part:
  "takeRow ''a'' 5 (newPart ''q'' (nat (partitionOf ''r''))) \<in> set demo_parts"
  "p_key (takeRow ''a'' 5 (newPart ''q'' (nat (partitionOf ''r'')))) = (''q'', partitionOf ''r'')"
  using partitionOf_range [of "''r''"] by (auto simp: demo_parts_def takeRow_def p_key_def intro!: image_eqI)

lemma demo_partOf: "partOf demo_parts (demo_row n) = Some (takeRow ''a'' 5 (newPart ''q'' (nat (partitionOf ''r''))))"
proof (rule partOf_unique)
  show "distinct (map p_key demo_parts)"
    by (auto simp: demo_parts_def distinct_map inj_on_def takeRow_def p_key_def)
qed (simp_all add: demo_part)

lemma demo_acquire: "acquireRows quietEnv ''q'' ''a'' 0 5 Partitions (ensureRows ''q'' emptyDb) = (demo_parts, demo_db [] 0)"
proof -
  let ?db = "ensureRows ''q'' emptyDb"
  have ps: "partitions ?db = map (newPart ''q'') [0..<Partitions]" by (simp add: ensureRows_def emptyDb_def)
  have "parts_ok (partitions ?db)"
    using parts_ensure [of emptyDb "''q''"] by (simp add: emptyDb_def parts_ok_def)
  then have "set (takeable quietEnv ''q'' 0 Partitions (partitions ?db)) = {p \<in> set (partitions ?db). free ''q'' 0 p}"
    by (rule takeable_all) simp
  moreover have "\<forall>p\<in>set (partitions ?db). free ''q'' 0 p" unfolding ps by (simp add: free_def)
  ultimately have all: "\<forall>p\<in>set (partitions ?db). acquirable quietEnv ''q'' 0 Partitions ?db p" by (simp add: acquirable_def)
  then have "filter (acquirable quietEnv ''q'' 0 Partitions ?db) (partitions ?db) = partitions ?db" by simp
  moreover have "map (\<lambda>p. if acquirable quietEnv ''q'' 0 Partitions ?db p then takeRow ''a'' 5 p else p) (partitions ?db)
      = map (takeRow ''a'' 5) (partitions ?db)" using all by (intro map_cong) simp_all
  ultimately show ?thesis
    by (simp add: acquireRows_def demo_db_def demo_parts_def ps) (simp add: ensureRows_def emptyDb_def)
qed

lemma demo_dispatch: "async_dispatch quietEnv ''a'' ''q'' 1 10 (demo_db [demo_row 0] 0) = ([demo_row 1], demo_db [demo_row 1] 1)"
proof -
  let ?db = "demo_db [demo_row 0] 0"
  have part: "partOf (partitions ?db) (demo_row 0) = Some (takeRow ''a'' 5 (newPart ''q'' (nat (partitionOf ''r''))))"
    by (simp add: demo_db_def demo_partOf)
  then have "dispatchable quietEnv ''q'' ''a'' 1 ?db (demo_row 0)"
    by (simp add: dispatchable_def pending_def takeRow_def newPart_def)
  then have "picked quietEnv ''q'' ''a'' 1 10 ?db = [demo_row 0]" by (simp add: picked_def demo_db_def)
  moreover have "stampRow quietEnv ?db 0 (demo_row 0) = demo_row 1"
    unfolding stampRow_def quietEnv_simps part by (simp add: takeRow_def newPart_def demo_db_def demo_row_def)
  ultimately have "stamped quietEnv ''q'' ''a'' 1 10 ?db = [demo_row 1]" by (simp add: stamped_def)
  then show ?thesis by (simp add: async_dispatch_def demo_db_def replaceRows_def Let_def)
qed

lemma demo_enqueue: "stmt_run quietEnv (SEnqueue 3 [demo_request]) (demo_db [] 0) = ([Enqueued demo_key], demo_db [demo_row 0] 0)"
proof -
  have "chunkRows 3 0 [demo_request] = [demo_row 0]" by (simp add: chunkRows_def demo_row_def newRow_def)
  then show ?thesis using enqueueTx_eq [of "demo_db [] 0" 3 "[demo_request]"]
    by (simp add: rows_ok_def demo_db_def Request_Key_def demo_request_def demo_key_def)
qed

lemma demo_trace_pending: "\<exists>hist. sql_trace sql_start [Enqueued demo_key] (hist, demo_db [demo_row 0] 0)"
proof -
  have "sql_trace sql_start [] ([], emptyDb)" using sql_refl sql_start_def by metis
  from sql_trace_next [OF this, of "SEnsure ''q''"] obtain h1 where "sql_trace sql_start [] (h1, ensureRows ''q'' emptyDb)" by auto
  from sql_trace_next [OF this, of "SAcquire ''q'' ''a'' 0 5 Partitions" "[]" "demo_db [] 0"] obtain h2 where
    "sql_trace sql_start [] (h2, demo_db [] 0)" using demo_acquire by auto
  with demo_enqueue show ?thesis using sql_trace_next by fastforce
qed

lemma demo_trace: "\<exists>hist. sql_trace sql_start [Enqueued demo_key, Dispatched ''a'' demo_key 1] (hist, demo_db [demo_row 1] 1)"
proof -
  have "stmt_run quietEnv (SDispatch ''q'' ''a'' 1 10) (demo_db [demo_row 0] 0)
      = ([Dispatched ''a'' demo_key 1], demo_db [demo_row 1] 1)" by (simp add: demo_dispatch)
  with demo_trace_pending show ?thesis using sql_trace_next by fastforce
qed

definition demo_back :: req_row where
  "demo_back = (demo_row 1) \<lparr> r_epoch := 0 \<rparr>"

lemma demo_trace_back: "\<exists>hist. sql_trace sql_start [Enqueued demo_key, Dispatched ''a'' demo_key 1] (hist, demo_db [demo_back] 1)"
proof -
  have "carries quietEnv ''a'' (demo_db [demo_row 1] 1) \<lparr> st_Key = demo_key, st_Attempt = 1 \<rparr> (demo_row 1)"
    by (simp add: carries_def ownedBy_def demo_db_def demo_partOf takeRow_def)
  then have "stmt_run quietEnv (SUndispatch ''a'' [\<lparr> st_Key = demo_key, st_Attempt = 1 \<rparr>] 0) (demo_db [demo_row 1] 1) = ([], demo_db [demo_back] 1)"
    by (simp add: undispatchRows_def demo_db_def demo_back_def)
  with demo_trace show ?thesis using sql_trace_next by fastforce
qed

theorem requests_are_conserved_witness:
  "\<exists>hist. sql_trace sql_start [Enqueued demo_key, Dispatched ''a'' demo_key 1] (hist, demo_db [demo_row 1] 1)
    \<and> enqueuedKeys [Enqueued demo_key, Dispatched ''a'' demo_key 1]
      = liveKeys (demo_db [demo_row 1] 1) + resultKeys (demo_db [demo_row 1] 1) + outKeys [Enqueued demo_key, Dispatched ''a'' demo_key 1]"
  using demo_trace requests_are_conserved by blast

theorem stale_attempt_is_fenced_witness:
  "snd (Store_Ack quietEnv ''a'' 0 [\<lparr> c_Key = demo_key, c_Attempt = 1, c_Route = ''o'', c_Payload = ''x'', c_ExpiresAt = 0 \<rparr>]
     (demo_db [demo_back] 1)) = demo_db [demo_back] 1"
proof -
  obtain hist where "sql_trace sql_start [Enqueued demo_key, Dispatched ''a'' demo_key 1] (hist, demo_db [demo_back] 1)"
    using demo_trace_back by blast
  moreover have "\<not> live_stamp \<lparr> st_Key = demo_key, st_Attempt = 1 \<rparr> (demo_db [demo_back] 1)"
    by (simp add: live_stamp_def demo_db_def demo_back_def)
  ultimately show ?thesis
    using stale_attempt_is_fenced [of "[Enqueued demo_key, Dispatched ''a'' demo_key 1]" hist "demo_db [demo_back] 1" "''a''" demo_key 1
        "[]" hist "demo_db [demo_back] 1" quietEnv 0 "[]" 0 "''o''" "''x''" 0] sql_refl by simp
qed

theorem dispatch_earliest_deadline_first_witness:
  "\<exists>out. fst (Store_Dispatch quietEnv ''q'' ''a'' 1000000000 10 (demo_db [demo_row 0] 0)) = Inr out \<and> length out \<le> 10
     \<and> sorted (map (\<lambda>q. (rq_Deadline q, rq_createdAt q)) out)"
proof -
  obtain hist where "sql_trace sql_start [Enqueued demo_key] (hist, demo_db [demo_row 0] 0)" using demo_trace_pending by blast
  from dispatch_earliest_deadline_first [OF this, of quietEnv "''a''" 10 "''q''" 1000000000]
  show ?thesis by (metis (no_types, lifting) quietEnv_simps(1,5) list.distinct(1) nat_numeral prod.collapse zero_le_numeral)
qed

theorem enqueue_is_one_insert_witness:
  "fst (Store_Enqueue quietEnv 3 [demo_request, demo_request] emptyDb) \<noteq> Inr ()"
  using enqueue_is_one_insert [of "[]" "[]" emptyDb quietEnv 3 "[demo_request, demo_request]"
      "fst (Store_Enqueue quietEnv 3 [demo_request, demo_request] emptyDb)"
      "snd (Store_Enqueue quietEnv 3 [demo_request, demo_request] emptyDb)"] sql_refl [of sql_start]
  by (simp add: sql_start_def)

theorem ack_reports_what_it_did_witness:
  "\<exists>acked. fst (Store_Ack quietEnv ''a'' 0 [\<lparr> c_Key = demo_key, c_Attempt = 1, c_Route = ''o'', c_Payload = ''x'', c_ExpiresAt = 0 \<rparr>]
     (demo_db [demo_row 1] 1)) = Inr acked \<and> length acked = 1"
proof -
  obtain hist where "sql_trace sql_start [Enqueued demo_key, Dispatched ''a'' demo_key 1] (hist, demo_db [demo_row 1] 1)"
    using demo_trace by blast
  from ack_reports_what_it_did [OF this, of quietEnv "[\<lparr> c_Key = demo_key, c_Attempt = 1, c_Route = ''o'', c_Payload = ''x'', c_ExpiresAt = 0 \<rparr>]"
      "''a''" 0]
  show ?thesis by (metis (no_types, lifting) quietEnv_simps(1) list.distinct(1) prod.collapse length_Cons list.size(3) One_nat_def)
qed


end
