(* ===== verification/Sql_Consumer.thy ===== *)
theory Sql_Consumer
  imports Sql_Trace "HOL-Library.AList"
begin

text \<open>
  One dispatcher's view of a queue, \<open>src/producer-sql/sqlqueue/consumer.go\<close>: its leases, the requests it
  has in flight and the ones it gave up, and the rebalancing cycle.

  The maps of the source are association lists. A method is a function on the state \<open>cstate\<close>: the
  consumer, the tables with their history, and the turns of everybody else. Before each call to the
  store a turn is taken: other callers may have run statements, methods of the same consumer that do
  not hold its \<open>cycle\<close> lock may have finished, and the call itself may meet a fault, locked rows or an
  old snapshot. With no turns left the calls are undisturbed. \<open>errors.Join\<close> is the list of the errors.
\<close>

section \<open>State\<close>

record tracked =
  tk_partition :: int
  tk_epoch :: int
  tk_attempt :: int

record partitionState =
  ps_epoch :: int
  ps_acquiredAt :: int
  ps_draining :: bool
  ps_drainSince :: int
  ps_inflight :: int

record Consumer =
  cn_queue :: string
  cn_owner :: string
  cn_leaseTTL :: int
  cn_drainTimeout :: int
  cn_seeded :: bool
  cn_stopping :: bool
  cn_reconcile :: bool
  cn_beats :: int
  cn_leases :: "(int \<times> partitionState) list"
  cn_inflight :: "(Key \<times> tracked) list"
  cn_orphans :: "(Key \<times> int) list"

definition NewConsumer :: "string \<Rightarrow> string \<Rightarrow> int \<Rightarrow> int \<Rightarrow> Consumer" where
  "NewConsumer queue owner leaseTTL drainTimeout =
     \<lparr> cn_queue = queue, cn_owner = owner, cn_leaseTTL = leaseTTL, cn_drainTimeout = drainTimeout, cn_seeded = False,
       cn_stopping = False, cn_reconcile = False, cn_beats = 0, cn_leases = [], cn_inflight = [], cn_orphans = [] \<rparr>"

section \<open>Bookkeeping under the lock\<close>

definition untrackLocked :: "Key \<Rightarrow> tracked \<Rightarrow> Consumer \<Rightarrow> Consumer" where
  "untrackLocked k t c =
     (let c' = c \<lparr> cn_inflight := AList.delete k (cn_inflight c) \<rparr>
      in case map_of (cn_leases c) (tk_partition t) of
           None \<Rightarrow> c'
         | Some st \<Rightarrow> if ps_epoch st = tk_epoch t \<and> ps_inflight st > 0
             then c' \<lparr> cn_leases := AList.update (tk_partition t) (st \<lparr> ps_inflight := ps_inflight st - 1 \<rparr>) (cn_leases c) \<rparr>
             else c')"

definition doneStamp :: "Stamp \<Rightarrow> Consumer \<Rightarrow> Consumer" where
  "doneStamp stamp c = (case map_of (cn_inflight c) (st_Key stamp) of
     None \<Rightarrow> c
   | Some t \<Rightarrow> if tk_attempt t \<noteq> st_Attempt stamp then c else untrackLocked (st_Key stamp) t c)"

definition doneStamps :: "Stamp list \<Rightarrow> Consumer \<Rightarrow> Consumer" where
  "doneStamps stamps c = fold doneStamp stamps c"

definition abandonStamp :: "Stamp \<Rightarrow> Consumer \<Rightarrow> Consumer" where
  "abandonStamp stamp c = (case map_of (cn_inflight c) (st_Key stamp) of
     None \<Rightarrow> c
   | Some t \<Rightarrow> if tk_attempt t \<noteq> st_Attempt stamp then c
       else untrackLocked (st_Key stamp) t (c \<lparr> cn_orphans := AList.update (st_Key stamp) (tk_attempt t) (cn_orphans c) \<rparr>))"

definition Consumer_Abandon :: "Stamp list \<Rightarrow> Consumer \<Rightarrow> Consumer" where
  "Consumer_Abandon stamps c = fold abandonStamp stamps c"

definition Consumer_Stop :: "Consumer \<Rightarrow> Consumer" where
  "Consumer_Stop c = c \<lparr> cn_stopping := True \<rparr>"

definition trackRow :: "Request \<Rightarrow> Consumer \<Rightarrow> Consumer" where
  "trackRow r c =
     (let c1 = (case map_of (cn_inflight c) (Request_Key r) of None \<Rightarrow> c | Some prev \<Rightarrow> untrackLocked (Request_Key r) prev c);
          c2 = c1 \<lparr> cn_orphans := AList.delete (Request_Key r) (cn_orphans c1),
                    cn_inflight := AList.update (Request_Key r)
                      \<lparr> tk_partition = rq_Partition r, tk_epoch = rq_Epoch r, tk_attempt = rq_Attempt r \<rparr> (cn_inflight c1) \<rparr>
      in case map_of (cn_leases c2) (rq_Partition r) of
           None \<Rightarrow> c2
         | Some st \<Rightarrow> if ps_epoch st = rq_Epoch r
             then c2 \<lparr> cn_leases := AList.update (rq_Partition r) (st \<lparr> ps_inflight := ps_inflight st + 1 \<rparr>) (cn_leases c2) \<rparr>
             else c2)"

section \<open>Calls and turns\<close>

datatype consumer_event = EvDone "Stamp list" | EvAbandon "Stamp list" | EvStop

fun applyEvent :: "consumer_event \<Rightarrow> Consumer \<Rightarrow> Consumer" where
  "applyEvent (EvDone sts) c = doneStamps sts c"
| "applyEvent (EvAbandon sts) c = Consumer_Abandon sts c"
| "applyEvent EvStop c = Consumer_Stop c"

record turn =
  tn_others :: "(sql_env \<times> sql_stmt) list"
  tn_events :: "consumer_event list"
  tn_env :: "nat \<Rightarrow> sql_env"

definition quietTurn :: turn where
  "quietTurn = \<lparr> tn_others = [], tn_events = [], tn_env = (\<lambda>_. quietEnv) \<rparr>"

record cstate =
  cs_consumer :: Consumer
  cs_turns :: "turn list"
  cs_conf :: sql_conf

text \<open>A snapshot that never was the committed table is not one a statement can see.\<close>

definition clamp :: "part_row list list \<Rightarrow> sql_env \<Rightarrow> sql_env" where
  "clamp hist e = (if sees e hist then e else e \<lparr> e_view := None \<rparr>)"

fun runStmt :: "sql_env \<times> sql_stmt \<Rightarrow> sql_conf \<Rightarrow> sql_conf" where
  "runStmt (e, stmt) (hist, db) =
     (if stmt_ok stmt \<and> e_fault e \<noteq> NotRun
      then (let db' = snd (stmt_run (clamp hist e) stmt db) in (partitions db' # hist, db')) else (hist, db))"

definition takeTurn :: "cstate \<Rightarrow> turn \<times> cstate" where
  "takeTurn s = (case cs_turns s of
     [] \<Rightarrow> (quietTurn, s)
   | t # ts \<Rightarrow> (t, \<lparr> cs_consumer = fold applyEvent (tn_events t) (cs_consumer s), cs_turns = ts,
                     cs_conf = fold runStmt (tn_others t) (cs_conf s) \<rparr>))"

definition call :: "((nat \<Rightarrow> sql_env) \<Rightarrow> sql_db \<Rightarrow> (sql_error + 'a) \<times> sql_db) \<Rightarrow> cstate \<Rightarrow> (sql_error + 'a) \<times> cstate" where
  "call f s = (let (t, s1) = takeTurn s; (hist, db) = cs_conf s1; (res, db') = f (\<lambda>i. clamp hist (tn_env t i)) db
     in (res, s1 \<lparr> cs_conf := (partitions db' # hist, db') \<rparr>))"

definition locally :: "(Consumer \<Rightarrow> Consumer) \<Rightarrow> cstate \<Rightarrow> cstate" where
  "locally f s = s \<lparr> cs_consumer := f (cs_consumer s) \<rparr>"

section \<open>Outcomes\<close>

definition Consumer_Poll :: "int \<Rightarrow> int \<Rightarrow> cstate \<Rightarrow> (sql_error + Request list) \<times> cstate" where
  "Consumer_Poll now limit s =
     (case call (\<lambda>e. Store_Dispatch (e 0) (cn_queue (cs_consumer s)) (cn_owner (cs_consumer s)) now limit) s of
        (Inl er, s1) \<Rightarrow> (Inl er, locally (\<lambda>c. c \<lparr> cn_reconcile := True \<rparr>) s1)
      | (Inr rows, s1) \<Rightarrow> (Inr rows, locally (fold trackRow rows) s1))"

definition Consumer_Ack :: "int \<Rightarrow> Completion list \<Rightarrow> cstate \<Rightarrow> (sql_error + bool list) \<times> cstate" where
  "Consumer_Ack t completions s =
     (case call (\<lambda>e. Store_Ack (e 0) (cn_owner (cs_consumer s)) t completions) s of
        (Inl er, s1) \<Rightarrow> (Inl er, s1)
      | (Inr acked, s1) \<Rightarrow>
          (Inr acked, locally (doneStamps (map (\<lambda>c. \<lparr> st_Key = c_Key c, st_Attempt = c_Attempt c \<rparr>) completions)) s1))"

definition Consumer_Retry :: "Stamp \<Rightarrow> int \<Rightarrow> string \<Rightarrow> cstate \<Rightarrow> (sql_error + bool) \<times> cstate" where
  "Consumer_Retry stamp notBefore envelope s =
     (case call (\<lambda>e. Store_Retry (e 0) (cn_owner (cs_consumer s)) stamp notBefore envelope) s of
        (Inl er, s1) \<Rightarrow> (Inl er, s1)
      | (Inr ok, s1) \<Rightarrow> (Inr ok, locally (doneStamps [stamp]) s1))"

definition Consumer_Undispatch :: "Stamp list \<Rightarrow> cstate \<Rightarrow> (sql_error + unit) \<times> cstate" where
  "Consumer_Undispatch stamps s =
     (case call (\<lambda>e. Store_Undispatch (e 0) (cn_owner (cs_consumer s)) stamps) s of
        (Inl er, s1) \<Rightarrow> (Inl er, locally (Consumer_Abandon stamps) s1)
      | (Inr u, s1) \<Rightarrow> (Inr u, locally (doneStamps stamps) s1))"

definition Consumer_Defer :: "Stamp list \<Rightarrow> int \<Rightarrow> cstate \<Rightarrow> (sql_error + unit) \<times> cstate" where
  "Consumer_Defer stamps notBefore s =
     (case call (\<lambda>e. Store_Defer (e 0) (cn_owner (cs_consumer s)) stamps notBefore) s of
        (Inl er, s1) \<Rightarrow> (Inl er, locally (Consumer_Abandon stamps) s1)
      | (Inr u, s1) \<Rightarrow> (Inr u, locally (doneStamps stamps) s1))"

section \<open>The rebalancing cycle\<close>

definition forgetOrphan :: "Stamp \<Rightarrow> Consumer \<Rightarrow> Consumer" where
  "forgetOrphan st c = (case map_of (cn_orphans c) (st_Key st) of
     None \<Rightarrow> c | Some a \<Rightarrow> if a = st_Attempt st then c \<lparr> cn_orphans := AList.delete (st_Key st) (cn_orphans c) \<rparr> else c)"

definition undispatchOrphans :: "cstate \<Rightarrow> sql_error list \<times> cstate" where
  "undispatchOrphans s =
     (let stamps = map (\<lambda>(k, a). \<lparr> st_Key = k, st_Attempt = a \<rparr>) (cn_orphans (cs_consumer s))
      in if stamps = [] then ([], s)
         else case call (\<lambda>e. Store_Undispatch (e 0) (cn_owner (cs_consumer s)) stamps) s of
                (Inl er, s1) \<Rightarrow> ([er], s1)
              | (Inr _, s1) \<Rightarrow> ([], locally (fold forgetOrphan stamps) s1))"

definition untrackedStamp :: "Consumer \<Rightarrow> Stamp \<Rightarrow> bool" where
  "untrackedStamp c st = (case map_of (cn_inflight c) (st_Key st) of None \<Rightarrow> True | Some t \<Rightarrow> tk_attempt t \<noteq> st_Attempt st)"

definition reconcileInFlight :: "cstate \<Rightarrow> sql_error list \<times> cstate" where
  "reconcileInFlight s =
     (if \<not> cn_reconcile (cs_consumer s) then ([], s)
      else case call (\<lambda>e db. (Store_InFlight (e 0) (cn_queue (cs_consumer s)) (cn_owner (cs_consumer s)) db, db)) s of
             (Inl er, s1) \<Rightarrow> ([er], s1)
           | (Inr sts, s1) \<Rightarrow>
               (let untracked = filter (untrackedStamp (cs_consumer s1)) sts
                in case call (\<lambda>e. Store_Undispatch (e 0) (cn_owner (cs_consumer s1)) untracked) s1 of
                     (Inl er, s2) \<Rightarrow> ([er], s2)
                   | (Inr _, s2) \<Rightarrow> ([], locally (\<lambda>c. c \<lparr> cn_reconcile := False \<rparr>) s2)))"

definition syncLease :: "int \<Rightarrow> Consumer \<Rightarrow> Lease \<Rightarrow> int \<times> partitionState" where
  "syncLease now c l =
     (let st = (case map_of (cn_leases c) (l_Partition l) of
                  Some st \<Rightarrow> if ps_epoch st \<noteq> l_Epoch l
                    then \<lparr> ps_epoch = l_Epoch l, ps_acquiredAt = now, ps_draining = False, ps_drainSince = 0, ps_inflight = 0 \<rparr> else st
                | None \<Rightarrow> \<lparr> ps_epoch = l_Epoch l, ps_acquiredAt = now, ps_draining = False, ps_drainSince = 0, ps_inflight = 0 \<rparr>);
          st1 = (if l_Draining l \<and> \<not> ps_draining st then st \<lparr> ps_drainSince := now \<rparr> else st)
      in (l_Partition l, st1 \<lparr> ps_draining := l_Draining l \<rparr>))"

definition syncLeases :: "Lease list \<Rightarrow> int \<Rightarrow> Consumer \<Rightarrow> Consumer" where
  "syncLeases held now c = c \<lparr> cn_leases := fold (\<lambda>l next. AList.update (l_Partition l) (snd (syncLease now c l)) next) held [] \<rparr>"

abbreviation (input) fullResetEvery :: int where "fullResetEvery \<equiv> 10"

definition resetParts :: "int \<Rightarrow> Consumer \<Rightarrow> int list option" where
  "resetParts now c =
     (if cn_beats c mod fullResetEvery \<noteq> 0
      then Some (sort (map fst (filter (\<lambda>(p, st). now - ps_acquiredAt st < 2 * cn_leaseTTL c) (cn_leases c))))
      else None)"

definition consumer_resetStale :: "int \<Rightarrow> cstate \<Rightarrow> (sql_error + unit) \<times> cstate" where
  "consumer_resetStale now s =
     (let s1 = locally (\<lambda>c. c \<lparr> cn_beats := cn_beats c + 1 \<rparr>) s
      in call (\<lambda>e. Store_ResetStale (e 0) (cn_queue (cs_consumer s1)) (cn_owner (cs_consumer s1)) (resetParts now (cs_consumer s1))) s1)"

definition releasable :: "int \<Rightarrow> Consumer \<Rightarrow> int list" where
  "releasable now c = sort (map fst (filter (\<lambda>(p, st). ps_draining st \<and> (ps_inflight st = 0 \<or> now - ps_drainSince st \<ge> cn_drainTimeout c))
     (cn_leases c)))"

definition releaseDrained :: "int \<Rightarrow> cstate \<Rightarrow> (sql_error + unit) \<times> cstate" where
  "releaseDrained now s =
     (let release = releasable now (cs_consumer s)
      in case call (\<lambda>e. Store_ReleasePartitions (e 0) (cn_queue (cs_consumer s)) (cn_owner (cs_consumer s)) release) s of
           (Inl er, s1) \<Rightarrow> (Inl er, s1)
         | (Inr u, s1) \<Rightarrow> (Inr u, locally (\<lambda>c. c \<lparr> cn_leases := filter (\<lambda>(p, st). p \<notin> set release) (cn_leases c) \<rparr>) s1))"

definition shareOf :: "int \<Rightarrow> int" where
  "shareOf members = (int Partitions + max 1 members - 1) div max 1 members"

definition activeLocked :: "Consumer \<Rightarrow> int list" where
  "activeLocked c = sort (map fst (filter (\<lambda>(p, st). \<not> ps_draining st) (cn_leases c)))"

definition drainingLocked :: "Consumer \<Rightarrow> int list" where
  "drainingLocked c = sort (map fst (filter (\<lambda>(p, st). ps_draining st) (cn_leases c)))"

definition inflightAt :: "Consumer \<Rightarrow> int \<Rightarrow> int" where
  "inflightAt c p = (case map_of (cn_leases c) p of None \<Rightarrow> 0 | Some st \<Rightarrow> ps_inflight st)"

text \<open>The fewest requests in flight first, the higher partition first among equals; then the first \<open>n\<close>.\<close>

definition drainCandidatesLocked :: "Consumer \<Rightarrow> int list \<Rightarrow> nat \<Rightarrow> int list" where
  "drainCandidatesLocked c active n = sort (take n (sort_key (\<lambda>p. (inflightAt c p, - p)) active))"

definition setLease :: "(partitionState \<Rightarrow> partitionState) \<Rightarrow> int list \<Rightarrow> Consumer \<Rightarrow> Consumer" where
  "setLease f ps c = c \<lparr> cn_leases := map (\<lambda>(p, st). (p, if p \<in> set ps then f st else st)) (cn_leases c) \<rparr>"

definition addLease :: "int \<Rightarrow> Lease \<Rightarrow> Consumer \<Rightarrow> Consumer" where
  "addLease now l c = c \<lparr> cn_leases := AList.update (l_Partition l)
     \<lparr> ps_epoch = l_Epoch l, ps_acquiredAt = now, ps_draining = False, ps_drainSince = 0, ps_inflight = 0 \<rparr> (cn_leases c) \<rparr>"

text \<open>Below the share: undrain first, then take free partitions and reset them.\<close>

definition acquireShare :: "int \<Rightarrow> nat \<Rightarrow> cstate \<Rightarrow> (sql_error + unit) \<times> cstate" where
  "acquireShare now need s =
     (let q = cn_queue (cs_consumer s); ow = cn_owner (cs_consumer s) in
      case call (\<lambda>e. Store_AcquirePartitions (e 0) q ow now (cn_leaseTTL (cs_consumer s)) (int need)) s of
        (Inl er, s1) \<Rightarrow> (Inl er, s1)
      | (Inr acquired, s1) \<Rightarrow>
          call (\<lambda>e. Store_ResetStale (e 0) q ow (Some (map l_Partition acquired))) (locally (fold (addLease now) acquired) s1))"

definition growShare :: "int \<Rightarrow> int list \<Rightarrow> nat \<Rightarrow> cstate \<Rightarrow> (sql_error + unit) \<times> cstate" where
  "growShare now draining need s =
     (let undrain = take need draining in
      case call (\<lambda>e. Store_SetDraining (e 0) (cn_queue (cs_consumer s)) (cn_owner (cs_consumer s)) undrain False) s of
        (Inl er, s1) \<Rightarrow> (Inl er, s1)
      | (Inr _, s1) \<Rightarrow>
          let s2 = locally (setLease (\<lambda>st. st \<lparr> ps_draining := False \<rparr>) undrain) s1; need1 = need - length undrain in
          if need1 = 0 then (Inr (), s2) else acquireShare now need1 s2)"

text \<open>Above the share: mark the candidates as draining and release what is drained already.\<close>

definition shrinkShare :: "int \<Rightarrow> int list \<Rightarrow> nat \<Rightarrow> cstate \<Rightarrow> (sql_error + unit) \<times> cstate" where
  "shrinkShare now active n s0 =
     (let s = snd (takeTurn s0); drain = drainCandidatesLocked (cs_consumer s) active n in
      case call (\<lambda>e. Store_SetDraining (e 0) (cn_queue (cs_consumer s)) (cn_owner (cs_consumer s)) drain True) s of
        (Inl er, s1) \<Rightarrow> (Inl er, s1)
      | (Inr _, s1) \<Rightarrow> releaseDrained now (locally (setLease (\<lambda>st. st \<lparr> ps_draining := True, ps_drainSince := now \<rparr>) drain) s1))"

definition adjustShare :: "int \<Rightarrow> int \<Rightarrow> cstate \<Rightarrow> (sql_error + unit) \<times> cstate" where
  "adjustShare now target s =
     (let active = activeLocked (cs_consumer s); draining = drainingLocked (cs_consumer s) in
      if int (length active) < target then growShare now draining (nat (target - int (length active))) s
      else if int (length active) > target then shrinkShare now active (nat (int (length active) - target)) s
      else (Inr (), s))"

definition seedPartitions :: "cstate \<Rightarrow> (sql_error + unit) \<times> cstate" where
  "seedPartitions s =
     (if cn_seeded (cs_consumer s) then (Inr (), s)
      else case call (\<lambda>e. Store_EnsurePartitions (e 0) (cn_queue (cs_consumer s))) s of
             (Inl er, s1) \<Rightarrow> (Inl er, s1)
           | (Inr u, s1) \<Rightarrow> (Inr u, locally (\<lambda>c. c \<lparr> cn_seeded := True \<rparr>) s1))"

definition renewAndAdjust :: "int \<Rightarrow> cstate \<Rightarrow> (sql_error + unit) \<times> cstate" where
  "renewAndAdjust now s =
     (let stopping = cn_stopping (cs_consumer s) in
      case call (\<lambda>e. Store_Heartbeat e (cn_queue (cs_consumer s)) (cn_owner (cs_consumer s)) now (cn_leaseTTL (cs_consumer s)) (\<not> stopping)) s of
        (Inl er, s1) \<Rightarrow> (Inl er, s1)
      | (Inr (held, members), s1) \<Rightarrow>
          (case consumer_resetStale now (locally (syncLeases held now) s1) of
             (Inl er, s2) \<Rightarrow> (Inl er, s2)
           | (Inr _, s2) \<Rightarrow>
               (case releaseDrained now s2 of
                  (Inl er, s3) \<Rightarrow> (Inl er, s3)
                | (Inr _, s3) \<Rightarrow> adjustShare now (if stopping then 0 else shareOf members) s3)))"

definition Consumer_Rebalance :: "int \<Rightarrow> cstate \<Rightarrow> sql_error list \<times> cstate" where
  "Consumer_Rebalance now s =
     (case seedPartitions s of
        (Inl er, s1) \<Rightarrow> ([er], s1)
      | (Inr _, s1) \<Rightarrow>
          (let (oe1, s2) = undispatchOrphans s1; (oe2, s3) = reconcileInFlight s2 in
           case renewAndAdjust now s3 of
             (Inl er, s4) \<Rightarrow> (oe1 @ oe2 @ [er], s4)
           | (Inr _, s4) \<Rightarrow> (oe1 @ oe2, s4)))"

definition Consumer_Close :: "cstate \<Rightarrow> sql_error list \<times> cstate" where
  "Consumer_Close s =
     (let (oe, s1) = undispatchOrphans s in
      case call (\<lambda>e. Store_Leave (e 0) (cn_queue (cs_consumer s1)) (cn_owner (cs_consumer s1))) s1 of
        (Inl er, s2) \<Rightarrow> (oe @ [er], s2)
      | (Inr _, s2) \<Rightarrow> (oe, locally (\<lambda>c. c \<lparr> cn_leases := [] \<rparr>) s2))"

section \<open>Every method is a run of store statements\<close>

text \<open>
  What a call does to the tables: a run of statements from what it sees, whose history has at least
  the versions that the model of the call keeps.
\<close>

definition store_reach :: "sql_conf \<Rightarrow> sql_conf \<Rightarrow> bool" where
  "store_reach c c' \<longleftrightarrow> (\<exists>evs hist'. sql_trace c evs (hist', snd c') \<and> set (fst c') \<subseteq> set hist')"

definition store_fun :: "((nat \<Rightarrow> sql_env) \<Rightarrow> sql_db \<Rightarrow> (sql_error + 'a) \<times> sql_db) \<Rightarrow> bool" where
  "store_fun f \<longleftrightarrow> (\<forall>es hist db. (\<forall>i. sees (es i) hist) \<longrightarrow>
     store_reach (hist, db) (partitions (snd (f es db)) # hist, snd (f es db)))"

lemma sees_mono: "sees e hist \<Longrightarrow> set hist \<subseteq> set hist2 \<Longrightarrow> sees e hist2"
  by (auto simp: sees_def split: option.splits)

lemma sql_trace_mono:
  "sql_trace c evs c' \<Longrightarrow> set (fst c) \<subseteq> set hist2
    \<Longrightarrow> \<exists>hist2'. sql_trace (hist2, snd c) evs (hist2', snd c') \<and> set (fst c') \<subseteq> set hist2'"
proof (induction rule: sql_trace.induct)
  case (sql_refl c)
  then show ?case using sql_trace.sql_refl by (metis (no_types))
next
  case (sql_step c evs hist db stmt e evs' db')
  then obtain h where h: "sql_trace (hist2, snd c) evs (h, db)" "set hist \<subseteq> set h" by auto
  have "sql_trace (hist2, snd c) (evs @ evs') (partitions db' # h, db')"
    using sql_trace.sql_step [OF h(1) sql_step.hyps(2) sees_mono [OF sql_step.hyps(3) h(2)] sql_step.hyps(4)] .
  with h(2) show ?case by (intro exI [of _ "partitions db' # h"]) auto
qed

lemma sql_trace_trans: "sql_trace b ys c \<Longrightarrow> sql_trace a xs b \<Longrightarrow> sql_trace a (xs @ ys) c"
proof (induction rule: sql_trace.induct)
  case (sql_step c evs hist db stmt e evs' db')
  then show ?case using sql_trace.sql_step [of a "xs @ evs"] by simp
qed simp

lemma store_reach_trans:
  assumes "store_reach a b" "store_reach b c"
  shows "store_reach a c"
proof -
  obtain xs h where 1: "sql_trace a xs (h, snd b)" "set (fst b) \<subseteq> set h" using assms(1) by (auto simp: store_reach_def)
  obtain ys h' where 2: "sql_trace b ys (h', snd c)" "set (fst c) \<subseteq> set h'" using assms(2) by (auto simp: store_reach_def)
  obtain h2 where 3: "sql_trace (h, snd b) ys (h2, snd c)" "set h' \<subseteq> set h2" using sql_trace_mono [OF 2(1) 1(2)] by auto
  with sql_trace_trans [OF 3(1) 1(1)] 2(2) show ?thesis unfolding store_reach_def by blast
qed

lemma store_reach_refl [simp]: "store_reach c c"
  unfolding store_reach_def by (metis order_refl prod.collapse sql_refl)

lemma store_reach_stmt:
  assumes "stmt_ok stmt" "sees e hist"
  shows "store_reach (hist, db) (partitions (snd (stmt_run e stmt db)) # hist, snd (stmt_run e stmt db))"
proof -
  have "sql_trace (hist, db) ([] @ fst (stmt_run e stmt db)) (partitions (snd (stmt_run e stmt db)) # hist, snd (stmt_run e stmt db))"
    by (rule sql_step [OF sql_refl assms]) simp
  then show ?thesis unfolding store_reach_def by (metis fst_conv order_refl snd_conv)
qed

lemma store_reach_same: "store_reach (hist, db) (partitions db # hist, db)"
proof -
  have "sees quietEnv hist" by simp
  from store_reach_stmt [OF _ this, of "SCancel []" db] show ?thesis by (simp add: cancelRows_def)
qed

lemma exec_cases: "snd (exec e answer db) = db \<or> snd (exec e answer db) = snd answer"
  by (simp add: exec_def split: db_fault.splits)

text \<open>A method of one statement: whatever its outcome, the tables are the old ones or those after it.\<close>

lemma store_fun_stmt:
  assumes "\<And>es db. snd (f es db) = db \<or> (\<exists>stmt. stmt_ok stmt \<and> snd (f es db) = snd (stmt_run (es 0) stmt db))"
  shows "store_fun f"
  unfolding store_fun_def using assms store_reach_same store_reach_stmt by (metis (no_types, lifting))

lemma store_fun_same: "(\<And>es db. snd (f es db) = db) \<Longrightarrow> store_fun f"
  by (rule store_fun_stmt) simp

lemma snd_case_dispatch: "snd (case x of (rows, db') \<Rightarrow> (Inr (g rows), db')) = snd x"
  by (simp split: prod.splits)

lemma store_fun_simple:
  "owner \<noteq> [] \<Longrightarrow> store_fun (\<lambda>e. Store_Dispatch (e 0) queue owner now limit)"
  "store_fun (\<lambda>e. Store_Ack (e 0) owner t completions)"
  "store_fun (\<lambda>e. Store_Retry (e 0) owner stamp notBefore envelope)"
  "store_fun (\<lambda>e. Store_Undispatch (e 0) owner stamps)"
  "store_fun (\<lambda>e. Store_Defer (e 0) owner stamps notBefore)"
  "store_fun (\<lambda>e. Store_ResetStale (e 0) queue owner only)"
  "store_fun (\<lambda>e. Store_EnsurePartitions (e 0) queue)"
  "store_fun (\<lambda>e. Store_SetDraining (e 0) queue owner ps d)"
  "store_fun (\<lambda>e. Store_ReleasePartitions (e 0) queue owner ps)"
  "store_fun (\<lambda>e. Store_Leave (e 0) queue owner)"
  "owner \<noteq> [] \<Longrightarrow> store_fun (\<lambda>e. Store_AcquirePartitions (e 0) queue owner now ttl limit)"
  "store_fun (\<lambda>e db. (Store_InFlight (e 0) queue owner db, db))"
proof -
  show "owner \<noteq> [] \<Longrightarrow> store_fun (\<lambda>e. Store_Dispatch (e 0) queue owner now limit)"
  proof (rule store_fun_stmt)
    fix es db assume "owner \<noteq> []"
    then show "snd (Store_Dispatch (es 0) queue owner now limit db) = db
        \<or> (\<exists>stmt. stmt_ok stmt \<and> snd (Store_Dispatch (es 0) queue owner now limit db) = snd (stmt_run (es 0) stmt db))"
      using exec_cases by (auto simp: Store_Dispatch_def snd_case_dispatch exec_def stmt_run_snd split: db_fault.splits prod.splits
        intro!: exI [of _ "SDispatch queue owner (now div 1000000000) (nat limit)"])
  qed
  show "store_fun (\<lambda>e. Store_Ack (e 0) owner t completions)"
    by (rule store_fun_stmt) (auto simp: Store_Ack_def exec_def split: db_fault.splits prod.splits
        intro!: exI [of _ "SAck owner t completions"])
  show "store_fun (\<lambda>e. Store_Retry (e 0) owner stamp notBefore envelope)"
    by (rule store_fun_stmt) (auto simp: Store_Retry_def exec_def split: db_fault.splits
        intro!: exI [of _ "SRetry owner stamp notBefore envelope"])
  have und: "snd (undispatch (es 0) owner stamps nb db) = db
      \<or> (\<exists>stmt. stmt_ok stmt \<and> snd (undispatch (es 0) owner stamps nb db) = snd (stmt_run (es 0) stmt db))" for es :: "nat \<Rightarrow> sql_env" and nb db
    by (auto simp: undispatch_def exec_def Let_def split: db_fault.splits intro!: exI [of _ "SUndispatch owner (uniqueStamps {} stamps) nb"])
  show "store_fun (\<lambda>e. Store_Undispatch (e 0) owner stamps)" "store_fun (\<lambda>e. Store_Defer (e 0) owner stamps notBefore)"
    unfolding Store_Undispatch_def Store_Defer_def by (rule store_fun_stmt, rule und)+
  show "store_fun (\<lambda>e. Store_ResetStale (e 0) queue owner only)"
    by (rule store_fun_stmt) (auto simp: Store_ResetStale_def exec_def split: db_fault.splits
        intro!: exI [of _ "SResetStale queue owner only"])
  show "store_fun (\<lambda>e. Store_EnsurePartitions (e 0) queue)"
    by (rule store_fun_stmt) (auto simp: Store_EnsurePartitions_def exec_def split: db_fault.splits
        intro!: exI [of _ "SEnsure queue"])
  show "store_fun (\<lambda>e. Store_SetDraining (e 0) queue owner ps d)"
    by (rule store_fun_stmt) (auto simp: Store_SetDraining_def exec_def split: db_fault.splits
        intro!: exI [of _ "SSetDraining queue owner ps d"])
  show "store_fun (\<lambda>e. Store_ReleasePartitions (e 0) queue owner ps)"
    by (rule store_fun_stmt) (auto simp: Store_ReleasePartitions_def exec_def split: db_fault.splits
        intro!: exI [of _ "SRelease queue owner ps"])
  show "store_fun (\<lambda>e. Store_Leave (e 0) queue owner)"
    by (rule store_fun_stmt) (auto simp: Store_Leave_def exec_def split: db_fault.splits intro!: exI [of _ "SLeave queue owner"])
  show "owner \<noteq> [] \<Longrightarrow> store_fun (\<lambda>e. Store_AcquirePartitions (e 0) queue owner now ttl limit)"
    by (rule store_fun_stmt) (auto simp: Store_AcquirePartitions_def exec_def split: db_fault.splits prod.splits
        intro!: exI [of _ "SAcquire queue owner (UnixMilli now) (UnixMilli (now + ttl)) (nat limit)"])
  show "store_fun (\<lambda>e db. (Store_InFlight (e 0) queue owner db, db))" by (rule store_fun_same) simp
qed

lemma store_reach_exec:
  assumes "stmt_ok stmt" "sees e hist" "snd answer = snd (stmt_run e stmt db)"
  shows "store_reach (hist, db) (partitions (snd (exec e answer db)) # hist, snd (exec e answer db))"
  using exec_cases [of e answer db] store_reach_same store_reach_stmt [OF assms(1,2)] assms(3) by metis

lemma store_reach_weaken: "store_reach c (hist, db) \<Longrightarrow> set hist' \<subseteq> set hist \<Longrightarrow> store_reach c (hist', db)"
  by (auto simp: store_reach_def)

lemma store_fun_heartbeat: "store_fun (\<lambda>e. Store_Heartbeat e queue owner now ttl member)"
  unfolding store_fun_def
proof (intro allI impI)
  fix es :: "nat \<Rightarrow> sql_env" and hist db assume sees: "\<forall>i. sees (es i) hist"
  let ?ex = "UnixMilli (now + ttl)"
  obtain r1 db1 where 1: "exec (es 0) (Inr (), memberRows queue owner ?ex member db) db = (r1, db1)" by fastforce
  obtain r2 db2 where 2: "exec (es 1) (Inr (), expireMembers queue (UnixMilli now) db1) db1 = (r2, db2)" by fastforce
  let ?ls = "queryLeases (filter (ownRow queue owner) (partitions (renewRows queue owner ?ex db2)))"
  let ?m = "int (length (filter (\<lambda>d. d_queue d = queue) (dispatchers db2)))"
  obtain r4 db4 where 4: "exec (es 3) (Inr (?ls, ?m), renewRows queue owner ?ex db2) db2 = (r4, db4)" by fastforce
  have a: "store_reach (hist, db) (partitions db1 # hist, db1)"
    using store_reach_exec [of "SMember queue owner ?ex member" "es 0" hist "(Inr (), memberRows queue owner ?ex member db)" db] sees 1
    by simp
  have "sees (es 1) (partitions db1 # hist)" "sees (es 3) (partitions db2 # partitions db1 # hist)"
    by (rule sees_mono [OF spec [OF sees]], auto)+
  then have b: "store_reach (partitions db1 # hist, db1) (partitions db2 # partitions db1 # hist, db2)"
    and c: "store_reach (partitions db2 # partitions db1 # hist, db2) (partitions db4 # partitions db2 # partitions db1 # hist, db4)"
    using store_reach_exec [of "SExpireMembers queue (UnixMilli now)" "es 1" "partitions db1 # hist"
        "(Inr (), expireMembers queue (UnixMilli now) db1)" db1] 2
      store_reach_exec [of "SRenew queue owner ?ex" "es 3" "partitions db2 # partitions db1 # hist"
        "(Inr (?ls, ?m), renewRows queue owner ?ex db2)" db2] 4 by simp_all
  have "snd (Store_Heartbeat es queue owner now ttl member db) \<in> {db1, db2, db4}"
    using 1 2 4 by (simp add: Store_Heartbeat_def Let_def split: sum.splits)
  moreover have "store_reach (hist, db) (partitions db2 # hist, db2)" "store_reach (hist, db) (partitions db4 # hist, db4)"
    using store_reach_trans [OF a b] store_reach_trans [OF store_reach_trans [OF a b] c]
    by (auto elim!: store_reach_weaken)
  ultimately show "store_reach (hist, db) (partitions (snd (Store_Heartbeat es queue owner now ttl member db)) # hist,
      snd (Store_Heartbeat es queue owner now ttl member db))" using a by auto
qed

lemmas store_funs = store_fun_simple store_fun_heartbeat

lemma runStmt_reach: "store_reach c (runStmt es c)"
proof (cases c)
  case (Pair hist db)
  obtain e stmt where es: "es = (e, stmt)" by fastforce
  have "sees (clamp hist e) hist" by (simp add: clamp_def) (simp add: sees_def)
  then show ?thesis using store_reach_stmt by (simp add: Pair es Let_def)
qed

lemma fold_runStmt_reach: "store_reach c (fold runStmt ss c)"
proof (induction ss arbitrary: c)
  case (Cons a ss)
  show ?case using store_reach_trans [OF runStmt_reach Cons.IH] by simp
qed simp

section \<open>The counters of a consumer\<close>

text \<open>
  A lease never counts more requests than the consumer tracks in that partition under that epoch, and a
  request is tracked or given up, not both.
\<close>

definition trackedIn :: "Consumer \<Rightarrow> int \<Rightarrow> int \<Rightarrow> nat" where
  "trackedIn c p e = length (filter (\<lambda>(k, t). tk_partition t = p \<and> tk_epoch t = e) (cn_inflight c))"

definition lease_ok :: "Consumer \<Rightarrow> int \<times> partitionState \<Rightarrow> bool" where
  "lease_ok c l \<longleftrightarrow> 0 \<le> ps_inflight (snd l) \<and> ps_inflight (snd l) \<le> int (trackedIn c (fst l) (ps_epoch (snd l)))"

definition consumer_inv :: "Consumer \<Rightarrow> bool" where
  "consumer_inv c \<longleftrightarrow> distinct (map fst (cn_leases c)) \<and> distinct (map fst (cn_inflight c)) \<and> distinct (map fst (cn_orphans c))
     \<and> (\<forall>l\<in>set (cn_leases c). lease_ok c l) \<and> fst ` set (cn_inflight c) \<inter> fst ` set (cn_orphans c) = {}"

lemma set_AList_update:
  assumes "distinct (map fst xs)"
  shows "set (AList.update k v xs) = insert (k, v) {x \<in> set xs. fst x \<noteq> k}"
  using assms by (induction xs) (auto simp: image_iff)

lemma set_AList_delete: "set (AList.delete k xs) = {x \<in> set xs. fst x \<noteq> k}"
  by (auto simp: AList.delete_eq)

lemma AList_delete_other: "k \<notin> fst ` set xs \<Longrightarrow> AList.delete k xs = xs"
  by (force simp: AList.delete_eq filter_id_conv)

lemma AList_delete_Cons: "AList.delete k (x # xs) = (if fst x = k then AList.delete k xs else x # AList.delete k xs)"
  by (cases x) (auto simp: AList.delete_eq)

lemma filter_AList_delete:
  assumes "distinct (map fst xs)" "map_of xs k = Some v"
  shows "length (filter P xs) = length (filter P (AList.delete k xs)) + (if P (k, v) then 1 else 0)"
  using assms by (induction xs) (auto simp: AList_delete_Cons AList_delete_other)

lemma filter_AList_update:
  assumes "map_of xs k = None"
  shows "length (filter P (AList.update k v xs)) = length (filter P xs) + (if P (k, v) then 1 else 0)"
  using assms by (induction xs) (auto split: if_splits)

lemma untrackLocked_simps [simp]:
  "cn_inflight (untrackLocked k t c) = AList.delete k (cn_inflight c)" "cn_orphans (untrackLocked k t c) = cn_orphans c"
  "cn_owner (untrackLocked k t c) = cn_owner c" "cn_queue (untrackLocked k t c) = cn_queue c" "cn_leaseTTL (untrackLocked k t c) = cn_leaseTTL c"
  by (simp_all add: untrackLocked_def Let_def split: option.splits)

lemma trackedIn_delete:
  assumes "distinct (map fst (cn_inflight c))" "map_of (cn_inflight c) k = Some t" "cn_inflight c' = AList.delete k (cn_inflight c)"
  shows "trackedIn c p e = trackedIn c' p e + (if tk_partition t = p \<and> tk_epoch t = e then 1 else 0)"
  using filter_AList_delete [OF assms(1,2), of "\<lambda>(k, t). tk_partition t = p \<and> tk_epoch t = e"] assms(3)
  by (simp add: trackedIn_def)

lemma distinct_AList_delete: "distinct (map fst xs) \<Longrightarrow> distinct (map fst (AList.delete k xs))"
  by (rule distinct_delete)

lemma untrackLocked_inv:
  assumes inv: "consumer_inv c" and t: "map_of (cn_inflight c) k = Some t"
  shows "consumer_inv (untrackLocked k t c)"
proof -
  let ?c = "untrackLocked k t c"
  have cnt: "trackedIn c p e = trackedIn ?c p e + (if tk_partition t = p \<and> tk_epoch t = e then 1 else 0)" for p e
    using trackedIn_delete [OF _ t, of ?c] inv by (simp add: consumer_inv_def)
  have leases: "lease_ok ?c l \<and> distinct (map fst (cn_leases ?c))" if "l \<in> set (cn_leases ?c)" for l
  proof (cases "\<exists>st. map_of (cn_leases c) (tk_partition t) = Some st \<and> ps_epoch st = tk_epoch t \<and> 0 < ps_inflight st")
    case True
    then obtain st where st: "map_of (cn_leases c) (tk_partition t) = Some st" "ps_epoch st = tk_epoch t" "0 < ps_inflight st" by blast
    then have eq: "cn_leases ?c = AList.update (tk_partition t) (st \<lparr> ps_inflight := ps_inflight st - 1 \<rparr>) (cn_leases c)"
      by (simp add: untrackLocked_def Let_def)
    have "lease_ok c (tk_partition t, st)" using inv map_of_SomeD [OF st(1)] by (auto simp: consumer_inv_def)
    then have "lease_ok ?c (tk_partition t, st \<lparr> ps_inflight := ps_inflight st - 1 \<rparr>)"
      using st cnt [of "tk_partition t" "tk_epoch t"] by (simp add: lease_ok_def)
    moreover have "\<forall>l'\<in>set (cn_leases c). fst l' \<noteq> tk_partition t \<longrightarrow> lease_ok ?c l'"
      using inv by (auto simp: consumer_inv_def lease_ok_def cnt)
    ultimately show ?thesis using that inv set_AList_update [of "cn_leases c"] by (auto simp: eq consumer_inv_def distinct_update)
  next
    case False
    then have eq: "cn_leases ?c = cn_leases c" by (auto simp: untrackLocked_def Let_def split: option.splits)
    have l: "l \<in> set (cn_leases c)" using that by (simp add: eq)
    then have ok: "lease_ok c l" using inv by (simp add: consumer_inv_def)
    have "ps_inflight (snd l) = 0" if "fst l = tk_partition t" "ps_epoch (snd l) = tk_epoch t"
    proof -
      have "map_of (cn_leases c) (tk_partition t) = Some (snd l)"
        using l that(1) inv by (simp add: consumer_inv_def) (metis map_of_eq_Some_iff prod.collapse)
      with False that(2) ok show ?thesis by (force simp: lease_ok_def)
    qed
    then have "lease_ok ?c l" using ok cnt [of "fst l" "ps_epoch (snd l)"] by (auto simp: lease_ok_def split: if_splits)
    then show ?thesis using inv by (simp add: eq consumer_inv_def)
  qed
  have "distinct (map fst (cn_leases ?c))" using leases by (cases "cn_leases ?c") auto
  then show ?thesis using leases inv by (auto simp: consumer_inv_def set_AList_delete distinct_AList_delete)
qed

lemma consumer_inv_flags:
  assumes "cn_leases c' = cn_leases c" "cn_inflight c' = cn_inflight c" "cn_orphans c' = cn_orphans c"
  shows "consumer_inv c' \<longleftrightarrow> consumer_inv c"
  using assms by (simp add: consumer_inv_def lease_ok_def trackedIn_def)

lemma doneStamp_inv: "consumer_inv c \<Longrightarrow> consumer_inv (doneStamp st c)"
  using untrackLocked_inv by (auto simp: doneStamp_def split: option.splits)

lemma abandonStamp_inv:
  assumes "consumer_inv c"
  shows "consumer_inv (abandonStamp st c)"
proof (cases "map_of (cn_inflight c) (st_Key st)")
  case (Some t)
  let ?k = "st_Key st"
  let ?c = "untrackLocked ?k t c"
  have inv: "consumer_inv ?c" using untrackLocked_inv [OF assms Some] .
  have "untrackLocked ?k t (c \<lparr> cn_orphans := os \<rparr>) = ?c \<lparr> cn_orphans := os \<rparr>" for os
    by (simp add: untrackLocked_def Let_def split: option.splits)
  moreover have "consumer_inv (?c \<lparr> cn_orphans := AList.update ?k a (cn_orphans c) \<rparr>)" for a
    using inv assms set_AList_update [of "cn_orphans c" ?k a]
    by (auto simp: consumer_inv_def lease_ok_def trackedIn_def set_AList_delete distinct_update)
  ultimately show ?thesis using assms Some by (simp add: abandonStamp_def)
qed (simp add: assms abandonStamp_def)

lemma fold_inv: "(\<And>x c. P c \<Longrightarrow> P (f x c)) \<Longrightarrow> P c \<Longrightarrow> P (fold f xs c)"
  by (induction xs arbitrary: c) auto

lemma applyEvent_inv: "consumer_inv c \<Longrightarrow> consumer_inv (applyEvent ev c)"
  by (cases ev) (auto simp: doneStamps_def Consumer_Abandon_def Consumer_Stop_def consumer_inv_flags [of "c \<lparr> cn_stopping := True \<rparr>" c]
    intro: fold_inv [of consumer_inv] doneStamp_inv abandonStamp_inv)

lemma trackRow_inv:
  assumes "consumer_inv c"
  shows "consumer_inv (trackRow r c)"
proof -
  let ?k = "Request_Key r"
  let ?t = "\<lparr> tk_partition = rq_Partition r, tk_epoch = rq_Epoch r, tk_attempt = rq_Attempt r \<rparr>"
  define c1 where "c1 = (case map_of (cn_inflight c) ?k of None \<Rightarrow> c | Some prev \<Rightarrow> untrackLocked ?k prev c)"
  have inv: "consumer_inv c1" using assms untrackLocked_inv by (auto simp: c1_def split: option.splits)
  have none: "map_of (cn_inflight c1) ?k = None" by (auto simp: c1_def delete_conv' split: option.splits)
  define c2 where "c2 = c1 \<lparr> cn_orphans := AList.delete ?k (cn_orphans c1), cn_inflight := AList.update ?k ?t (cn_inflight c1) \<rparr>"
  have cnt: "trackedIn c2 p e = trackedIn c1 p e + (if rq_Partition r = p \<and> rq_Epoch r = e then 1 else 0)" for p e
    using filter_AList_update [OF none, of "\<lambda>(k, t). tk_partition t = p \<and> tk_epoch t = e" ?t] by (simp add: trackedIn_def c2_def)
  have l2: "lease_ok c2 l" if "l \<in> set (cn_leases c2)" for l
    using that inv cnt [of "fst l" "ps_epoch (snd l)"] by (auto simp: c2_def consumer_inv_def lease_ok_def)
  have inv2: "consumer_inv c2"
    using inv l2 set_AList_update [of "cn_inflight c1" ?k ?t]
    by (auto simp: c2_def consumer_inv_def set_AList_delete distinct_AList_delete distinct_update)
  have upd: "consumer_inv (c2 \<lparr> cn_leases := AList.update (rq_Partition r) (st \<lparr> ps_inflight := ps_inflight st + 1 \<rparr>) (cn_leases c2) \<rparr>)"
    if st: "map_of (cn_leases c2) (rq_Partition r) = Some st" "ps_epoch st = rq_Epoch r" for st
  proof -
    have "lease_ok c1 (rq_Partition r, st)" using inv map_of_SomeD [OF st(1)] by (auto simp: consumer_inv_def c2_def)
    then have "lease_ok c2 (rq_Partition r, st \<lparr> ps_inflight := ps_inflight st + 1 \<rparr>)"
      using cnt [of "rq_Partition r" "rq_Epoch r"] st(2) by (simp add: lease_ok_def)
    then show ?thesis using inv2 set_AList_update [of "cn_leases c2"]
      by (auto simp: consumer_inv_def distinct_update lease_ok_def trackedIn_def)
  qed
  have "trackRow r c = (case map_of (cn_leases c2) (rq_Partition r) of None \<Rightarrow> c2
     | Some st \<Rightarrow> if ps_epoch st = rq_Epoch r
         then c2 \<lparr> cn_leases := AList.update (rq_Partition r) (st \<lparr> ps_inflight := ps_inflight st + 1 \<rparr>) (cn_leases c2) \<rparr> else c2)"
    by (simp only: trackRow_def Let_def c2_def c1_def)
  with inv2 upd show ?thesis by (simp split: option.splits)
qed

lemma consumer_inv_leases:
  assumes "consumer_inv c" "distinct (map fst ls)" "\<And>l. l \<in> set ls \<Longrightarrow> lease_ok c l"
  shows "consumer_inv (c \<lparr> cn_leases := ls \<rparr>)"
  using assms by (auto simp: consumer_inv_def lease_ok_def trackedIn_def)

lemma lease_ok_new [simp]: "lease_ok c (p, \<lparr> ps_epoch = e, ps_acquiredAt = t, ps_draining = d, ps_drainSince = t', ps_inflight = 0 \<rparr>)"
  by (simp add: lease_ok_def)

lemma syncLease_ok:
  assumes "consumer_inv c"
  shows "lease_ok c (l_Partition l, snd (syncLease now c l))"
proof (cases "map_of (cn_leases c) (l_Partition l)")
  case (Some st)
  then have "lease_ok c (l_Partition l, st)" using assms map_of_SomeD [OF Some] by (auto simp: consumer_inv_def)
  with Some show ?thesis by (auto simp: syncLease_def Let_def lease_ok_def)
qed (simp add: syncLease_def Let_def lease_ok_def)

lemma fold_update_leases:
  assumes "distinct (map fst ls)" "\<forall>l\<in>set ls. lease_ok c l" "\<And>x. lease_ok c (f x, g x)"
  shows "distinct (map fst (fold (\<lambda>x ls. AList.update (f x) (g x) ls) xs ls))
    \<and> (\<forall>l\<in>set (fold (\<lambda>x ls. AList.update (f x) (g x) ls) xs ls). lease_ok c l)"
  using assms(1,2)
proof (induction xs arbitrary: ls)
  case (Cons x xs)
  have "distinct (map fst (AList.update (f x) (g x) ls))" "\<forall>l\<in>set (AList.update (f x) (g x) ls). lease_ok c l"
    using Cons.prems assms(3) by (auto simp: set_AList_update distinct_update)
  from Cons.IH [OF this] show ?case by simp
qed simp

lemma syncLeases_inv: "consumer_inv c \<Longrightarrow> consumer_inv (syncLeases held now c)"
  unfolding syncLeases_def using fold_update_leases [of "[]" c l_Partition "\<lambda>l. snd (syncLease now c l)" held] syncLease_ok
  by (intro consumer_inv_leases) auto

lemma addLease_inv: "consumer_inv c \<Longrightarrow> consumer_inv (addLease now l c)"
  unfolding addLease_def by (rule consumer_inv_leases) (auto simp: consumer_inv_def set_AList_update distinct_update)

lemma setLease_inv:
  assumes "consumer_inv c" "\<And>st. ps_epoch (f st) = ps_epoch st \<and> ps_inflight (f st) = ps_inflight st"
  shows "consumer_inv (setLease f ps c)"
  unfolding setLease_def
proof (rule consumer_inv_leases [OF assms(1)])
  have "map fst (map (\<lambda>(p, st). (p, if p \<in> set ps then f st else st)) (cn_leases c)) = map fst (cn_leases c)"
    by (simp add: comp_def split_def)
  then show "distinct (map fst (map (\<lambda>(p, st). (p, if p \<in> set ps then f st else st)) (cn_leases c)))"
    using assms(1) by (simp only: consumer_inv_def)
  show "lease_ok c l" if "l \<in> set (map (\<lambda>(p, st). (p, if p \<in> set ps then f st else st)) (cn_leases c))" for l
    using that assms by (auto simp: consumer_inv_def lease_ok_def split: if_splits)
qed

lemma dropLeases_inv: "consumer_inv c \<Longrightarrow> consumer_inv (c \<lparr> cn_leases := filter P (cn_leases c) \<rparr>)"
  by (rule consumer_inv_leases) (auto simp: consumer_inv_def distinct_map_filter)

lemma forgetOrphan_inv: "consumer_inv c \<Longrightarrow> consumer_inv (forgetOrphan st c)"
  by (auto simp: forgetOrphan_def consumer_inv_def lease_ok_def trackedIn_def set_AList_delete distinct_AList_delete split: option.splits)

section \<open>What a method keeps\<close>

text \<open>
  One relation for all methods: the consumer keeps its name and its invariant, and the tables move by a
  run of store statements.
\<close>

definition keeps :: "Consumer \<Rightarrow> Consumer \<Rightarrow> bool" where
  "keeps c c' \<longleftrightarrow> cn_owner c' = cn_owner c \<and> cn_queue c' = cn_queue c \<and> cn_leaseTTL c' = cn_leaseTTL c \<and> (consumer_inv c \<longrightarrow> consumer_inv c')"

definition steps :: "cstate \<Rightarrow> cstate \<Rightarrow> bool" where
  "steps s s' \<longleftrightarrow> (cn_owner (cs_consumer s) \<noteq> [] \<longrightarrow>
     keeps (cs_consumer s) (cs_consumer s') \<and> store_reach (cs_conf s) (cs_conf s'))"

lemma keeps_refl [simp]: "keeps c c"
  by (simp add: keeps_def)

lemma keeps_trans: "keeps a b \<Longrightarrow> keeps b c \<Longrightarrow> keeps a c"
  by (simp add: keeps_def)

lemma steps_refl [simp]: "steps s s"
  by (simp add: steps_def)

lemma steps_trans: "steps a b \<Longrightarrow> steps b c \<Longrightarrow> steps a c"
  using keeps_trans store_reach_trans unfolding steps_def by (metis keeps_def)

lemma steps_locally: "(\<And>c. keeps c (g c)) \<Longrightarrow> steps s (locally g s)"
  by (simp add: steps_def locally_def)

lemma keeps_fold: "(\<And>x c. keeps c (f x c)) \<Longrightarrow> keeps c (fold f xs c)"
proof (induction xs arbitrary: c)
  case (Cons x xs)
  have "keeps (f x c) (fold f xs (f x c))" by (rule Cons.IH) (rule Cons.prems)
  then show ?case using keeps_trans [OF Cons.prems] by simp
qed simp

lemma keeps_doneStamp: "keeps c (doneStamp st c)"
  using doneStamp_inv [of c st] by (simp add: keeps_def) (simp add: doneStamp_def split: option.splits)

lemma keeps_abandonStamp: "keeps c (abandonStamp st c)"
  using abandonStamp_inv [of c st] by (simp add: keeps_def) (simp add: abandonStamp_def split: option.splits)

lemma keeps_trackRow: "keeps c (trackRow r c)"
  using trackRow_inv [of c r] by (simp add: keeps_def) (simp add: trackRow_def Let_def split: option.splits)

lemma keeps_forgetOrphan: "keeps c (forgetOrphan st c)"
  using forgetOrphan_inv [of c st] by (simp add: keeps_def) (simp add: forgetOrphan_def split: option.splits)

lemma keeps_sections:
  "keeps c (doneStamps sts c)" "keeps c (Consumer_Abandon sts c)" "keeps c (Consumer_Stop c)" "keeps c (fold trackRow rows c)"
  "keeps c (fold forgetOrphan sts c)" "keeps c (fold (addLease now) ls c)" "keeps c (syncLeases held now c)"
  "keeps c (c \<lparr> cn_reconcile := b \<rparr>)" "keeps c (c \<lparr> cn_seeded := b \<rparr>)" "keeps c (c \<lparr> cn_beats := n \<rparr>)"
  "keeps c (c \<lparr> cn_leases := filter P (cn_leases c) \<rparr>)" "keeps c (c \<lparr> cn_leases := [] \<rparr>)"
  "keeps c (setLease (\<lambda>st. st \<lparr> ps_draining := d \<rparr>) ps c)" "keeps c (setLease (\<lambda>st. st \<lparr> ps_draining := d, ps_drainSince := t \<rparr>) ps c)"
proof -
  show "keeps c (doneStamps sts c)" unfolding doneStamps_def by (rule keeps_fold) (rule keeps_doneStamp)
  show "keeps c (Consumer_Abandon sts c)" unfolding Consumer_Abandon_def by (rule keeps_fold) (rule keeps_abandonStamp)
  show "keeps c (fold trackRow rows c)" by (rule keeps_fold) (rule keeps_trackRow)
  show "keeps c (fold forgetOrphan sts c)" by (rule keeps_fold) (rule keeps_forgetOrphan)
  show "keeps c (fold (addLease now) ls c)"
    by (rule keeps_fold) (simp add: keeps_def addLease_inv, simp add: addLease_def)
  show "keeps c (syncLeases held now c)" by (simp add: keeps_def syncLeases_inv) (simp add: syncLeases_def)
  show "keeps c (c \<lparr> cn_leases := filter P (cn_leases c) \<rparr>)" by (simp add: keeps_def dropLeases_inv)
  show "keeps c (c \<lparr> cn_leases := [] \<rparr>)" using dropLeases_inv [of c "\<lambda>_. False"] by (simp add: keeps_def)
  show "keeps c (setLease (\<lambda>st. st \<lparr> ps_draining := d \<rparr>) ps c)"
    "keeps c (setLease (\<lambda>st. st \<lparr> ps_draining := d, ps_drainSince := t \<rparr>) ps c)"
    by (simp_all add: keeps_def setLease_inv) (simp_all add: setLease_def)
qed (simp_all add: keeps_def Consumer_Stop_def consumer_inv_def lease_ok_def trackedIn_def)

lemma keeps_event: "keeps c (applyEvent ev c)"
  by (cases ev) (simp_all add: keeps_sections)

lemma steps_turn: "steps s (snd (takeTurn s))"
  using keeps_fold [of applyEvent, OF keeps_event] fold_runStmt_reach
  by (simp add: takeTurn_def steps_def split: list.splits)

lemma takeTurn_owner: "cn_owner (cs_consumer s) \<noteq> [] \<Longrightarrow> cn_owner (cs_consumer (snd (takeTurn s))) = cn_owner (cs_consumer s)"
  using steps_turn [of s] by (simp add: steps_def keeps_def)

lemma steps_call:
  assumes "cn_owner (cs_consumer s) \<noteq> [] \<Longrightarrow> store_fun f"
  shows "steps s (snd (call f s))"
proof -
  obtain t s1 where t: "takeTurn s = (t, s1)" by fastforce
  obtain hist db where c: "cs_conf s1 = (hist, db)" by fastforce
  have 1: "steps s s1" using steps_turn [of s] t by simp
  have sees: "\<forall>i. sees (clamp hist (tn_env t i)) hist" by (simp add: clamp_def) (simp add: sees_def)
  have eq: "snd (call f s) = s1 \<lparr> cs_conf := (partitions (snd (f (\<lambda>i. clamp hist (tn_env t i)) db)) # hist, snd (f (\<lambda>i. clamp hist (tn_env t i)) db)) \<rparr>"
    by (simp add: call_def t c split: prod.splits)
  have "steps s1 (snd (call f s))" if "cn_owner (cs_consumer s) \<noteq> []"
    using assms [OF that] sees unfolding eq by (simp add: steps_def c store_fun_def)
  then show ?thesis using steps_trans [OF 1] by (simp add: steps_def)
qed

text \<open>Sequencing: the first action, then the branch of its result.\<close>

lemma steps_case:
  assumes "steps s (snd m)" "\<And>er s1. m = (Inl er, s1) \<Longrightarrow> steps s1 (snd (h er s1))" "\<And>x s1. m = (Inr x, s1) \<Longrightarrow> steps s1 (snd (k x s1))"
  shows "steps s (snd (case m of (Inl er, s1) \<Rightarrow> h er s1 | (Inr x, s1) \<Rightarrow> k x s1))"
proof (cases m)
  case (Pair res s1)
  show ?thesis
  proof (cases res)
    case (Inl er)
    with Pair assms(1,2) show ?thesis by (auto intro: steps_trans)
  next
    case (Inr x)
    with Pair assms(1,3) show ?thesis by (auto intro: steps_trans)
  qed
qed

lemma steps_outcomes:
  "steps s (snd (Consumer_Poll now limit s))" "steps s (snd (Consumer_Ack t cs s))" "steps s (snd (Consumer_Retry st nb env s))"
  "steps s (snd (Consumer_Undispatch sts s))" "steps s (snd (Consumer_Defer sts nb s))"
  unfolding Consumer_Poll_def Consumer_Ack_def Consumer_Retry_def Consumer_Undispatch_def Consumer_Defer_def
  by (rule steps_case, rule steps_call, simp add: store_funs, simp_all add: steps_locally keeps_sections)+

lemma steps_undispatchOrphans: "steps s (snd (undispatchOrphans s))"
  unfolding undispatchOrphans_def Let_def if_distrib [of snd]
  by (split if_split, intro conjI impI, simp, rule steps_case, rule steps_call, simp_all add: store_funs steps_locally keeps_sections)

lemma steps_reconcileInFlight: "steps s (snd (reconcileInFlight s))"
  unfolding reconcileInFlight_def Let_def if_distrib [of snd]
  by (split if_split, intro conjI impI, simp, rule steps_case, rule steps_call, simp add: store_funs, simp,
      rule steps_case, rule steps_call, simp_all add: store_funs steps_locally keeps_sections)

lemma steps_seedPartitions: "steps s (snd (seedPartitions s))"
  unfolding seedPartitions_def if_distrib [of snd]
  by (split if_split, intro conjI impI, simp, rule steps_case, rule steps_call, simp_all add: store_funs steps_locally keeps_sections)

lemma steps_resetStale: "steps s (snd (consumer_resetStale now s))"
  unfolding consumer_resetStale_def Let_def
  by (rule steps_trans [OF steps_locally steps_call]) (simp_all add: store_funs keeps_sections)

lemma steps_releaseDrained: "steps s (snd (releaseDrained now s))"
  unfolding releaseDrained_def Let_def
  by (rule steps_case, rule steps_call, simp_all add: store_funs steps_locally keeps_sections)

lemma steps_owner: "steps s s' \<Longrightarrow> cn_owner (cs_consumer s) \<noteq> [] \<Longrightarrow> cn_owner (cs_consumer s') = cn_owner (cs_consumer s)"
  by (simp add: steps_def keeps_def)

lemma steps_if_owner: "(cn_owner (cs_consumer s) \<noteq> [] \<Longrightarrow> steps s s') \<Longrightarrow> steps s s'"
  by (simp add: steps_def)

lemma steps_acquireShare: "steps s (snd (acquireShare now need s))"
proof (rule steps_if_owner)
  assume ow: "cn_owner (cs_consumer s) \<noteq> []"
  have fin: "steps s1 (snd (call (\<lambda>e. Store_ResetStale (e 0) q o1 only) (locally (fold (addLease now) acq) s1)))" for q o1 only acq s1
    by (rule steps_trans [OF steps_locally steps_call]) (simp_all add: store_funs keeps_sections)
  show "steps s (snd (acquireShare now need s))"
    unfolding acquireShare_def Let_def by (rule steps_case, rule steps_call, simp add: store_funs ow, simp, rule fin)
qed

lemma steps_growShare: "steps s (snd (growShare now draining need s))"
  unfolding growShare_def Let_def
  by (rule steps_case, rule steps_call, simp add: store_funs, simp, subst if_distrib [of snd], split if_split,
      intro conjI impI, simp add: steps_locally keeps_sections,
      rule steps_trans [OF steps_locally steps_acquireShare], simp add: keeps_sections)

lemma steps_shrinkShare: "steps s (snd (shrinkShare now active n s))"
  unfolding shrinkShare_def Let_def
  by (rule steps_trans [OF steps_turn], rule steps_case, rule steps_call, simp add: store_funs, simp,
      rule steps_trans [OF steps_locally steps_releaseDrained], simp add: keeps_sections)

lemma steps_adjustShare: "steps s (snd (adjustShare now target s))"
  by (simp add: adjustShare_def Let_def steps_growShare steps_shrinkShare)

lemma steps_renewAndAdjust: "steps s (snd (renewAndAdjust now s))"
  unfolding renewAndAdjust_def Let_def
proof (rule steps_case)
  fix x s1
  show "steps s1 (snd (case x of (held, members) \<Rightarrow>
      (case consumer_resetStale now (locally (syncLeases held now) s1) of (Inl er, s2) \<Rightarrow> (Inl er, s2)
       | (Inr _, s2) \<Rightarrow> (case releaseDrained now s2 of (Inl er, s3) \<Rightarrow> (Inl er, s3)
           | (Inr _, s3) \<Rightarrow> adjustShare now (if cn_stopping (cs_consumer s) then 0 else shareOf members) s3))))"
  proof (cases x)
    case (Pair held members)
    show ?thesis unfolding Pair prod.case
      by (rule steps_trans [OF steps_locally [of "syncLeases held now"]], simp add: keeps_sections,
          rule steps_case, rule steps_resetStale, simp, rule steps_case, rule steps_releaseDrained, simp, rule steps_adjustShare)
  qed
qed (simp_all add: steps_call store_funs)

lemma steps_Rebalance: "steps s (snd (Consumer_Rebalance now s))"
  unfolding Consumer_Rebalance_def
proof (rule steps_case [OF steps_seedPartitions])
  fix u s1
  obtain oe1 s2 where 2: "undispatchOrphans s1 = (oe1, s2)" by fastforce
  obtain oe2 s3 where 3: "reconcileInFlight s2 = (oe2, s3)" by fastforce
  have "steps s1 s3" using steps_undispatchOrphans [of s1] steps_reconcileInFlight [of s2] steps_trans by (simp add: 2 3)
  moreover have "steps s3 (snd (case renewAndAdjust now s3 of (Inl er, s4) \<Rightarrow> (oe1 @ oe2 @ [er], s4) | (Inr _, s4) \<Rightarrow> (oe1 @ oe2, s4)))"
    by (rule steps_case) (simp_all add: steps_renewAndAdjust)
  ultimately show "steps s1 (snd (let (oe1, s2) = undispatchOrphans s1; (oe2, s3) = reconcileInFlight s2 in
      case renewAndAdjust now s3 of (Inl er, s4) \<Rightarrow> (oe1 @ oe2 @ [er], s4) | (Inr _, s4) \<Rightarrow> (oe1 @ oe2, s4)))"
    using steps_trans by (simp add: 2 3)
qed simp

lemma steps_Close: "steps s (snd (Consumer_Close s))"
proof -
  obtain oe s1 where 1: "undispatchOrphans s = (oe, s1)" by fastforce
  have "steps s1 (snd (Consumer_Close s))"
    unfolding Consumer_Close_def 1 Let_def prod.case
    by (rule steps_case, rule steps_call, simp_all add: store_funs steps_locally keeps_sections)
  with steps_undispatchOrphans [of s] show ?thesis using steps_trans by (simp add: 1)
qed

text \<open>The methods by which a consumer of a queue acts.\<close>

datatype consumer_method =
    MPoll int int | MAck int "Completion list" | MRetry Stamp int string | MUndispatch "Stamp list" | MDefer "Stamp list" int
  | MAbandon "Stamp list" | MStop | MRebalance int | MClose

fun runMethod :: "consumer_method \<Rightarrow> cstate \<Rightarrow> cstate" where
  "runMethod (MPoll now limit) s = snd (Consumer_Poll now limit s)"
| "runMethod (MAck t cs) s = snd (Consumer_Ack t cs s)"
| "runMethod (MRetry st nb env) s = snd (Consumer_Retry st nb env s)"
| "runMethod (MUndispatch sts) s = snd (Consumer_Undispatch sts s)"
| "runMethod (MDefer sts nb) s = snd (Consumer_Defer sts nb s)"
| "runMethod (MAbandon sts) s = locally (Consumer_Abandon sts) s"
| "runMethod MStop s = locally Consumer_Stop s"
| "runMethod (MRebalance now) s = snd (Consumer_Rebalance now s)"
| "runMethod MClose s = snd (Consumer_Close s)"

lemma steps_runMethod: "steps s (runMethod m s)"
  by (cases m) (simp_all add: steps_outcomes steps_Rebalance steps_Close steps_locally keeps_sections)

lemma steps_runMethods: "steps s (fold runMethod ms s)"
proof (induction ms arbitrary: s)
  case (Cons m ms)
  show ?case using steps_trans [OF steps_runMethod Cons.IH] by simp
qed simp

definition startConsumer :: "string \<Rightarrow> string \<Rightarrow> int \<Rightarrow> int \<Rightarrow> turn list \<Rightarrow> sql_conf \<Rightarrow> cstate" where
  "startConsumer queue owner ttl drain ts conf = \<lparr> cs_consumer = NewConsumer queue owner ttl drain, cs_turns = ts, cs_conf = conf \<rparr>"



text \<open>
  C15: In every run of a consumer, under every interference, the in-flight counter of a lease is between
  zero and the number of requests that it tracks in that partition under the epoch of the lease, so a
  draining partition with nothing left to wait for has counter zero and is released at the next
  rebalance; and no request is tracked and given up at once.
\<close>

theorem inflight_counters_are_bounded:
  assumes "owner \<noteq> []" "c = cs_consumer (fold runMethod ms (startConsumer queue owner ttl drain ts conf))"
    and "map_of (cn_leases c) p = Some st"
  shows "0 \<le> ps_inflight st \<and> ps_inflight st \<le> int (length (filter (\<lambda>(k, t). tk_partition t = p \<and> tk_epoch t = ps_epoch st) (cn_inflight c)))
    \<and> (ps_draining st \<longrightarrow> (\<forall>(k, t)\<in>set (cn_inflight c). tk_partition t \<noteq> p) \<longrightarrow> p \<in> set (releasable now c))
    \<and> dom (map_of (cn_inflight c)) \<inter> dom (map_of (cn_orphans c)) = {}"
proof -
  let ?s = "startConsumer queue owner ttl drain ts conf"
  have "consumer_inv (cs_consumer ?s)" by (simp add: startConsumer_def NewConsumer_def consumer_inv_def)
  then have inv: "consumer_inv c"
    using steps_runMethods [of ?s ms] assms(1,2) by (simp add: steps_def keeps_def) (simp add: startConsumer_def NewConsumer_def)
  have l: "(p, st) \<in> set (cn_leases c)" using map_of_SomeD [OF assms(3)] .
  then have ok: "lease_ok c (p, st)" using inv by (simp add: consumer_inv_def)
  have "p \<in> set (releasable now c)" if "ps_draining st" "\<forall>(k, t)\<in>set (cn_inflight c). tk_partition t \<noteq> p"
  proof -
    have "filter (\<lambda>(k, t). tk_partition t = p \<and> tk_epoch t = ps_epoch st) (cn_inflight c) = []"
      using that(2) by (auto simp: filter_empty_conv)
    then have "ps_inflight st = 0" using ok by (simp add: lease_ok_def trackedIn_def)
    then show ?thesis using l that(1) by (force simp: releasable_def)
  qed
  moreover have "dom (map_of (cn_inflight c)) \<inter> dom (map_of (cn_orphans c)) = {}"
    using inv by (simp add: consumer_inv_def dom_map_of_conv_image_fst)
  ultimately show ?thesis using ok by (simp add: lease_ok_def trackedIn_def)
qed

section \<open>An undisturbed rebalance\<close>

definition sdb :: "cstate \<Rightarrow> sql_db" where
  "sdb s = snd (cs_conf s)"

definition undisturbed :: "cstate \<Rightarrow> bool" where
  "undisturbed s \<longleftrightarrow> cs_turns s = [] \<and> sql_inv (cs_conf s) \<and> consumer_inv (cs_consumer s) \<and> cn_owner (cs_consumer s) \<noteq> []"

lemma sql_inv_subset: "sql_inv (hist, db) \<Longrightarrow> set hist' \<subseteq> set hist \<Longrightarrow> sql_inv (hist', db)"
  by auto

lemma store_reach_inv:
  assumes "store_reach c c'" "sql_inv c"
  shows "sql_inv c'"
proof -
  obtain evs h where "sql_trace c evs (h, snd c')" "set (fst c') \<subseteq> set h" using assms(1) by (auto simp: store_reach_def)
  then show ?thesis using sql_trace_inv [OF _ assms(2)] sql_inv_subset by (metis prod.collapse)
qed

lemma undisturbed_steps:
  "undisturbed s \<Longrightarrow> steps s s' \<Longrightarrow> cs_turns s' = [] \<Longrightarrow> undisturbed s'"
  using store_reach_inv [of "cs_conf s" "cs_conf s'"] by (auto simp: undisturbed_def steps_def keeps_def)

lemma undisturbed_parts: "undisturbed s \<Longrightarrow> parts_ok (partitions (sdb s))"
  by (cases "cs_conf s") (auto simp: undisturbed_def sdb_def)

lemma takeTurn_quiet [simp]: "cs_turns s = [] \<Longrightarrow> takeTurn s = (quietTurn, s)"
  by (simp add: takeTurn_def)

lemma call_quiet:
  assumes "cs_turns s = []"
  shows "fst (call f s) = fst (f (\<lambda>_. quietEnv) (sdb s))" "cs_consumer (snd (call f s)) = cs_consumer s"
    "cs_turns (snd (call f s)) = []" "sdb (snd (call f s)) = snd (f (\<lambda>_. quietEnv) (sdb s))"
proof -
  have "clamp hist quietEnv = quietEnv" for hist by (simp add: clamp_def)
  then show "fst (call f s) = fst (f (\<lambda>_. quietEnv) (sdb s))" "cs_consumer (snd (call f s)) = cs_consumer s"
    "cs_turns (snd (call f s)) = []" "sdb (snd (call f s)) = snd (f (\<lambda>_. quietEnv) (sdb s))"
    using assms by (simp_all add: call_def quietTurn_def sdb_def split: prod.splits)
qed

lemma locally_simps [simp]: "cs_consumer (locally g s) = g (cs_consumer s)" "cs_turns (locally g s) = cs_turns s" "sdb (locally g s) = sdb s"
  by (simp_all add: locally_def sdb_def)

text \<open>The leases of the consumer and the partitions that the table gives it, as sets of partition, epoch and draining flag.\<close>

definition lease_view :: "Consumer \<Rightarrow> (int \<times> int \<times> bool) set" where
  "lease_view c = (\<lambda>(p, st). (p, ps_epoch st, ps_draining st)) ` set (cn_leases c)"

definition owned_view :: "string \<Rightarrow> string \<Rightarrow> sql_db \<Rightarrow> (int \<times> int \<times> bool) set" where
  "owned_view queue owner db = (\<lambda>r. (p_partition r, p_epoch r, p_draining r)) ` {r \<in> set (partitions db). ownRow queue owner r}"

definition agrees :: "cstate \<Rightarrow> bool" where
  "agrees s \<longleftrightarrow> lease_view (cs_consumer s) = owned_view (cn_queue (cs_consumer s)) (cn_owner (cs_consumer s)) (sdb s)"

text \<open>No lease of the consumer can be taken from it at the given time.\<close>

definition renewed :: "int \<Rightarrow> cstate \<Rightarrow> bool" where
  "renewed nowMs s \<longleftrightarrow> (\<forall>r\<in>set (partitions (sdb s)). ownRow (cn_queue (cs_consumer s)) (cn_owner (cs_consumer s)) r \<longrightarrow> nowMs \<le> p_expires_ms r)"

lemma own_partition_inj:
  assumes "parts_ok ps" "r \<in> set ps" "r' \<in> set ps" "p_queue r = p_queue r'" "p_partition r = p_partition r'"
  shows "r = r'"
  using assms by (auto simp: parts_ok_def distinct_map inj_on_def p_key_def)

lemma distinct_held: "parts_ok ps \<Longrightarrow> distinct (map l_Partition (queryLeases (filter (ownRow queue owner) ps)))"
proof -
  assume ok: "parts_ok ps"
  then have "distinct (map p_key (filter (ownRow queue owner) ps))" by (simp add: parts_ok_def distinct_map_filter)
  then have "distinct (map p_partition (filter (ownRow queue owner) ps))"
    by (auto simp: distinct_map inj_on_def p_key_def ownRow_def)
  then have "distinct (map l_Partition (map leaseRow (filter (ownRow queue owner) ps)))" by (simp add: comp_def leaseRow_def)
  then show ?thesis unfolding queryLeases_def by (simp only: distinct_map set_sort distinct_sort)
qed

lemma syncLease_simps [simp]: "ps_epoch (snd (syncLease now c l)) = l_Epoch l" "ps_draining (snd (syncLease now c l)) = l_Draining l"
  by (auto simp: syncLease_def Let_def split: option.splits)

lemma set_fold_update:
  assumes "distinct (map f xs)" "distinct (map fst ls)" "\<forall>x\<in>set xs. f x \<notin> fst ` set ls"
  shows "set (fold (\<lambda>x ls. AList.update (f x) (g x) ls) xs ls) = set ls \<union> (\<lambda>x. (f x, g x)) ` set xs"
  using assms
proof (induction xs arbitrary: ls)
  case (Cons x xs)
  let ?ls = "AList.update (f x) (g x) ls"
  have "set ?ls = insert (f x, g x) (set ls)" using Cons.prems by (force simp: set_AList_update)
  moreover have "\<forall>y\<in>set xs. f y \<noteq> f x" using Cons.prems(1) by (simp, metis image_eqI)
  ultimately have "\<forall>y\<in>set xs. f y \<notin> fst ` set ?ls" "set ?ls = insert (f x, g x) (set ls)" using Cons.prems(3) by auto
  then show ?case using Cons.IH [of ?ls] Cons.prems by (simp add: distinct_update)
qed simp

lemma sync_view:
  assumes "distinct (map l_Partition held)"
  shows "lease_view (syncLeases held now c) = (\<lambda>l. (l_Partition l, l_Epoch l, l_Draining l)) ` set held"
  using set_fold_update [OF assms, of "[]" "\<lambda>l. snd (syncLease now c l)"]
  by (simp add: lease_view_def syncLeases_def image_image)

lemma heartbeat_quiet:
  "Store_Heartbeat (\<lambda>_. quietEnv) queue owner now ttl member db =
     (let db2 = expireMembers queue (UnixMilli now) (memberRows queue owner (UnixMilli (now + ttl)) member db);
          db3 = renewRows queue owner (UnixMilli (now + ttl)) db2
      in (Inr (queryLeases (filter (ownRow queue owner) (partitions db3)), int (length (filter (\<lambda>d. d_queue d = queue) (dispatchers db3)))), db3))"
  by (simp add: Store_Heartbeat_def Let_def renewRows_def)

lemma owned_view_map:
  assumes own: "\<And>p. ownRow queue owner (f p) = ownRow queue owner p" and ps: "partitions db' = map f (partitions db)"
  shows "owned_view queue owner db' = (\<lambda>r. (p_partition (f r), p_epoch (f r), p_draining (f r))) ` {r \<in> set (partitions db). ownRow queue owner r}"
proof -
  have "{r \<in> set (map f (partitions db)). ownRow queue owner r} = f ` {r \<in> set (partitions db). ownRow queue owner r}" using own by auto
  then show ?thesis by (simp only: owned_view_def ps image_image)
qed

lemma renew_view:
  "owned_view queue owner (renewRows queue owner t db) = owned_view queue owner db"
  "\<forall>r\<in>set (partitions (renewRows queue owner t db)). ownRow queue owner r \<longrightarrow> p_expires_ms r = t"
proof -
  let ?f = "\<lambda>p. if ownRow queue owner p then p \<lparr> p_expires_ms := t \<rparr> else p"
  have "owned_view queue owner (renewRows queue owner t db)
      = (\<lambda>r. (p_partition (?f r), p_epoch (?f r), p_draining (?f r))) ` {r \<in> set (partitions db). ownRow queue owner r}"
    by (rule owned_view_map) (simp_all add: ownRow_def renewRows_def)
  also have "\<dots> = owned_view queue owner db" unfolding owned_view_def by (rule image_cong) auto
  finally show "owned_view queue owner (renewRows queue owner t db) = owned_view queue owner db" .
  show "\<forall>r\<in>set (partitions (renewRows queue owner t db)). ownRow queue owner r \<longrightarrow> p_expires_ms r = t"
    by (auto simp: renewRows_def)
qed

lemma UnixMilli_mono: "a \<le> b \<Longrightarrow> UnixMilli a \<le> UnixMilli b"
  by (simp add: UnixMilli_def zdiv_mono1)

lemma heartbeat_sync:
  assumes s: "undisturbed s" and "0 \<le> cn_leaseTTL (cs_consumer s)"
    and hb: "call (\<lambda>e. Store_Heartbeat e (cn_queue (cs_consumer s)) (cn_owner (cs_consumer s)) now (cn_leaseTTL (cs_consumer s)) member) s = (res, s1)"
  shows "\<exists>held. res = Inr (held, int (length (filter (\<lambda>d. d_queue d = cn_queue (cs_consumer s)) (dispatchers (sdb s1)))))
    \<and> undisturbed (locally (syncLeases held now) s1) \<and> agrees (locally (syncLeases held now) s1)
    \<and> renewed (UnixMilli now) (locally (syncLeases held now) s1)"
proof -
  let ?q = "cn_queue (cs_consumer s)" and ?o = "cn_owner (cs_consumer s)"
  let ?t = "UnixMilli (now + cn_leaseTTL (cs_consumer s))"
  define db2 where "db2 = expireMembers ?q (UnixMilli now) (memberRows ?q ?o ?t member (sdb s))"
  let ?db3 = "renewRows ?q ?o ?t db2"
  let ?held = "queryLeases (filter (ownRow ?q ?o) (partitions ?db3))"
  have q: "cs_turns s = []" using s by (simp add: undisturbed_def)
  note c = call_quiet [OF q, of "\<lambda>e. Store_Heartbeat e ?q ?o now (cn_leaseTTL (cs_consumer s)) member", unfolded hb fst_conv snd_conv]
  have res: "res = Inr (?held, int (length (filter (\<lambda>d. d_queue d = ?q) (dispatchers (sdb s1)))))" and db3: "sdb s1 = ?db3"
    using c by (simp_all add: heartbeat_quiet Let_def db2_def)
  have "steps s s1" using steps_call [OF store_fun_heartbeat, of s ?q ?o now "cn_leaseTTL (cs_consumer s)" member] hb by simp
  then have und: "undisturbed s1" using undisturbed_steps [OF s] c(3) by simp
  then have "undisturbed (locally (syncLeases ?held now) s1)"
    by (rule undisturbed_steps) (simp_all add: steps_locally keeps_sections c)
  moreover have "distinct (map l_Partition ?held)" using distinct_held undisturbed_parts [OF und] by (simp add: db3)
  then have "lease_view (syncLeases ?held now (cs_consumer s1)) = owned_view ?q ?o ?db3"
    by (simp add: sync_view set_queryLeases owned_view_def image_image leaseRow_def)
  then have "agrees (locally (syncLeases ?held now) s1)" using c(2) by (simp add: agrees_def db3) (simp add: syncLeases_def)
  moreover have "UnixMilli now \<le> ?t" using assms(2) by (simp add: UnixMilli_mono)
  then have "renewed (UnixMilli now) (locally (syncLeases ?held now) s1)"
    using renew_view(2) [of ?q ?o ?t db2] c(2) by (simp add: renewed_def db3) (simp add: syncLeases_def)
  ultimately show ?thesis using res by blast
qed

text \<open>Statements on partitions that act on rows of the owner, as changes of both views.\<close>

lemma release_view:
  assumes "owner \<noteq> []"
  shows "owned_view queue owner (releaseRows queue owner ps db) = {x \<in> owned_view queue owner db. fst x \<notin> set ps}"
proof -
  have free: "\<not> ownRow queue owner (freeRow r)" for r using assms by (simp add: ownRow_def freeRow_def)
  have "{r \<in> set (partitions (releaseRows queue owner ps db)). ownRow queue owner r}
      = {r \<in> set (partitions db). ownRow queue owner r \<and> p_partition r \<notin> set ps}"
    unfolding releaseRows_def using free by (auto split: if_splits)
  then show ?thesis unfolding owned_view_def by auto
qed

lemma release_own:
  assumes "owner \<noteq> []" "r \<in> set (partitions (releaseRows queue owner ps db))" "ownRow queue owner r"
  shows "r \<in> set (partitions db)"
proof -
  obtain r' where r': "r' \<in> set (partitions db)" "r = (if ownRow queue owner r' \<and> p_partition r' \<in> set ps then freeRow r' else r')"
    using assms(2) unfolding releaseRows_def by auto
  have "\<not> ownRow queue owner (freeRow r')" using assms(1) by (simp add: ownRow_def freeRow_def)
  with r' assms(3) show ?thesis by (metis (full_types))
qed

lemma drain_view:
  "owned_view queue owner (drainRows queue owner ps d db)
     = (\<lambda>(p, e, b). (p, e, if p \<in> set ps then d else b)) ` owned_view queue owner db"
proof -
  let ?f = "\<lambda>r. if ownRow queue owner r \<and> p_partition r \<in> set ps then r \<lparr> p_draining := d \<rparr> else r"
  have "owned_view queue owner (drainRows queue owner ps d db)
      = (\<lambda>r. (p_partition (?f r), p_epoch (?f r), p_draining (?f r))) ` {r \<in> set (partitions db). ownRow queue owner r}"
    by (rule owned_view_map) (simp_all add: ownRow_def drainRows_def)
  also have "\<dots> = (\<lambda>(p, e, b). (p, e, if p \<in> set ps then d else b)) ` owned_view queue owner db"
    unfolding owned_view_def image_image by (rule image_cong) auto
  finally show ?thesis .
qed

lemma drain_own:
  "r \<in> set (partitions (drainRows queue owner ps d db)) \<Longrightarrow> ownRow queue owner r
    \<Longrightarrow> \<exists>r'\<in>set (partitions db). ownRow queue owner r' \<and> p_expires_ms r' = p_expires_ms r"
proof -
  assume "r \<in> set (partitions (drainRows queue owner ps d db))" and own: "ownRow queue owner r"
  then obtain r' where r': "r' \<in> set (partitions db)"
    "r = (if ownRow queue owner r' \<and> p_partition r' \<in> set ps then r' \<lparr> p_draining := d \<rparr> else r')"
    unfolding drainRows_def by auto
  then show ?thesis using own by (intro bexI [of _ r']) (auto simp: ownRow_def split: if_splits)
qed

lemma lease_view_map:
  "cn_leases c' = map (\<lambda>(p, st). (p, h p st)) (cn_leases c)
    \<Longrightarrow> lease_view c' = (\<lambda>(p, st). (p, ps_epoch (h p st), ps_draining (h p st))) ` set (cn_leases c)"
  by (simp add: lease_view_def image_image split_def)

lemma setLease_view:
  assumes "\<And>st. ps_epoch (f st) = ps_epoch st \<and> ps_draining (f st) = d"
  shows "lease_view (setLease f ps c) = (\<lambda>(p, e, b). (p, e, if p \<in> set ps then d else b)) ` lease_view c"
proof -
  have "lease_view (setLease f ps c)
      = (\<lambda>(p, st). (p, ps_epoch (if p \<in> set ps then f st else st), ps_draining (if p \<in> set ps then f st else st))) ` set (cn_leases c)"
    by (rule lease_view_map) (simp add: setLease_def)
  also have "\<dots> = (\<lambda>(p, e, b). (p, e, if p \<in> set ps then d else b)) ` lease_view c"
    unfolding lease_view_def image_image by (rule image_cong) (auto simp: assms)
  finally show ?thesis .
qed

lemma releaseDrained_quiet:
  assumes "undisturbed s" "agrees s" "renewed nowMs s" "releaseDrained now s = (res, s')"
  shows "res = Inr () \<and> undisturbed s' \<and> agrees s' \<and> renewed nowMs s'
    \<and> cs_consumer s' = (cs_consumer s) \<lparr> cn_leases := filter (\<lambda>(p, st). p \<notin> set (releasable now (cs_consumer s))) (cn_leases (cs_consumer s)) \<rparr>
    \<and> dispatchers (sdb s') = dispatchers (sdb s)"
proof -
  let ?c = "cs_consumer s"
  let ?q = "cn_queue ?c" and ?o = "cn_owner ?c"
  let ?ps = "releasable now ?c"
  let ?f = "\<lambda>e. Store_ReleasePartitions (e 0) ?q ?o ?ps"
  have q: "cs_turns s = []" "?o \<noteq> []" using assms(1) by (auto simp: undisturbed_def)
  note cq = call_quiet [OF q(1), of ?f]
  have rel: "Store_ReleasePartitions quietEnv ?q ?o ?ps (sdb s) = (Inr (), releaseRows ?q ?o ?ps (sdb s))"
    by (simp add: Store_ReleasePartitions_def) (simp add: releaseRows_def)
  obtain s1 where call: "call ?f s = (Inr (), s1)" using cq(1) rel by (metis fst_conv prod.collapse)
  then have "releaseDrained now s = (Inr (), locally (\<lambda>c. c \<lparr> cn_leases := filter (\<lambda>(p, st). p \<notin> set ?ps) (cn_leases c) \<rparr>) s1)"
    by (simp add: releaseDrained_def Let_def)
  then have s': "res = Inr ()" "cs_consumer s' = ?c \<lparr> cn_leases := filter (\<lambda>(p, st). p \<notin> set ?ps) (cn_leases ?c) \<rparr>"
    "sdb s' = releaseRows ?q ?o ?ps (sdb s)" "cs_turns s' = []" using assms(4) cq [unfolded call] rel by auto
  have "undisturbed s'" using undisturbed_steps [OF assms(1) steps_releaseDrained [of s now]] assms(4) s'(4) by simp
  moreover have "lease_view (cs_consumer s') = {x \<in> lease_view ?c. fst x \<notin> set ?ps}"
    unfolding s'(2) by (fastforce simp: lease_view_def)
  then have "agrees s'" using assms(2) q(2) by (simp add: agrees_def s' release_view)
  moreover have "renewed nowMs s'" using assms(3) release_own [OF q(2)] by (simp add: renewed_def s')
  ultimately show ?thesis using s' by (simp add: releaseRows_def)
qed

text \<open>The partitions that a consumer dispatches from, and those that it drains.\<close>

definition activeSet :: "Consumer \<Rightarrow> int set" where
  "activeSet c = {p. \<exists>e. (p, e, False) \<in> lease_view c}"

definition drainSet :: "Consumer \<Rightarrow> int set" where
  "drainSet c = {p. \<exists>e. (p, e, True) \<in> lease_view c}"

lemma activeSet_leases: "activeSet c = fst ` {l \<in> set (cn_leases c). \<not> ps_draining (snd l)}"
  by (force simp: activeSet_def lease_view_def)

lemma drainSet_leases: "drainSet c = fst ` {l \<in> set (cn_leases c). ps_draining (snd l)}"
  by (force simp: drainSet_def lease_view_def)

lemma set_activeLocked: "set (activeLocked c) = activeSet c" "set (drainingLocked c) = drainSet c"
  by (force simp: activeLocked_def activeSet_leases, force simp: drainingLocked_def drainSet_leases)

lemma activeLocked_distinct:
  assumes "consumer_inv c"
  shows "distinct (activeLocked c)" "distinct (drainingLocked c)"
  using assms by (simp_all add: activeLocked_def drainingLocked_def consumer_inv_def distinct_map_filter)

lemma length_activeLocked: "consumer_inv c \<Longrightarrow> length (activeLocked c) = card (activeSet c)"
  using distinct_card [OF activeLocked_distinct(1)] set_activeLocked(1) by metis

lemma finite_activeSet [simp]: "finite (activeSet c)" "finite (drainSet c)"
  by (simp_all add: activeSet_leases drainSet_leases)

lemma active_drain_disjoint:
  assumes "consumer_inv c"
  shows "activeSet c \<inter> drainSet c = {}"
proof -
  have "inj_on fst (set (cn_leases c))" using assms by (simp add: consumer_inv_def distinct_map)
  then show ?thesis unfolding activeSet_leases drainSet_leases by (auto dest: inj_onD)
qed

lemma setDraining_quiet:
  assumes "undisturbed s" "agrees s" "renewed nowMs s" "\<And>st. ps_epoch (f st) = ps_epoch st \<and> ps_draining (f st) = d \<and> ps_inflight (f st) = ps_inflight st"
    and "call (\<lambda>e. Store_SetDraining (e 0) (cn_queue (cs_consumer s)) (cn_owner (cs_consumer s)) ps d) s = (res, s1)"
  shows "res = Inr () \<and> undisturbed (locally (setLease f ps) s1) \<and> agrees (locally (setLease f ps) s1)
    \<and> renewed nowMs (locally (setLease f ps) s1) \<and> cs_consumer s1 = cs_consumer s \<and> dispatchers (sdb s1) = dispatchers (sdb s)"
proof -
  let ?q = "cn_queue (cs_consumer s)" and ?o = "cn_owner (cs_consumer s)"
  let ?f = "\<lambda>e. Store_SetDraining (e 0) ?q ?o ps d"
  have q: "cs_turns s = []" using assms(1) by (simp add: undisturbed_def)
  note cq = call_quiet [OF q, of ?f, unfolded assms(5) fst_conv snd_conv]
  have set: "Store_SetDraining quietEnv ?q ?o ps d (sdb s) = (Inr (), drainRows ?q ?o ps d (sdb s))"
    by (simp add: Store_SetDraining_def) (simp add: drainRows_def)
  have 1: "res = Inr ()" "cs_consumer s1 = cs_consumer s" "cs_turns s1 = []" "sdb s1 = drainRows ?q ?o ps d (sdb s)"
    using cq set by simp_all
  have "undisturbed s1" using undisturbed_steps [OF assms(1) steps_call [of s ?f]] assms(5) 1(3) by (simp add: store_funs)
  moreover have "keeps c (setLease f ps c)" for c using setLease_inv [of c f ps] assms(4) by (simp add: keeps_def) (simp add: setLease_def)
  then have "steps s1 (locally (setLease f ps) s1)" by (rule steps_locally)
  ultimately have und: "undisturbed (locally (setLease f ps) s1)" by (rule undisturbed_steps) (simp add: 1)
  have cfg: "cn_queue (setLease f ps c) = cn_queue c" "cn_owner (setLease f ps c) = cn_owner c" for c by (simp_all add: setLease_def)
  have "lease_view (setLease f ps (cs_consumer s)) = (\<lambda>(p, e, b). (p, e, if p \<in> set ps then d else b)) ` lease_view (cs_consumer s)"
    using assms(4) by (intro setLease_view) simp
  then have "agrees (locally (setLease f ps) s1)"
    using assms(2) by (simp add: agrees_def 1 drain_view cfg)
  moreover have "renewed nowMs (locally (setLease f ps) s1)"
    using assms(3) drain_own [of _ ?q ?o ps d "sdb s"] by (simp add: renewed_def 1 cfg) metis
  ultimately show ?thesis using und 1 by (simp add: drainRows_def)
qed

lemma setLease_sets:
  assumes "\<And>st. ps_epoch (f st) = ps_epoch st \<and> ps_draining (f st) = d"
  shows "activeSet (setLease f ps c) = (if d then activeSet c - set ps else activeSet c \<union> (drainSet c \<inter> set ps))"
proof -
  have *: "(p, e, False) \<in> lease_view (setLease f ps c) \<longleftrightarrow> (\<exists>b. (p, e, b) \<in> lease_view c \<and> \<not> (if p \<in> set ps then d else b))" for p e
    unfolding setLease_view [OF assms] image_iff Bex_def split_paired_Ex prod.case prod.inject by auto
  show ?thesis unfolding activeSet_def drainSet_def * by (cases d) (auto split: if_splits; metis (full_types))+
qed

lemma releaseDrained_active:
  assumes "consumer_inv c"
  shows "activeSet (c \<lparr> cn_leases := filter (\<lambda>(p, st). p \<notin> set (releasable now c)) (cn_leases c) \<rparr>) = activeSet c"
proof -
  have "set (releasable now c) \<subseteq> drainSet c" by (force simp: releasable_def drainSet_leases)
  then have "set (releasable now c) \<inter> activeSet c = {}" using active_drain_disjoint [OF assms] by blast
  then show ?thesis by (force simp: activeSet_leases)
qed

subsection \<open>Taking free partitions\<close>

lemma takeable_sub: "set (takeable e queue n m ps) \<subseteq> {p \<in> set ps. free queue n p}"
  by (auto simp: takeable_def dest: in_set_takeD)

lemma acquirable_iff:
  assumes "parts_ok (partitions db)" "p \<in> set (partitions db)"
  shows "acquirable quietEnv queue n m db p \<longleftrightarrow> p \<in> set (takeable quietEnv queue n m (partitions db))"
proof
  assume "acquirable quietEnv queue n m db p"
  then obtain p' where p': "p' \<in> set (takeable quietEnv queue n m (partitions db))" "p_partition p' = p_partition p" "free queue n p"
    by (auto simp: acquirable_def)
  then have "p' \<in> set (partitions db)" "free queue n p'" using takeable_sub by (blast, blast)
  then have "p' = p" using own_partition_inj [OF assms(1)] assms(2) p' by (simp add: free_def)
  with p' show "p \<in> set (takeable quietEnv queue n m (partitions db))" by simp
next
  assume p: "p \<in> set (takeable quietEnv queue n m (partitions db))"
  then have "free queue n p" using takeable_sub by blast
  with p show "acquirable quietEnv queue n m db p" by (simp add: acquirable_def)
qed

definition grabbed :: "string \<Rightarrow> int \<Rightarrow> nat \<Rightarrow> sql_db \<Rightarrow> part_row list" where
  "grabbed queue n m db = filter (acquirable quietEnv queue n m db) (partitions db)"

lemma grabbed_set: "parts_ok (partitions db) \<Longrightarrow> set (grabbed queue n m db) = set (takeable quietEnv queue n m (partitions db))"
  using acquirable_iff takeable_sub [of quietEnv queue n m "partitions db"] by (auto simp: grabbed_def)

lemma grabbed_partitions:
  assumes "parts_ok (partitions db)"
  shows "distinct (map p_partition (grabbed queue n m db))" "\<forall>p\<in>set (grabbed queue n m db). p \<in> set (partitions db) \<and> free queue n p"
proof -
  have "distinct (map p_key (grabbed queue n m db))" using assms by (simp add: grabbed_def parts_ok_def distinct_map_filter)
  then show "distinct (map p_partition (grabbed queue n m db))"
    by (auto simp: grabbed_def distinct_map inj_on_def p_key_def acquirable_def free_def)
  show "\<forall>p\<in>set (grabbed queue n m db). p \<in> set (partitions db) \<and> free queue n p" by (auto simp: grabbed_def acquirable_def)
qed

lemma grabbed_length:
  assumes "parts_ok (partitions db)"
  shows "length (grabbed queue n m db) \<le> m"
    "length (grabbed queue n m db) < m \<Longrightarrow> \<forall>p\<in>set (partitions db). free queue n p \<longrightarrow> acquirable quietEnv queue n m db p"
proof -
  let ?t = "takeable quietEnv queue n m (partitions db)"
  have "distinct (grabbed queue n m db)" using grabbed_partitions(1) [OF assms] by (simp add: distinct_map)
  moreover have "distinct (map p_key ?t)"
    unfolding takeable_def using assms by (intro distinct_take_sort_filter) (simp add: parts_ok_def)
  then have "distinct ?t" by (simp add: distinct_map)
  ultimately have len: "length (grabbed queue n m db) = length ?t" using grabbed_set [OF assms] distinct_card by metis
  then show "length (grabbed queue n m db) \<le> m" by (simp add: takeable_def)
  assume "length (grabbed queue n m db) < m"
  then have "?t = sort_key (\<lambda>p. (p_expires_ms p, p_partition p)) (filter (\<lambda>p. free queue n p \<and> \<not> e_plocked quietEnv (p_partition p)) (partitions db))"
    unfolding len takeable_def by simp
  then have "set ?t = {p \<in> set (partitions db). free queue n p}" by simp
  then show "\<forall>p\<in>set (partitions db). free queue n p \<longrightarrow> acquirable quietEnv queue n m db p" using acquirable_iff [OF assms] by blast
qed

lemma acquire_view:
  assumes "owner \<noteq> []" "\<forall>r\<in>set (partitions db). ownRow queue owner r \<longrightarrow> \<not> free queue n r"
    and "db' = snd (acquireRows quietEnv queue owner n t m db)"
  shows "owned_view queue owner db' = owned_view queue owner db \<union> (\<lambda>p. (p_partition p, p_epoch p + 1, False)) ` set (grabbed queue n m db)"
proof -
  let ?hit = "acquirable quietEnv queue n m db"
  have take: "ownRow queue owner (takeRow owner t r)" if "?hit r" for r
    using that by (simp add: acquirable_def free_def ownRow_def takeRow_def)
  have no: "\<not> ?hit r" if "r \<in> set (partitions db)" "ownRow queue owner r" for r
    using that assms(2) by (auto simp: acquirable_def)
  have "{r \<in> set (partitions db'). ownRow queue owner r}
      = {r \<in> set (partitions db). ownRow queue owner r} \<union> takeRow owner t ` set (grabbed queue n m db)"
    unfolding assms(3) acquireRows_def grabbed_def using take no by (auto split: if_splits)
  then show ?thesis unfolding owned_view_def by (simp add: image_Un image_image takeRow_def)
qed

lemma fold_addLease:
  "cn_leases (fold (addLease now) ls c) = fold (\<lambda>l ls. AList.update (l_Partition l)
     \<lparr> ps_epoch = l_Epoch l, ps_acquiredAt = now, ps_draining = False, ps_drainSince = 0, ps_inflight = 0 \<rparr> ls) ls (cn_leases c)"
  "cn_queue (fold (addLease now) ls c) = cn_queue c" "cn_owner (fold (addLease now) ls c) = cn_owner c"
  by (induction ls arbitrary: c) (simp_all add: addLease_def)

lemma addLeases_view:
  assumes "distinct (map fst (cn_leases c))" "distinct (map l_Partition ls)" "\<forall>l\<in>set ls. l_Partition l \<notin> fst ` set (cn_leases c)"
  shows "lease_view (fold (addLease now) ls c) = lease_view c \<union> (\<lambda>l. (l_Partition l, l_Epoch l, False)) ` set ls"
  unfolding lease_view_def fold_addLease(1) set_fold_update [OF assms(2,1,3)] by (simp add: image_Un image_image)

lemma drainSet_setLease:
  assumes "\<And>st. ps_epoch (f st) = ps_epoch st \<and> ps_draining (f st) = False"
  shows "drainSet (setLease f ps c) = drainSet c - set ps"
proof -
  have *: "(p, e, True) \<in> lease_view (setLease f ps c) \<longleftrightarrow> (\<exists>b. (p, e, b) \<in> lease_view c \<and> (if p \<in> set ps then False else b))" for p e
    unfolding setLease_view [OF assms] image_iff Bex_def split_paired_Ex prod.case prod.inject by auto
  show ?thesis unfolding drainSet_def * by (auto split: if_splits)
qed

lemma leases_partitions: "agrees s \<Longrightarrow> p \<in> fst ` set (cn_leases (cs_consumer s))
    \<Longrightarrow> \<exists>r\<in>set (partitions (sdb s)). ownRow (cn_queue (cs_consumer s)) (cn_owner (cs_consumer s)) r \<and> p_partition r = p"
proof -
  assume a: "agrees s" and "p \<in> fst ` set (cn_leases (cs_consumer s))"
  then obtain st where "(p, st) \<in> set (cn_leases (cs_consumer s))" by auto
  then have "(p, ps_epoch st, ps_draining st) \<in> lease_view (cs_consumer s)" by (force simp: lease_view_def)
  then show ?thesis using a by (auto simp: agrees_def owned_view_def)
qed

lemma grabbed_new:
  assumes "parts_ok (partitions (sdb s))" "agrees s"
    and "\<forall>r\<in>set (partitions (sdb s)). ownRow (cn_queue (cs_consumer s)) (cn_owner (cs_consumer s)) r \<longrightarrow> \<not> free (cn_queue (cs_consumer s)) n r"
    and "p \<in> set (grabbed (cn_queue (cs_consumer s)) n m (sdb s))"
  shows "p_partition p \<notin> fst ` set (cn_leases (cs_consumer s))"
proof
  assume "p_partition p \<in> fst ` set (cn_leases (cs_consumer s))"
  then obtain r where r: "r \<in> set (partitions (sdb s))" "ownRow (cn_queue (cs_consumer s)) (cn_owner (cs_consumer s)) r"
    "p_partition r = p_partition p" using leases_partitions [OF assms(2)] by auto
  have p: "p \<in> set (partitions (sdb s))" "free (cn_queue (cs_consumer s)) n p" using grabbed_partitions(2) [OF assms(1)] assms(4) by auto
  then have "r = p" using own_partition_inj [OF assms(1) r(1)] r(2,3) by (simp add: free_def ownRow_def)
  with assms(3) p r(2) show False by blast
qed

lemma grabbed_none_left:
  assumes ok: "parts_ok (partitions db)" and "owner \<noteq> []" "now \<le> t" "length (grabbed queue (UnixMilli now) m db) < m"
  shows "\<forall>r\<in>set (partitions (snd (acquireRows quietEnv queue owner (UnixMilli now) (UnixMilli t) m db))). \<not> free queue (UnixMilli now) r"
proof
  fix r assume "r \<in> set (partitions (snd (acquireRows quietEnv queue owner (UnixMilli now) (UnixMilli t) m db)))"
  then obtain r0 where r0: "r0 \<in> set (partitions db)"
    "r = (if acquirable quietEnv queue (UnixMilli now) m db r0 then takeRow owner (UnixMilli t) r0 else r0)" by (auto simp: acquireRows_def)
  have "free queue (UnixMilli now) r0 \<longrightarrow> acquirable quietEnv queue (UnixMilli now) m db r0"
    using grabbed_length(2) [OF ok assms(4)] r0(1) by simp
  moreover have "\<not> free queue (UnixMilli now) (takeRow owner (UnixMilli t) r0)"
    using assms(2) UnixMilli_mono [OF assms(3)] by (simp add: free_def takeRow_def)
  ultimately show "\<not> free queue (UnixMilli now) r" using r0(2) by (metis (full_types))
qed

lemma acquire_quiet:
  fixes s m
  defines "q \<equiv> cn_queue (cs_consumer s)" and "ow \<equiv> cn_owner (cs_consumer s)"
  assumes "undisturbed s" "agrees s" "renewed (UnixMilli now) s" "0 \<le> ttl"
    and "call (\<lambda>e. Store_AcquirePartitions (e 0) q ow now ttl (int m)) s = (res, s1)"
  defines "gr \<equiv> grabbed q (UnixMilli now) m (sdb s)"
  shows "\<exists>acq. res = Inr acq \<and> agrees (locally (fold (addLease now) acq) s1) \<and> undisturbed (locally (fold (addLease now) acq) s1)
    \<and> activeSet (fold (addLease now) acq (cs_consumer s1)) = activeSet (cs_consumer s) \<union> p_partition ` set gr
    \<and> drainSet (fold (addLease now) acq (cs_consumer s1)) = drainSet (cs_consumer s)
    \<and> activeSet (cs_consumer s) \<inter> p_partition ` set gr = {} \<and> dispatchers (sdb s1) = dispatchers (sdb s)
    \<and> (length gr < m \<longrightarrow> (\<forall>r\<in>set (partitions (sdb s1)). \<not> free q (UnixMilli now) r))"
proof -
  let ?n = "UnixMilli now" and ?t = "UnixMilli (now + ttl)"
  let ?f = "\<lambda>e. Store_AcquirePartitions (e 0) q ow now ttl (int m)"
  have quiet: "cs_turns s = []" and ow: "ow \<noteq> []" using assms(3) by (auto simp: undisturbed_def ow_def)
  have ok: "parts_ok (partitions (sdb s))" using undisturbed_parts [OF assms(3)] .
  note cq = call_quiet [OF quiet, of ?f, unfolded assms(7) fst_conv snd_conv]
  define acq where "acq = queryLeases (map (takeRow ow ?t) gr)"
  have acquire: "Store_AcquirePartitions quietEnv q ow now ttl (int m) (sdb s) = (Inr acq, snd (acquireRows quietEnv q ow ?n ?t m (sdb s)))"
    by (simp add: Store_AcquirePartitions_def acquireRows_def acq_def gr_def grabbed_def)
  have 1: "res = Inr acq" "cs_consumer s1 = cs_consumer s" "cs_turns s1 = []" "sdb s1 = snd (acquireRows quietEnv q ow ?n ?t m (sdb s))"
    using cq acquire by simp_all
  have nofree: "\<forall>r\<in>set (partitions (sdb s)). ownRow q ow r \<longrightarrow> \<not> free q ?n r"
    using assms(5) ow by (auto simp: renewed_def free_def ownRow_def q_def ow_def)
  have acqset: "(\<lambda>l. (l_Partition l, l_Epoch l, False)) ` set acq = (\<lambda>p. (p_partition p, p_epoch p + 1, False)) ` set gr"
    by (simp add: acq_def set_queryLeases image_image leaseRow_def takeRow_def)
  have "distinct (map l_Partition (map leaseRow (map (takeRow ow ?t) gr)))"
    using grabbed_partitions(1) [OF ok, of q ?n m] by (simp add: comp_def leaseRow_def takeRow_def gr_def)
  then have dacq: "distinct (map l_Partition acq)" unfolding acq_def queryLeases_def by (simp only: distinct_map set_sort distinct_sort)
  have new: "p_partition p \<notin> fst ` set (cn_leases (cs_consumer s))" if "p \<in> set gr" for p
    using grabbed_new [OF ok assms(4)] nofree that by (simp add: gr_def q_def ow_def)
  have "\<forall>l\<in>set acq. l_Partition l \<notin> fst ` set (cn_leases (cs_consumer s))"
    using new by (auto simp: acq_def set_queryLeases leaseRow_def takeRow_def)
  then have view: "lease_view (fold (addLease now) acq (cs_consumer s))
      = lease_view (cs_consumer s) \<union> (\<lambda>p. (p_partition p, p_epoch p + 1, False)) ` set gr"
    using addLeases_view [OF _ dacq] assms(3) acqset by (simp add: undisturbed_def consumer_inv_def)
  have "agrees (locally (fold (addLease now) acq) s1)"
    using acquire_view [OF ow nofree 1(4)] assms(4) by (simp add: agrees_def 1 view fold_addLease(2,3) gr_def q_def ow_def)
  moreover have "steps s s1" using steps_call [of s ?f] assms(7) ow by (simp add: store_funs)
  then have "undisturbed s1" by (rule undisturbed_steps [OF assms(3)]) (simp add: 1)
  then have "undisturbed (locally (fold (addLease now) acq) s1)"
    by (rule undisturbed_steps) (simp_all add: steps_locally keeps_sections 1)
  moreover have "activeSet (fold (addLease now) acq (cs_consumer s)) = activeSet (cs_consumer s) \<union> p_partition ` set gr"
    "drainSet (fold (addLease now) acq (cs_consumer s)) = drainSet (cs_consumer s)"
    unfolding activeSet_def drainSet_def view by auto
  moreover have "activeSet (cs_consumer s) \<inter> p_partition ` set gr = {}" using new by (force simp: activeSet_leases)
  moreover have "\<forall>r\<in>set (partitions (sdb s1)). \<not> free q ?n r" if "length gr < m"
    using grabbed_none_left [OF ok ow, of now "now + ttl" q m] that assms(6) by (simp add: 1 gr_def)
  ultimately show ?thesis using 1 by (simp add: acquireRows_def)
qed

subsection \<open>The share\<close>

lemma reset_quiet:
  assumes "undisturbed s" "agrees s"
    and "call (\<lambda>e. Store_ResetStale (e 0) (cn_queue (cs_consumer s)) (cn_owner (cs_consumer s)) only) s = (res, s1)"
  shows "res = Inr () \<and> undisturbed s1 \<and> agrees s1 \<and> cs_consumer s1 = cs_consumer s
    \<and> partitions (sdb s1) = partitions (sdb s) \<and> dispatchers (sdb s1) = dispatchers (sdb s)"
proof -
  let ?f = "\<lambda>e. Store_ResetStale (e 0) (cn_queue (cs_consumer s)) (cn_owner (cs_consumer s)) only"
  have q: "cs_turns s = []" using assms(1) by (simp add: undisturbed_def)
  note cq = call_quiet [OF q, of ?f, unfolded assms(3) fst_conv snd_conv]
  have 1: "res = Inr ()" "partitions (sdb s1) = partitions (sdb s)" "dispatchers (sdb s1) = dispatchers (sdb s)"
    using cq(1,4) by (simp_all add: Store_ResetStale_def resetRows_def split: if_splits)
  have "steps s s1" using steps_call [of s ?f] assms(3) by (simp add: store_funs)
  then have "undisturbed s1" by (rule undisturbed_steps [OF assms(1)]) (simp add: cq)
  then show ?thesis using 1 cq(2) assms(2) by (simp add: agrees_def owned_view_def)
qed

definition share_reached :: "int \<Rightarrow> int \<Rightarrow> cstate \<Rightarrow> bool" where
  "share_reached now target s \<longleftrightarrow> int (card (activeSet (cs_consumer s))) \<le> target
     \<and> (int (card (activeSet (cs_consumer s))) < target \<longrightarrow> drainSet (cs_consumer s) = {}
        \<and> (\<forall>r\<in>set (partitions (sdb s)). \<not> free (cn_queue (cs_consumer s)) (UnixMilli now) r))"

lemma acquireShare_quiet:
  assumes s: "undisturbed s" "agrees s" "renewed (UnixMilli now) s" "0 \<le> cn_leaseTTL (cs_consumer s)" "drainSet (cs_consumer s) = {}"
    and target: "int (card (activeSet (cs_consumer s))) + int need = target"
    and g: "acquireShare now need s = (res, s')"
  shows "res = Inr () \<and> undisturbed s' \<and> agrees s' \<and> share_reached now target s' \<and> dispatchers (sdb s') = dispatchers (sdb s)
    \<and> cn_queue (cs_consumer s') = cn_queue (cs_consumer s)"
proof -
  let ?c = "cs_consumer s"
  let ?q = "cn_queue ?c" and ?o = "cn_owner ?c"
  obtain r3 s3 where 3: "call (\<lambda>e. Store_AcquirePartitions (e 0) ?q ?o now (cn_leaseTTL ?c) (int need)) s = (r3, s3)" by fastforce
  let ?gr = "grabbed ?q (UnixMilli now) need (sdb s)"
  obtain acq where acq: "r3 = Inr acq" "agrees (locally (fold (addLease now) acq) s3)" "undisturbed (locally (fold (addLease now) acq) s3)"
    "activeSet (fold (addLease now) acq (cs_consumer s3)) = activeSet ?c \<union> p_partition ` set ?gr"
    "drainSet (fold (addLease now) acq (cs_consumer s3)) = drainSet ?c"
    "activeSet ?c \<inter> p_partition ` set ?gr = {}" "dispatchers (sdb s3) = dispatchers (sdb s)"
    "length ?gr < need \<longrightarrow> (\<forall>r\<in>set (partitions (sdb s3)). \<not> free ?q (UnixMilli now) r)"
    using acquire_quiet [OF s(1-4) 3] by auto
  let ?s4 = "locally (fold (addLease now) acq) s3"
  have "cs_consumer s3 = ?c" using call_quiet(2) [of s] s(1) 3 by (metis snd_conv undisturbed_def)
  then have cfg4: "cn_queue (cs_consumer ?s4) = ?q" "cn_owner (cs_consumer ?s4) = ?o" by (simp_all add: fold_addLease)
  have "acquireShare now need s = call (\<lambda>e. Store_ResetStale (e 0) ?q ?o (Some (map l_Partition acq))) ?s4"
    using 3 acq(1) by (simp add: acquireShare_def Let_def)
  then have reset: "call (\<lambda>e. Store_ResetStale (e 0) (cn_queue (cs_consumer ?s4)) (cn_owner (cs_consumer ?s4)) (Some (map l_Partition acq))) ?s4 = (res, s')"
    using g by (simp only: cfg4)
  have rs: "res = Inr ()" "undisturbed s'" "agrees s'" "cs_consumer s' = cs_consumer ?s4" "partitions (sdb s') = partitions (sdb s3)"
    "dispatchers (sdb s') = dispatchers (sdb s3)" using reset_quiet [OF acq(3,2) reset] by simp_all
  have ok: "parts_ok (partitions (sdb s))" using undisturbed_parts [OF s(1)] .
  have len: "card (p_partition ` set ?gr) = length ?gr"
    using distinct_card [OF grabbed_partitions(1) [OF ok, of ?q "UnixMilli now" need]] by simp
  have "card (activeSet (cs_consumer s')) = card (activeSet ?c) + length ?gr"
    unfolding rs(4) using acq(4,6) len by (simp add: card_Un_disjoint)
  then have "share_reached now target s'"
    using acq(5,8) s(5) target grabbed_length(1) [OF ok, of ?q "UnixMilli now" need] rs(4,5) cfg4(1) by (simp add: share_reached_def)
  then show ?thesis using rs acq(7) cfg4 by simp
qed

lemma growShare_quiet:
  assumes s: "undisturbed s" "agrees s" "renewed (UnixMilli now) s" "0 \<le> cn_leaseTTL (cs_consumer s)"
    and target: "int (card (activeSet (cs_consumer s))) + int need = target"
    and g: "growShare now (drainingLocked (cs_consumer s)) need s = (res, s')"
  shows "res = Inr () \<and> undisturbed s' \<and> agrees s' \<and> share_reached now target s' \<and> dispatchers (sdb s') = dispatchers (sdb s)
    \<and> cn_queue (cs_consumer s') = cn_queue (cs_consumer s)"
proof -
  let ?c = "cs_consumer s"
  define U where "U = take need (drainingLocked ?c)"
  define f :: "partitionState \<Rightarrow> partitionState" where "f = (\<lambda>st. st \<lparr> ps_draining := False \<rparr>)"
  obtain r1 s1 where 1: "call (\<lambda>e. Store_SetDraining (e 0) (cn_queue ?c) (cn_owner ?c) U False) s = (r1, s1)" by fastforce
  define s2 where "s2 = locally (setLease f U) s1"
  have f: "ps_epoch (f st) = ps_epoch st \<and> ps_draining (f st) = False \<and> ps_inflight (f st) = ps_inflight st" for st by (simp add: f_def)
  have sd: "r1 = Inr ()" "undisturbed s2" "agrees s2" "renewed (UnixMilli now) s2" "cs_consumer s2 = setLease f U ?c"
    "dispatchers (sdb s2) = dispatchers (sdb s)"
    using setDraining_quiet [OF s(1-3) f 1] by (simp_all add: s2_def)
  have cfg: "cn_queue (cs_consumer s2) = cn_queue ?c" "cn_leaseTTL (cs_consumer s2) = cn_leaseTTL ?c" by (simp_all add: sd setLease_def)
  have inv: "consumer_inv ?c" using s(1) by (simp add: undisturbed_def)
  have U: "set U \<subseteq> drainSet ?c" "distinct U"
    using set_activeLocked(2) [of ?c] activeLocked_distinct(2) [OF inv] set_take_subset by (fastforce simp: U_def, simp add: U_def)
  have "activeSet (setLease f U ?c) = activeSet ?c \<union> (drainSet ?c \<inter> set U)" using setLease_sets [of f False U ?c] f by simp
  then have act2: "activeSet (cs_consumer s2) = activeSet ?c \<union> set U" using U(1) sd(5) by auto
  have card2: "card (activeSet (cs_consumer s2)) = card (activeSet ?c) + length U"
    unfolding act2 using U active_drain_disjoint [OF inv] by (subst card_Un_disjoint) (auto simp: distinct_card)
  have grow: "growShare now (drainingLocked ?c) need s = (if need - length U = 0 then (Inr (), s2) else acquireShare now (need - length U) s2)"
    using 1 sd(1) by (simp add: growShare_def Let_def U_def [symmetric] s2_def f_def)
  show ?thesis
  proof (cases "need - length U = 0")
    case True
    then have "length U = need" by (simp add: U_def)
    then show ?thesis using g grow sd card2 target cfg True by (simp add: share_reached_def)
  next
    case False
    then have "U = drainingLocked ?c" by (simp add: U_def)
    then have "drainSet (cs_consumer s2) = {}"
      using drainSet_setLease [of f U ?c] f set_activeLocked(2) [of ?c] by (simp add: sd)
    moreover have "int (card (activeSet (cs_consumer s2))) + int (need - length U) = target" using card2 target False by simp
    ultimately show ?thesis
      using acquireShare_quiet [OF sd(2-4), of "need - length U" target res s'] g grow False s(4) cfg sd(6) by simp
  qed
qed

lemma drainCandidates_set:
  assumes "n \<le> length active" "distinct active"
  shows "set (drainCandidatesLocked c active n) \<subseteq> set active \<and> card (set (drainCandidatesLocked c active n)) = n"
proof -
  let ?xs = "sort_key (\<lambda>p. (inflightAt c p, - p)) active"
  have "distinct (take n ?xs)" "length (take n ?xs) = n" using assms by simp_all
  then have "card (set (take n ?xs)) = n" using distinct_card by metis
  moreover have "set (take n ?xs) \<subseteq> set active" using set_take_subset [of n ?xs] by simp
  ultimately show ?thesis by (simp add: drainCandidatesLocked_def)
qed

lemma shrinkShare_quiet:
  assumes s: "undisturbed s" "agrees s" "renewed (UnixMilli now) s"
    and target: "int (card (activeSet (cs_consumer s))) = target + int n" "0 \<le> target"
    and g: "shrinkShare now (activeLocked (cs_consumer s)) n s = (res, s')"
  shows "res = Inr () \<and> undisturbed s' \<and> agrees s' \<and> share_reached now target s' \<and> dispatchers (sdb s') = dispatchers (sdb s)
    \<and> cn_queue (cs_consumer s') = cn_queue (cs_consumer s)"
proof -
  let ?c = "cs_consumer s"
  define D where "D = drainCandidatesLocked ?c (activeLocked ?c) n"
  define f :: "partitionState \<Rightarrow> partitionState" where "f = (\<lambda>st. st \<lparr> ps_draining := True, ps_drainSince := now \<rparr>)"
  have inv: "consumer_inv ?c" and quiet: "cs_turns s = []" using s(1) by (auto simp: undisturbed_def)
  obtain r1 s1 where 1: "call (\<lambda>e. Store_SetDraining (e 0) (cn_queue ?c) (cn_owner ?c) D True) s = (r1, s1)" by fastforce
  define s2 where "s2 = locally (setLease f D) s1"
  have f: "ps_epoch (f st) = ps_epoch st \<and> ps_draining (f st) = True \<and> ps_inflight (f st) = ps_inflight st" for st by (simp add: f_def)
  have sd: "r1 = Inr ()" "undisturbed s2" "agrees s2" "renewed (UnixMilli now) s2" "cs_consumer s2 = setLease f D ?c"
    "dispatchers (sdb s2) = dispatchers (sdb s)" using setDraining_quiet [OF s(1-3) f 1] by (simp_all add: s2_def)
  have "n \<le> length (activeLocked ?c)" using target length_activeLocked [OF inv] by simp
  moreover have "distinct (activeLocked ?c)" using activeLocked_distinct(1) [OF inv] .
  ultimately have D: "set D \<subseteq> activeSet ?c" "card (set D) = n"
    using drainCandidates_set [of n "activeLocked ?c" ?c] set_activeLocked(1) [of ?c] by (simp_all add: D_def)
  have "activeSet (setLease f D ?c) = activeSet ?c - set D" using setLease_sets [of f True D ?c] f by simp
  then have "card (activeSet (cs_consumer s2)) = card (activeSet ?c) - n" using D by (simp add: sd card_Diff_subset)
  then have card: "int (card (activeSet (cs_consumer s2))) = target" using target by linarith
  have "shrinkShare now (activeLocked ?c) n s = releaseDrained now s2"
    using 1 sd(1) quiet by (simp add: shrinkShare_def Let_def D_def [symmetric] f_def s2_def)
  then have rd: "releaseDrained now s2 = (res, s')" using g by simp
  note r = releaseDrained_quiet [OF sd(2-4) rd]
  have "consumer_inv (cs_consumer s2)" using sd(2) by (simp add: undisturbed_def)
  then have "activeSet (cs_consumer s') = activeSet (cs_consumer s2)" using releaseDrained_active r by metis
  then have "share_reached now target s'" using card by (simp add: share_reached_def)
  moreover have "cn_queue (cs_consumer s') = cn_queue ?c" using r sd(5) by (simp add: setLease_def)
  ultimately show ?thesis using r sd(6) by simp
qed

lemma adjustShare_quiet:
  assumes s: "undisturbed s" "agrees s" "renewed (UnixMilli now) s" "0 \<le> cn_leaseTTL (cs_consumer s)" "0 \<le> target"
    and g: "adjustShare now target s = (res, s')"
  shows "res = Inr () \<and> undisturbed s' \<and> agrees s' \<and> share_reached now target s' \<and> dispatchers (sdb s') = dispatchers (sdb s)
    \<and> cn_queue (cs_consumer s') = cn_queue (cs_consumer s)"
proof -
  let ?n = "int (card (activeSet (cs_consumer s)))"
  have len: "int (length (activeLocked (cs_consumer s))) = ?n" using s(1) length_activeLocked by (simp add: undisturbed_def)
  consider "?n < target" | "?n > target" | "?n = target" by linarith
  then show ?thesis
  proof cases
    case 1
    then show ?thesis using growShare_quiet [OF s(1-4), of "nat (target - ?n)" target res s'] g len by (simp add: adjustShare_def Let_def)
  next
    case 2
    then show ?thesis using shrinkShare_quiet [OF s(1-3), of target "nat (?n - target)" res s'] g len s(5) by (simp add: adjustShare_def Let_def)
  next
    case 3
    then have "s' = s" "res = Inr ()" using g len by (simp_all add: adjustShare_def Let_def)
    then show ?thesis using s 3 by (simp add: share_reached_def)
  qed
qed

lemma shareOf_pos: "0 \<le> shareOf members"
  unfolding shareOf_def by (rule pos_imp_zdiv_nonneg_iff [THEN iffD2]) auto

definition membersOf :: "string \<Rightarrow> sql_db \<Rightarrow> int" where
  "membersOf queue db = int (length (filter (\<lambda>d. d_queue d = queue) (dispatchers db)))"

lemma renewAndAdjust_quiet:
  assumes s: "undisturbed s" "0 \<le> cn_leaseTTL (cs_consumer s)" and g: "renewAndAdjust now s = (res, s')"
  shows "res = Inr () \<and> undisturbed s' \<and> agrees s'
    \<and> share_reached now (if cn_stopping (cs_consumer s) then 0 else shareOf (membersOf (cn_queue (cs_consumer s)) (sdb s'))) s'"
proof -
  let ?c = "cs_consumer s"
  obtain r1 s1 where 1: "call (\<lambda>e. Store_Heartbeat e (cn_queue ?c) (cn_owner ?c) now (cn_leaseTTL ?c) (\<not> cn_stopping ?c)) s = (r1, s1)" by fastforce
  from heartbeat_sync [OF s 1] obtain held where h: "r1 = Inr (held, membersOf (cn_queue ?c) (sdb s1))"
    "undisturbed (locally (syncLeases held now) s1)" "agrees (locally (syncLeases held now) s1)"
    "renewed (UnixMilli now) (locally (syncLeases held now) s1)" by (auto simp: membersOf_def)
  have "cs_consumer s1 = ?c" using call_quiet(2) [of s] s(1) 1 by (metis snd_conv undisturbed_def)
  define s2 where "s2 = locally (\<lambda>c. c \<lparr> cn_beats := cn_beats c + 1 \<rparr>) (locally (syncLeases held now) s1)"
  have c2: "cn_queue (cs_consumer s2) = cn_queue ?c" "cn_owner (cs_consumer s2) = cn_owner ?c" "cn_leaseTTL (cs_consumer s2) = cn_leaseTTL ?c"
    by (simp_all add: s2_def syncLeases_def \<open>cs_consumer s1 = ?c\<close>)
  have 2: "undisturbed s2" "agrees s2" "renewed (UnixMilli now) s2" "sdb s2 = sdb s1"
  proof -
    have "cs_turns s1 = []" using h(2) by (simp add: undisturbed_def)
    then show "undisturbed s2" unfolding s2_def by (intro undisturbed_steps [OF h(2)]) (simp_all add: steps_locally keeps_sections)
    show "agrees s2" "renewed (UnixMilli now) s2" "sdb s2 = sdb s1"
      using h(3,4) by (simp_all add: s2_def agrees_def renewed_def lease_view_def)
  qed
  obtain r3 s3 where 3: "consumer_resetStale now (locally (syncLeases held now) s1) = (r3, s3)" by fastforce
  then have "call (\<lambda>e. Store_ResetStale (e 0) (cn_queue (cs_consumer s2)) (cn_owner (cs_consumer s2)) (resetParts now (cs_consumer s2))) s2 = (r3, s3)"
    by (simp add: consumer_resetStale_def Let_def s2_def)
  note rs = reset_quiet [OF 2(1,2) this]
  have ren3: "renewed (UnixMilli now) s3" using 2(3) rs by (simp add: renewed_def)
  obtain r4 s4 where 4: "releaseDrained now s3 = (r4, s4)" by fastforce
  have rs3: "undisturbed s3" "agrees s3" using rs by simp_all
  note rd = releaseDrained_quiet [OF rs3 ren3 4]
  let ?t = "if cn_stopping ?c then 0 else shareOf (membersOf (cn_queue ?c) (sdb s1))"
  have "renewAndAdjust now s = adjustShare now ?t s4" using 1 h(1) 3 rs 4 rd by (simp add: renewAndAdjust_def Let_def)
  then have adj: "adjustShare now ?t s4 = (res, s')" using g by simp
  have "cn_leaseTTL (cs_consumer s4) = cn_leaseTTL ?c" using rd rs c2(3) by simp
  then have fin: "res = Inr () \<and> undisturbed s' \<and> agrees s' \<and> share_reached now ?t s' \<and> dispatchers (sdb s') = dispatchers (sdb s4)
      \<and> cn_queue (cs_consumer s') = cn_queue (cs_consumer s4)"
    using adjustShare_quiet [OF _ _ _ _ _ adj] rd s(2) shareOf_pos by simp
  have "membersOf (cn_queue ?c) (sdb s') = membersOf (cn_queue ?c) (sdb s1)" using fin rd rs 2(4) by (simp add: membersOf_def)
  then show ?thesis using fin by (simp only: simp_thms)
qed

lemma call_quiet_ok:
  assumes "cs_turns s = []" "fst (f (\<lambda>_. quietEnv) (sdb s)) = Inr x"
  obtains s1 where "call f s = (Inr x, s1)" "cs_consumer s1 = cs_consumer s" "cs_turns s1 = []" "sdb s1 = snd (f (\<lambda>_. quietEnv) (sdb s))"
  using call_quiet [OF assms(1), of f] assms(2) that [of "snd (call f s)"] by (metis prod.collapse)

lemma undispatch_quiet: "fst (Store_Undispatch quietEnv owner stamps db) = Inr ()"
  by (simp add: Store_Undispatch_def undispatch_def Let_def)

lemma seedPartitions_quiet:
  assumes "undisturbed s"
  shows "\<exists>s1. seedPartitions s = (Inr (), s1) \<and> undisturbed s1 \<and> cn_stopping (cs_consumer s1) = cn_stopping (cs_consumer s)"
proof (cases "cn_seeded (cs_consumer s)")
  case True
  with assms show ?thesis by (simp add: seedPartitions_def)
next
  case False
  have q: "cs_turns s = []" using assms by (simp add: undisturbed_def)
  obtain s1 where 1: "call (\<lambda>e. Store_EnsurePartitions (e 0) (cn_queue (cs_consumer s))) s = (Inr (), s1)"
    "cs_consumer s1 = cs_consumer s" "cs_turns s1 = []"
    by (rule call_quiet_ok [OF q, of "\<lambda>e. Store_EnsurePartitions (e 0) (cn_queue (cs_consumer s))"]) (simp_all add: Store_EnsurePartitions_def)
  then have "seedPartitions s = (Inr (), locally (\<lambda>c. c \<lparr> cn_seeded := True \<rparr>) s1)" using False by (simp add: seedPartitions_def)
  then show ?thesis using undisturbed_steps [OF assms steps_seedPartitions] 1 by simp
qed

lemma undispatchOrphans_quiet:
  assumes "undisturbed s"
  shows "\<exists>s1. undispatchOrphans s = ([], s1) \<and> undisturbed s1 \<and> cn_stopping (cs_consumer s1) = cn_stopping (cs_consumer s)"
proof -
  let ?sts = "map (\<lambda>(k, a). \<lparr> st_Key = k, st_Attempt = a \<rparr>) (cn_orphans (cs_consumer s))"
  have q: "cs_turns s = []" using assms by (simp add: undisturbed_def)
  obtain s1 where 1: "call (\<lambda>e. Store_Undispatch (e 0) (cn_owner (cs_consumer s)) ?sts) s = (Inr (), s1)"
    "cs_consumer s1 = cs_consumer s" "cs_turns s1 = []"
    by (rule call_quiet_ok [OF q, of "\<lambda>e. Store_Undispatch (e 0) (cn_owner (cs_consumer s)) ?sts"]) (simp_all add: undispatch_quiet)
  have stop: "cn_stopping (fold forgetOrphan sts c) = cn_stopping c" for sts c
    by (induction sts arbitrary: c) (simp_all add: forgetOrphan_def split: option.splits)
  have "fst (undispatchOrphans s) = []" "cs_turns (snd (undispatchOrphans s)) = []"
    "cn_stopping (cs_consumer (snd (undispatchOrphans s))) = cn_stopping (cs_consumer s)"
    using 1 q by (simp_all add: undispatchOrphans_def Let_def stop)
  then show ?thesis using undisturbed_steps [OF assms steps_undispatchOrphans [of s]] by (metis prod.collapse)
qed

lemma reconcileInFlight_quiet:
  assumes "undisturbed s"
  shows "\<exists>s1. reconcileInFlight s = ([], s1) \<and> undisturbed s1 \<and> cn_stopping (cs_consumer s1) = cn_stopping (cs_consumer s)"
proof (cases "cn_reconcile (cs_consumer s)")
  case False
  with assms show ?thesis by (simp add: reconcileInFlight_def)
next
  case True
  let ?f = "\<lambda>e db. (Store_InFlight (e 0) (cn_queue (cs_consumer s)) (cn_owner (cs_consumer s)) db, db)"
  have q: "cs_turns s = []" using assms by (simp add: undisturbed_def)
  obtain sts where sts: "Store_InFlight quietEnv (cn_queue (cs_consumer s)) (cn_owner (cs_consumer s)) (sdb s) = Inr sts"
    by (simp add: Store_InFlight_def)
  obtain s1 where 1: "call ?f s = (Inr sts, s1)" "cs_consumer s1 = cs_consumer s" "cs_turns s1 = []"
    by (rule call_quiet_ok [OF q, of ?f]) (simp_all add: sts)
  let ?un = "filter (untrackedStamp (cs_consumer s)) sts"
  obtain s2 where 2: "call (\<lambda>e. Store_Undispatch (e 0) (cn_owner (cs_consumer s)) ?un) s1 = (Inr (), s2)"
    "cs_consumer s2 = cs_consumer s1" "cs_turns s2 = []"
    by (rule call_quiet_ok [OF 1(3), of "\<lambda>e. Store_Undispatch (e 0) (cn_owner (cs_consumer s)) ?un"]) (simp_all add: undispatch_quiet)
  have "reconcileInFlight s = ([], locally (\<lambda>c. c \<lparr> cn_reconcile := False \<rparr>) s2)"
    using True 1 2 by (simp add: reconcileInFlight_def Let_def)
  then show ?thesis using undisturbed_steps [OF assms steps_reconcileInFlight [of s]] 1 2 by simp
qed

lemma rebalance_quiet:
  assumes "undisturbed s" "0 \<le> cn_leaseTTL (cs_consumer s)" "Consumer_Rebalance now s = (errs, s')"
  shows "errs = [] \<and> undisturbed s' \<and> agrees s'
    \<and> share_reached now (if cn_stopping (cs_consumer s) then 0 else shareOf (membersOf (cn_queue (cs_consumer s)) (sdb s'))) s'"
proof -
  obtain s1 where 1: "seedPartitions s = (Inr (), s1)" "undisturbed s1" "cn_stopping (cs_consumer s1) = cn_stopping (cs_consumer s)"
    using seedPartitions_quiet [OF assms(1)] by auto
  obtain s2 where 2: "undispatchOrphans s1 = ([], s2)" "undisturbed s2" "cn_stopping (cs_consumer s2) = cn_stopping (cs_consumer s)"
    using undispatchOrphans_quiet [OF 1(2)] 1(3) by auto
  obtain s3 where 3: "reconcileInFlight s2 = ([], s3)" "undisturbed s3" "cn_stopping (cs_consumer s3) = cn_stopping (cs_consumer s)"
    using reconcileInFlight_quiet [OF 2(2)] 2(3) by auto
  have "steps s s3" using steps_seedPartitions [of s] steps_undispatchOrphans [of s1] steps_reconcileInFlight [of s2] steps_trans
    by (simp add: 1 2 3)
  then have cfg: "cn_queue (cs_consumer s3) = cn_queue (cs_consumer s)" "cn_leaseTTL (cs_consumer s3) = cn_leaseTTL (cs_consumer s)"
    using assms(1) by (simp_all add: steps_def keeps_def undisturbed_def)
  obtain res s4 where 4: "renewAndAdjust now s3 = (res, s4)" by fastforce
  have r: "res = Inr () \<and> undisturbed s4 \<and> agrees s4
      \<and> share_reached now (if cn_stopping (cs_consumer s) then 0 else shareOf (membersOf (cn_queue (cs_consumer s)) (sdb s4))) s4"
    using renewAndAdjust_quiet [OF 3(2) _ 4] assms(2) by (simp only: cfg 3(3))
  have "Consumer_Rebalance now s = ([], s4)" using 1 2 3 4 r by (simp add: Consumer_Rebalance_def)
  then have "errs = []" "s' = s4" using assms(3) by simp_all
  then show ?thesis using r by blast
qed

lemma shares_cover: "int Partitions \<le> max 1 members * shareOf members"
proof -
  let ?m = "max 1 members"
  have share: "shareOf members = 63 div ?m + 1" by (simp add: shareOf_def)
  have "?m * (63 div ?m) + 63 mod ?m = 63" by (rule mult_div_mod_eq)
  moreover have "63 mod ?m < ?m" by (rule pos_mod_bound) simp
  ultimately have "64 \<le> ?m * (63 div ?m) + ?m" by linarith
  then show ?thesis by (simp add: share distrib_left)
qed

text \<open>
  C13: After any past, a rebalance that nothing disturbs returns no error and leaves the consumer with
  exactly the partitions that the table gives it, epoch and draining flag included. It dispatches from
  at most its share of the partitions, none when it is stopping, and from fewer only if it drains
  nothing and no partition of the queue is free or lapsed; the shares of all members cover all
  partitions.
\<close>

theorem rebalance_reaches_share:
  assumes "sql_trace sql_start evs conf" "owner \<noteq> []" "0 \<le> ttl"
    and s: "s = fold runMethod ms (startConsumer queue owner ttl drain ts conf)" "cs_turns s = []"
    and "Consumer_Rebalance now s = (errs, s')"
    and target: "target = (if cn_stopping (cs_consumer s) then 0 else shareOf (membersOf queue (sdb s')))"
  shows "errs = []
    \<and> (\<forall>p e d. (\<exists>st. map_of (cn_leases (cs_consumer s')) p = Some st \<and> ps_epoch st = e \<and> ps_draining st = d)
         \<longleftrightarrow> (\<exists>r\<in>set (partitions (sdb s')). p_queue r = queue \<and> p_owner r = owner \<and> p_partition r = p \<and> p_epoch r = e \<and> p_draining r = d))
    \<and> int (length (activeLocked (cs_consumer s'))) \<le> target
    \<and> (int (length (activeLocked (cs_consumer s'))) < target \<longrightarrow> drainingLocked (cs_consumer s') = []
         \<and> (\<forall>r\<in>set (partitions (sdb s')). p_queue r = queue \<longrightarrow> p_owner r \<noteq> [] \<and> UnixMilli now \<le> p_expires_ms r))
    \<and> int Partitions \<le> max 1 (membersOf queue (sdb s')) * shareOf (membersOf queue (sdb s'))"
proof -
  let ?s0 = "startConsumer queue owner ttl drain ts conf"
  have st: "steps ?s0 s" unfolding s(1) by (rule steps_runMethods)
  have cfg: "cn_queue (cs_consumer s) = queue" "cn_owner (cs_consumer s) = owner" "cn_leaseTTL (cs_consumer s) = ttl"
    using st assms(2) by (simp_all add: steps_def keeps_def startConsumer_def NewConsumer_def)
  have "sql_inv conf" using sql_trace_inv [OF assms(1) sql_start_inv] .
  moreover have "store_reach conf (cs_conf s)" "consumer_inv (cs_consumer s)"
    using st assms(2) by (auto simp: steps_def keeps_def startConsumer_def NewConsumer_def consumer_inv_def)
  ultimately have "sql_inv (cs_conf s)" "consumer_inv (cs_consumer s)" using store_reach_inv by blast+
  then have und: "undisturbed s" using s(2) cfg assms(2) by (simp add: undisturbed_def)
  have r: "errs = []" "undisturbed s'" "agrees s'" "share_reached now target s'"
    using rebalance_quiet [OF und _ assms(6)] assms(3) unfolding target cfg by simp_all
  have "steps s s'" using steps_Rebalance [of s now] assms(6) by simp
  then have cfg': "cn_queue (cs_consumer s') = queue" "cn_owner (cs_consumer s') = owner"
    using cfg assms(2) by (simp_all add: steps_def keeps_def)
  have inv: "consumer_inv (cs_consumer s')" using r(2) by (simp add: undisturbed_def)
  have "(\<exists>st. map_of (cn_leases (cs_consumer s')) p = Some st \<and> ps_epoch st = e \<and> ps_draining st = d)
      \<longleftrightarrow> (p, e, d) \<in> lease_view (cs_consumer s')" for p e d
    using inv by (force simp: lease_view_def consumer_inv_def map_of_eq_Some_iff)
  moreover have "(p, e, d) \<in> owned_view queue owner (sdb s') \<longleftrightarrow>
      (\<exists>r\<in>set (partitions (sdb s')). p_queue r = queue \<and> p_owner r = owner \<and> p_partition r = p \<and> p_epoch r = e \<and> p_draining r = d)" for p e d
    by (auto simp: owned_view_def ownRow_def)
  moreover have "lease_view (cs_consumer s') = owned_view queue owner (sdb s')" using r(3) by (simp add: agrees_def cfg')
  moreover have "drainSet (cs_consumer s') = {} \<Longrightarrow> drainingLocked (cs_consumer s') = []"
    using set_activeLocked(2) [of "cs_consumer s'"] by simp
  ultimately show ?thesis
    using r(1,4) length_activeLocked [OF inv] shares_cover by (auto simp: share_reached_def cfg' free_def)
qed


section \<open>A first rebalance\<close>

text \<open>A partition of the queue that is the consumer's or nobody's stays so while nobody else runs.\<close>

definition within_reach :: "string \<Rightarrow> string \<Rightarrow> sql_db \<Rightarrow> bool" where
  "within_reach queue owner db \<longleftrightarrow> (\<exists>r\<in>set (partitions db). p_queue r = queue \<and> (p_owner r = [] \<or> p_owner r = owner))"

lemma within_reach_map:
  assumes "within_reach queue owner db" "partitions db' = map f (partitions db)"
    and "\<And>r. p_queue (f r) = p_queue r \<and> (p_owner r = [] \<or> p_owner r = owner \<longrightarrow> p_owner (f r) = [] \<or> p_owner (f r) = owner)"
  shows "within_reach queue owner db'"
  using assms unfolding within_reach_def by (metis image_eqI list.set_map)

lemma within_reach_parts: "within_reach queue owner db \<Longrightarrow> partitions db' = partitions db \<Longrightarrow> within_reach queue owner db'"
  by (simp add: within_reach_def)

lemma within_reach_rows:
  assumes "within_reach q ow db"
  shows "within_reach q ow (renewRows q ow x db)" "within_reach q ow (drainRows q ow ps d db)"
    "within_reach q ow (releaseRows q ow ps db)" "within_reach q ow (snd (acquireRows e q ow n x m db))"
    "within_reach q ow (memberRows q ow x b db)" "within_reach q ow (expireMembers q n db)" "within_reach q ow (resetRows e q ow only db)"
proof -
  show "within_reach q ow (renewRows q ow x db)"
    by (rule within_reach_map [OF assms, where f = "\<lambda>p. if ownRow q ow p then p \<lparr> p_expires_ms := x \<rparr> else p"]) (simp_all add: renewRows_def)
  show "within_reach q ow (drainRows q ow ps d db)"
    by (rule within_reach_map [OF assms, where f = "\<lambda>p. if ownRow q ow p \<and> p_partition p \<in> set ps then p \<lparr> p_draining := d \<rparr> else p"])
      (simp_all add: drainRows_def)
  show "within_reach q ow (releaseRows q ow ps db)"
    by (rule within_reach_map [OF assms, where f = "\<lambda>p. if ownRow q ow p \<and> p_partition p \<in> set ps then freeRow p else p"])
      (simp_all add: releaseRows_def freeRow_def)
  show "within_reach q ow (snd (acquireRows e q ow n x m db))"
    by (rule within_reach_map [OF assms, where f = "\<lambda>p. if acquirable e q n m db p then takeRow ow x p else p"])
      (simp_all add: acquireRows_def takeRow_def)
  show "within_reach q ow (memberRows q ow x b db)" "within_reach q ow (expireMembers q n db)" "within_reach q ow (resetRows e q ow only db)"
    using assms by (simp_all add: within_reach_def memberRows_def expireMembers_def resetRows_def)
qed

lemma within_reach_exec: "within_reach q ow db \<Longrightarrow> within_reach q ow (snd res) \<Longrightarrow> within_reach q ow (snd (exec e res db))"
  by (cases "e_fault e") (auto simp: exec_def split: prod.splits)

lemma within_reach_call:
  assumes "cs_turns s = []" "within_reach q ow (sdb s)" "\<And>e db. within_reach q ow db \<Longrightarrow> within_reach q ow (snd (f e db))"
    and "call f s = (res, s')"
  shows "cs_turns s' = [] \<and> cs_consumer s' = cs_consumer s \<and> within_reach q ow (sdb s')"
  using assms by (auto simp: call_def takeTurn_def sdb_def Let_def split: prod.splits) (metis snd_conv)

lemma within_reach_store:
  assumes "within_reach q ow db"
  shows "within_reach q ow (snd (Store_Heartbeat es q ow now ttl member db))"
    "within_reach q ow (snd (Store_ResetStale e q ow only db))"
    "within_reach q ow (snd (Store_ReleasePartitions e q ow ps db))"
    "within_reach q ow (snd (Store_SetDraining e q ow ps d db))"
    "within_reach q ow (snd (Store_AcquirePartitions e q ow now ttl m db))"
proof -
  show "within_reach q ow (snd (Store_ResetStale e q ow only db))" "within_reach q ow (snd (Store_ReleasePartitions e q ow ps db))"
    "within_reach q ow (snd (Store_SetDraining e q ow ps d db))"
    using assms by (auto simp: Store_ResetStale_def Store_ReleasePartitions_def Store_SetDraining_def within_reach_rows intro: within_reach_exec)
  show "within_reach q ow (snd (Store_AcquirePartitions e q ow now ttl m db))"
    using assms within_reach_rows(4) [OF assms]
    by (auto simp: Store_AcquirePartitions_def intro!: within_reach_exec split: prod.splits) (metis snd_conv)
  show "within_reach q ow (snd (Store_Heartbeat es q ow now ttl member db))"
    using assms by (auto simp: Store_Heartbeat_def exec_def Let_def within_reach_rows split: db_fault.splits)
qed

definition reachable_part :: "string \<Rightarrow> string \<Rightarrow> cstate \<Rightarrow> bool" where
  "reachable_part q ow s \<longleftrightarrow> cs_turns s = [] \<and> cn_queue (cs_consumer s) = q \<and> cn_owner (cs_consumer s) = ow \<and> within_reach q ow (sdb s)"

lemma reachable_part_locally:
  "reachable_part q ow s \<Longrightarrow> (\<And>c. cn_queue (f c) = cn_queue c \<and> cn_owner (f c) = cn_owner c) \<Longrightarrow> reachable_part q ow (locally f s)"
  by (simp add: reachable_part_def locally_def sdb_def)

lemma reachable_part_call:
  assumes "reachable_part q ow s" "\<And>e db. within_reach q ow db \<Longrightarrow> within_reach q ow (snd (f e db))" "call f s = (res, s')"
  shows "reachable_part q ow s'"
  using within_reach_call [OF _ _ assms(2,3)] assms(1) by (auto simp: reachable_part_def)

lemma reachable_part_stmts:
  assumes "reachable_part q ow s"
  shows "call (\<lambda>e. Store_Heartbeat e q ow now ttl member) s = (r1, s') \<Longrightarrow> reachable_part q ow s'"
    "call (\<lambda>e. Store_ResetStale (e 0) q ow only) s = (r2, s') \<Longrightarrow> reachable_part q ow s'"
    "call (\<lambda>e. Store_ReleasePartitions (e 0) q ow ps) s = (r2, s') \<Longrightarrow> reachable_part q ow s'"
    "call (\<lambda>e. Store_SetDraining (e 0) q ow ps d) s = (r2, s') \<Longrightarrow> reachable_part q ow s'"
    "call (\<lambda>e. Store_AcquirePartitions (e 0) q ow now ttl m) s = (r3, s') \<Longrightarrow> reachable_part q ow s'"
  using reachable_part_call [OF assms, of "\<lambda>e. Store_Heartbeat e q ow now ttl member"]
    reachable_part_call [OF assms, of "\<lambda>e. Store_ResetStale (e 0) q ow only"]
    reachable_part_call [OF assms, of "\<lambda>e. Store_ReleasePartitions (e 0) q ow ps"]
    reachable_part_call [OF assms, of "\<lambda>e. Store_SetDraining (e 0) q ow ps d"]
    reachable_part_call [OF assms, of "\<lambda>e. Store_AcquirePartitions (e 0) q ow now ttl m"]
  by (simp_all add: within_reach_store)

lemma reachable_part_names: "reachable_part q ow s \<Longrightarrow> cn_queue (cs_consumer s) = q \<and> cn_owner (cs_consumer s) = ow"
  by (simp add: reachable_part_def)

lemma reachable_part_reset:
  assumes "reachable_part q ow s" "consumer_resetStale now s = (res, s')"
  shows "reachable_part q ow s'"
proof -
  define s1 where "s1 = locally (\<lambda>c. c \<lparr> cn_beats := cn_beats c + 1 \<rparr>) s"
  have 1: "reachable_part q ow s1" unfolding s1_def by (rule reachable_part_locally [OF assms(1)]) simp
  then have "call (\<lambda>e. Store_ResetStale (e 0) q ow (resetParts now (cs_consumer s1))) s1 = (res, s')"
    using assms(2) reachable_part_names [OF 1] by (simp add: consumer_resetStale_def Let_def s1_def [symmetric])
  then show ?thesis by (rule reachable_part_stmts(2) [OF 1])
qed

lemma reachable_part_release:
  assumes "reachable_part q ow s" "releaseDrained now s = (res, s')"
  shows "reachable_part q ow s'"
proof -
  obtain r s1 where 1: "call (\<lambda>e. Store_ReleasePartitions (e 0) q ow (releasable now (cs_consumer s))) s = (r, s1)" by fastforce
  then have "reachable_part q ow s1" using reachable_part_stmts(3) [OF assms(1)] by blast
  then show ?thesis using assms(2) 1 reachable_part_names [OF assms(1)] reachable_part_locally
    by (auto simp: releaseDrained_def split: sum.splits)
qed

lemma reachable_part_leases:
  assumes "reachable_part q ow s"
  shows "reachable_part q ow (locally (setLease f ps) s)" "reachable_part q ow (locally (fold (addLease now) ls) s)"
    "reachable_part q ow (locally (syncLeases held now) s)"
proof -
  have "cn_queue (fold (addLease now) ls c) = cn_queue c \<and> cn_owner (fold (addLease now) ls c) = cn_owner c" for c
    by (induction ls arbitrary: c) (simp_all add: addLease_def)
  then show "reachable_part q ow (locally (fold (addLease now) ls) s)" by (rule reachable_part_locally [OF assms])
  show "reachable_part q ow (locally (setLease f ps) s)" "reachable_part q ow (locally (syncLeases held now) s)"
    by (rule reachable_part_locally [OF assms], simp add: setLease_def syncLeases_def)+
qed

lemma reachable_part_acquire:
  assumes "reachable_part q ow s" "acquireShare now need s = (res, s')"
  shows "reachable_part q ow s'"
proof -
  obtain r s1 where 1: "call (\<lambda>e. Store_AcquirePartitions (e 0) q ow now (cn_leaseTTL (cs_consumer s)) (int need)) s = (r, s1)" by fastforce
  then have s1: "reachable_part q ow s1" using reachable_part_stmts(5) [OF assms(1)] by blast
  show ?thesis
  proof (cases r)
    case (Inr ls)
    then have "call (\<lambda>e. Store_ResetStale (e 0) q ow (Some (map l_Partition ls))) (locally (fold (addLease now) ls) s1) = (res, s')"
      using assms(2) 1 reachable_part_names [OF assms(1)] by (simp add: acquireShare_def)
    then show ?thesis by (rule reachable_part_stmts(2) [OF reachable_part_leases(2) [OF s1]])
  qed (use assms(2) 1 s1 reachable_part_names [OF assms(1)] in \<open>simp add: acquireShare_def\<close>)
qed

lemma reachable_part_adjust:
  assumes "reachable_part q ow s" "adjustShare now target s = (res, s')"
  shows "reachable_part q ow s'"
proof -
  note names = reachable_part_names [OF assms(1)]
  have turn: "snd (takeTurn s) = s" using assms(1) by (simp add: reachable_part_def takeTurn_def)
  have grow: "reachable_part q ow s'" if "growShare now draining need s = (res, s')" for draining need
  proof -
    obtain r s1 where 1: "call (\<lambda>e. Store_SetDraining (e 0) q ow (take need draining) False) s = (r, s1)" by fastforce
    then have "reachable_part q ow s1" using reachable_part_stmts(4) [OF assms(1)] by blast
    then show ?thesis using that 1 names reachable_part_leases(1) reachable_part_acquire [OF reachable_part_leases(1)]
      by (auto simp: growShare_def Let_def split: sum.splits if_splits)
  qed
  have shrink: "reachable_part q ow s'" if "shrinkShare now active n s = (res, s')" for active n
  proof -
    let ?drain = "drainCandidatesLocked (cs_consumer s) active n"
    obtain r s1 where 1: "call (\<lambda>e. Store_SetDraining (e 0) q ow ?drain True) s = (r, s1)" by fastforce
    then have "reachable_part q ow s1" using reachable_part_stmts(4) [OF assms(1)] by blast
    then show ?thesis using that 1 names turn reachable_part_release [OF reachable_part_leases(1)]
      by (auto simp: shrinkShare_def Let_def split: sum.splits)
  qed
  show ?thesis using assms grow shrink by (auto simp: adjustShare_def Let_def split: if_splits)
qed

lemma reachable_part_renew:
  assumes "reachable_part q ow s" "renewAndAdjust now s = (res, s')"
  shows "reachable_part q ow s'"
proof -
  note names = reachable_part_names [OF assms(1)]
  obtain r s1 where 1: "call (\<lambda>e. Store_Heartbeat e q ow now (cn_leaseTTL (cs_consumer s)) (\<not> cn_stopping (cs_consumer s))) s = (r, s1)" by fastforce
  then have s1: "reachable_part q ow s1" using reachable_part_stmts(1) [OF assms(1)] by blast
  show ?thesis
  proof (cases r)
    case (Inr a)
    obtain held members where a: "a = (held, members)" by (cases a)
    obtain r2 s2 where 2: "consumer_resetStale now (locally (syncLeases held now) s1) = (r2, s2)" by fastforce
    obtain r3 s3 where 3: "releaseDrained now s2 = (r3, s3)" by fastforce
    have s2: "reachable_part q ow s2" by (rule reachable_part_reset [OF reachable_part_leases(3) [OF s1] 2])
    have s3: "reachable_part q ow s3" by (rule reachable_part_release [OF s2 3])
    obtain r4 s4 where 4: "adjustShare now (if cn_stopping (cs_consumer s) then 0 else shareOf members) s3 = (r4, s4)" by fastforce
    have s4: "reachable_part q ow s4" by (rule reachable_part_adjust [OF s3 4])
    have "s' \<in> {s2, s3, s4}" using assms(2) 1 2 3 4 names unfolding Inr a by (cases r2; cases r3) (simp_all add: renewAndAdjust_def)
    then show ?thesis using s2 s3 s4 by blast
  qed (use assms(2) 1 s1 names in \<open>simp add: renewAndAdjust_def\<close>)
qed

lemma first_rebalance_within_reach:
  assumes "Consumer_Rebalance now (startConsumer q ow ttl drain [] sql_start) = (errs, s')"
  shows "within_reach q ow (sdb s')"
proof -
  let ?s0 = "startConsumer q ow ttl drain [] sql_start"
  obtain r1 s1 where 1: "seedPartitions ?s0 = (r1, s1)" by fastforce
  have "within_reach q ow (ensureRows q emptyDb)"
    by (simp add: within_reach_def ensureRows_def emptyDb_def newPart_def exI [of _ "0::nat"])
  then have "reachable_part q ow s1 \<and> cn_orphans (cs_consumer s1) = [] \<and> \<not> cn_reconcile (cs_consumer s1)" "r1 = Inr ()"
    using 1 by (auto simp: reachable_part_def seedPartitions_def startConsumer_def NewConsumer_def call_def takeTurn_def quietTurn_def
        clamp_def sees_def quietEnv_def Store_EnsurePartitions_def exec_def locally_def sdb_def sql_start_def Let_def)
  moreover from this have "Consumer_Rebalance now ?s0 = (case renewAndAdjust now s1 of (Inl er, s4) \<Rightarrow> ([er], s4) | (Inr _, s4) \<Rightarrow> ([], s4))"
    using 1 by (simp add: Consumer_Rebalance_def undispatchOrphans_def reconcileInFlight_def split: prod.splits sum.splits)
  moreover obtain r4 s4 where "renewAndAdjust now s1 = (r4, s4)" by fastforce
  ultimately show ?thesis using assms reachable_part_renew [of q ow s1 now r4 s4] by (cases r4) (simp_all add: reachable_part_def)
qed

lemma first_rebalance_leases:
  assumes "owner \<noteq> []" "0 \<le> ttl"
  shows "cn_leases (cs_consumer (runMethod (MRebalance now) (startConsumer queue owner ttl drain [] sql_start))) \<noteq> []"
proof -
  let ?s = "startConsumer queue owner ttl drain [] sql_start"
  obtain errs s' where r: "Consumer_Rebalance now ?s = (errs, s')" by fastforce
  have und: "undisturbed ?s" using assms(1) sql_start_inv
    by (simp add: undisturbed_def startConsumer_def NewConsumer_def consumer_inv_def)
  have names: "cn_queue (cs_consumer s') = queue" "cn_owner (cs_consumer s') = owner"
    using steps_Rebalance [of ?s now] r assms(1) by (auto simp: steps_def keeps_def startConsumer_def NewConsumer_def)
  have q: "agrees s'" "share_reached now (shareOf (membersOf queue (sdb s'))) s'"
    using rebalance_quiet [OF und _ r] assms(2) by (simp_all add: startConsumer_def NewConsumer_def)
  have "0 < shareOf m" for m by (simp add: shareOf_def div_int_pos_iff max_def)
  then have "cn_leases (cs_consumer s') = [] \<Longrightarrow> \<forall>r\<in>set (partitions (sdb s')). \<not> free queue (UnixMilli now) r \<and> \<not> ownRow queue owner r"
    using q names by (auto simp: share_reached_def agrees_def lease_view_def owned_view_def activeSet_def)
  moreover obtain r where "r \<in> set (partitions (sdb s'))" "p_queue r = queue" "p_owner r = [] \<or> p_owner r = owner"
    using first_rebalance_within_reach [OF r] by (auto simp: within_reach_def)
  ultimately show ?thesis using r by (auto simp: free_def ownRow_def)
qed

theorem inflight_counters_are_bounded_witness:
  "\<exists>p st c. c = cs_consumer (fold runMethod [MRebalance 0] (startConsumer ''q'' ''a'' 1000 1000 [] sql_start))
     \<and> map_of (cn_leases c) p = Some st
     \<and> 0 \<le> ps_inflight st \<and> ps_inflight st \<le> int (length (filter (\<lambda>(k, t). tk_partition t = p \<and> tk_epoch t = ps_epoch st) (cn_inflight c)))"
proof -
  define c where "c = cs_consumer (fold runMethod [MRebalance 0] (startConsumer ''q'' ''a'' 1000 1000 [] sql_start))"
  obtain p where "p \<in> fst ` set (cn_leases c)" using first_rebalance_leases [of "''a''" 1000 0 "''q''" 1000] by (fastforce simp: c_def neq_Nil_conv)
  then obtain st where st: "map_of (cn_leases c) p = Some st" by (metis domD dom_map_of_conv_image_fst)
  show ?thesis using inflight_counters_are_bounded [OF _ c_def st] st unfolding c_def [symmetric] by blast
qed

theorem rebalance_reaches_share_witness:
  "fst (Consumer_Rebalance 0 (startConsumer ''q'' ''a'' 1000 1000 [] sql_start)) = []"
proof -
  obtain errs s' where "Consumer_Rebalance 0 (startConsumer ''q'' ''a'' 1000 1000 [] sql_start) = (errs, s')" by fastforce
  then show ?thesis
    using rebalance_reaches_share [OF sql_refl, of "''a''" 1000 _ "[]" "''q''" 1000 "[]" 0 errs s'] by (simp add: startConsumer_def)
qed

end
