(* ===== verification/Spec2Isabelle.thy ===== *)
theory Spec2Isabelle
  imports Api Gate Flow_Gates Keyslot Redis Claim Inference Worker Quota Redis_Gates Merge_Policy Sql_Consumer
begin

text \<open>
  Verification of llm-d-async, a dispatcher that takes inference requests from a queue, runs them
  against an inference gateway when gates allow it, and puts a result on a result queue for each.

  \<^bold>\<open>Parts and how they interact.\<close> Producers put requests on a transport: sorted sets in Redis
  (\<open>src/pkg/redis\<close>, \<open>src/producer\<close>) or tables in PostgreSQL (\<open>src/producer-sql\<close>, \<open>src/pkg/sqlflow\<close>). A
  transport hands them to channels, one per queue; a merge policy (\<open>src/pkg/async/mergepolicy\<close>) merges
  the channels and sends each message to a worker pool; a worker (\<open>src/pkg/asyncworker\<close>) passes the gates
  of the pool (\<open>src/pipeline/gate.go\<close>, \<open>src/pkg/async/inference/flowcontrol\<close>), sends the request and
  emits one result or one retry, which the transport writes back. Each request is owned by one instance
  at a time under a lease, so that the work of a crashed instance is taken over and that of a slow one is
  fenced off.

  \<^bold>\<open>The theories.\<close>
  \<^item> \<open>Prelude\<close>: results with errors, 64-bit wrap-around, IEEE doubles with exact arithmetic, generic
    lemmas, collections of rewrite rules.
  \<^item> \<open>Api\<close> (\<open>src/api\<close>): requests, routing, results, error categories, the queue score, the JSON envelope
    as a tree and the payload by reference. Lemmas: order and exactness of scores, round trips.
  \<^item> \<open>Gate\<close> (\<open>pipeline/gate.go\<close> and the wrapping gates): verdicts, release closures, chains. The
    locales \<open>gate_contract\<close> and \<open>gate_budget\<close> say what a gate promises about reservations and budgets.
  \<^item> \<open>Flow_Gates\<close>, \<open>Quota\<close>, \<open>Redis_Gates\<close>: the concrete gates and the state they keep in memory or in
    Redis, each shown to meet the contract, with the bound it enforces over every run.
  \<^item> \<open>Keyslot\<close> (\<open>pkg/redis/keyslot.go\<close>): CRC-16, hash tags and the slot of derived keys.
  \<^item> \<open>Redis\<close>: the commands as a record, their documented laws as the locale \<open>redis_server\<close>, and an
    in-memory keyspace that meets them.
  \<^item> \<open>Claim\<close> (\<open>pkg/redis/claim.go\<close>): the Lua scripts as atomic functions, the Go operations over them
    with the three outcomes of a network call, and the interleavings of any number of instances.
  \<^item> \<open>Inference\<close>, \<open>Worker\<close> (\<open>pkg/asyncworker\<close>): the client's classification of HTTP outcomes, and one
    message from the request channel to its answer. The locales \<open>worker_env\<close> and \<open>env_rel\<close> state what the
    worker relies on of clock, context and channels.
  \<^item> \<open>Merge_Policy\<close>: lanes, the scheduler of the tier priority policy, merged headers, sources of pools.
  \<^item> \<open>Sql_Store\<close> (\<open>producer-sql/sqlqueue/store.go\<close> and the first migration): the tables and every
    statement on requests, results, partitions and dispatchers, with the faults a caller sees.
  \<^item> \<open>Sql_Trace\<close>: the properties of every interleaving of statements.
  \<^item> \<open>Sql_Consumer\<close> (\<open>producer-sql/sqlqueue/consumer.go\<close>): the dispatcher's side of the queue, each of its
    methods shown to be a run of store statements, and the rebalancing cycle.

  \<^bold>\<open>What the properties show.\<close> Neither transport loses a request or lets a stale owner act, and the
  work of a lost owner is taken over, over every interleaving of scripts or statements. The code that runs
  the scripts and statements stays within those protocols, whatever calls fail. A worker answers each
  message and returns what it reserved; a chain of gates reserves everything or nothing, and each gate
  keeps its limit. Merging keeps the order of each source and serves lanes by priority. Texts and trees
  round-trip. Some properties state where the code departs from its documentation; the manifest lists
  them as findings.

  \<^bold>\<open>Conventions and bounds.\<close> Times are integers, in the unit the source uses at that place; a deadline
  of a request is in Unix seconds. Go's 64-bit arithmetic is written out where it can wrap. Doubles are
  exact on the finite values used and have NaN and the infinities. Each loop of the source is a total
  function: over the list it ranges over, or with a termination measure. Loops that wait for other parties
  run over the list of what these do, so that a run that has not come to its end is told apart from one
  that has. Randomness, clocks, the network, the database and the inference server are arguments; the laws used of
  them are hypotheses or locales with an interpretation.

  \<^bold>\<open>Not modelled.\<close> Metrics, tracing and logging have no effect on requests. Process wiring (\<open>src/cmd\<close>,
  \<open>src/pkg/server\<close>, \<open>src/internal\<close>, \<open>src/pkg/plugins\<close>), command line options and connection set-up are calls
  into libraries with no state of their own. The Pub/Sub transport (\<open>src/pkg/pubsub\<close>) is a thin layer over the
  client library of a service, whose delivery semantics is not in this repository. The text layers of
  encoding/json, Prometheus and HTTP are arguments. Goroutines and tickers are represented by the
  interleavings of the operations that they call.
\<close>

end
